(* ===== verification/Prelude.thy ===== *)
theory Prelude
  imports Main "HOL-Library.Word"
begin

text \<open>
  Shared material of the development: the machine types of \<^verbatim>\<open>kernel/types.h\<close>, the
  outcome type in which every kernel routine returns, the sequencing combinator that
  composes routines the way the C code composes calls, and the generic facts on lists
  and words the component theories use.

  A kernel routine is a function from the state to an outcome: it returns a value and a
  new state, it calls \<^verbatim>\<open>panic\<close>, it calls \<^verbatim>\<open>sleep\<close> on a channel (the
  state at that point is kept), its process ends, a loop of it does not end within the fuel given to it, or
  it does something C gives no meaning to, such as writing outside an array.
\<close>

unbundle bit_operations_syntax

section \<open>Machine integers\<close>

type_synonym u8 = "8 word"
type_synonym u16 = "16 word"
type_synonym u32 = "32 word"
type_synonym u64 = "64 word"

section \<open>Collections of rewrite rules\<close>

named_theorems outcome_simps \<open>how sequencing acts on each outcome\<close>
named_theorems mem_simps \<open>reads after writes in byte memory\<close>
named_theorems frame_simps \<open>state components an operation leaves alone\<close>

section \<open>Outcomes of kernel routines\<close>

text \<open>
  The channels a process of this kernel sleeps on, named after the object whose address
  the source passes to \<^verbatim>\<open>sleep\<close> and \<^verbatim>\<open>wakeup\<close>.
\<close>

datatype chan =
    ChProc nat          \<comment> \<open>a slot of \<^verbatim>\<open>proc[]\<close>, in \<^verbatim>\<open>wait\<close>\<close>
  | ChLog               \<comment> \<open>\<^verbatim>\<open>&log\<close>\<close>
  | ChTicks             \<comment> \<open>\<^verbatim>\<open>&ticks\<close>\<close>
  | ChPipeRead u64      \<comment> \<open>\<^verbatim>\<open>&pi->nread\<close>\<close>
  | ChPipeWrite u64     \<comment> \<open>\<^verbatim>\<open>&pi->nwrite\<close>\<close>
  | ChBufLock nat       \<comment> \<open>the sleep lock of a buffer\<close>
  | ChInodeLock nat     \<comment> \<open>the sleep lock of an inode\<close>
  | ChBuf nat           \<comment> \<open>a buffer, in \<^verbatim>\<open>virtio_disk_rw\<close>\<close>
  | ChDiskFree          \<comment> \<open>\<^verbatim>\<open>&disk.free[0]\<close>\<close>
  | ChCons              \<comment> \<open>\<^verbatim>\<open>&cons.r\<close>\<close>
  | ChUart              \<comment> \<open>\<^verbatim>\<open>&uart_tx_r\<close>\<close>

datatype ('a, 's) outcome =
    Ok 'a 's
  | Panic string
  | Sleeps chan 's
  | Exits 's
  | Diverges
  | Undef

fun obind :: "('a, 's) outcome \<Rightarrow> ('a \<Rightarrow> 's \<Rightarrow> ('b, 's) outcome) \<Rightarrow> ('b, 's) outcome" where
  "obind (Ok x s) f = f x s"
| "obind (Panic m) f = Panic m"
| "obind (Sleeps c s) f = Sleeps c s"
| "obind (Exits s) f = Exits s"
| "obind Diverges f = Diverges"
| "obind Undef f = Undef"

declare obind.simps [outcome_simps]

lemma obind_cong [fundef_cong]:
  assumes "m = m'" and "\<And>x s. m' = Ok x s \<Longrightarrow> f x s = f' x s"
  shows "obind m f = obind m' f'"
  using assms by (cases m') auto

lemma obind_eq_Ok [outcome_simps]:
  "obind m f = Ok y t \<longleftrightarrow> (\<exists>x s. m = Ok x s \<and> f x s = Ok y t)"
  by (cases m) auto

lemma obind_eq_Panic:
  "obind m f = Panic e \<longleftrightarrow> m = Panic e \<or> (\<exists>x s. m = Ok x s \<and> f x s = Panic e)"
  by (cases m) auto

lemma obind_eq_Diverges:
  "obind m f = Diverges \<longleftrightarrow> m = Diverges \<or> (\<exists>x s. m = Ok x s \<and> f x s = Diverges)"
  by (cases m) auto

lemma obind_OkE:
  assumes "obind m f = Ok y t"
  obtains x s where "m = Ok x s" and "f x s = Ok y t"
  using assms by (auto simp: outcome_simps)

lemma obind_assoc: "obind (obind m f) g = obind m (\<lambda>x s. obind (f x s) g)"
  by (cases m) auto

definition no_panic :: "('a, 's) outcome \<Rightarrow> bool" where
  "no_panic r \<longleftrightarrow> (\<forall>m. r \<noteq> Panic m) \<and> r \<noteq> Diverges \<and> r \<noteq> Undef"

lemma no_panic_simps [simp]:
  "no_panic (Ok x s)" "\<not> no_panic (Panic m)" "no_panic (Sleeps c s)" "no_panic (Exits s)" "\<not> no_panic Diverges"
  "\<not> no_panic Undef"
  by (auto simp: no_panic_def)

lemma no_panic_obind:
  "no_panic m \<Longrightarrow> (\<And>x s. m = Ok x s \<Longrightarrow> no_panic (f x s)) \<Longrightarrow> no_panic (obind m f)"
  by (cases m) auto

section \<open>Facts on words\<close>

lemma unat_lt_two_power: "unat (x :: 'a::len word) < 2 ^ LENGTH('a)"
  by simp

lemma unat_add_noov:
  "unat a + unat b < 2 ^ LENGTH('a) \<Longrightarrow> unat (a + b :: 'a::len word) = unat a + unat b"
  by (simp add: unat_word_ariths)

lemma unat_sub_le: "b \<le> a \<Longrightarrow> unat (a - b :: 'a::len word) = unat a - unat b"
  by (simp add: unat_sub)

lemma word_add_left_neq: "(b :: 'a::len word) \<noteq> c \<Longrightarrow> a + b \<noteq> a + c"
  by simp

lemma u64_of_nat_inj:
  "i < 2 ^ 64 \<Longrightarrow> j < 2 ^ 64 \<Longrightarrow> ((of_nat i :: u64) = of_nat j) = (i = j)"
  by (simp add: word_of_nat_eq_iff take_bit_nat_eq_self)

lemma unat_ucast_up [simp]:
  "unat (ucast (x :: u32) :: u64) = unat x"
  "unat (ucast (y :: u8) :: u64) = unat y"
  "unat (ucast (y :: u8) :: u32) = unat y"
  "unat (ucast (z :: u16) :: u32) = unat z"
  "unat (ucast (z :: u16) :: u64) = unat z"
  by (simp_all add: unsigned_ucast_eq take_bit_nat_eq_self order_less_le_trans [OF unat_lt_two_power])

lemma unat_of_nat_small:
  "i < 2 ^ LENGTH('a) \<Longrightarrow> unat (of_nat i :: 'a::len word) = i"
  by (simp add: unat_of_nat)

end
