(* ===== verification/Memory.thy ===== *)
theory Memory
  imports Prelude
begin

text \<open>
  Byte-addressed physical memory and the routines of \<^verbatim>\<open>kernel/string.c\<close> on it.
  The kernel page table maps RAM one to one, so a kernel pointer is a physical address.
  Every routine is the source's loop; the lemmas give the closed form the other theories
  rewrite with. A 64-bit load or store (a page-table entry, a free-list link) is eight
  little-endian bytes.
\<close>

type_synonym mem = "u64 \<Rightarrow> u8"

section \<open>Loops of string.c\<close>

fun memset_loop :: "mem \<Rightarrow> u64 \<Rightarrow> u8 \<Rightarrow> nat \<Rightarrow> nat \<Rightarrow> mem" where
  "memset_loop m cdst c i 0 = m"
| "memset_loop m cdst c i (Suc k) = memset_loop (m(cdst + of_nat i := c)) cdst c (Suc i) k"

definition memset :: "mem \<Rightarrow> u64 \<Rightarrow> u32 \<Rightarrow> u32 \<Rightarrow> mem" where
  "memset m dst c n = memset_loop m dst (ucast c) 0 (unat n)"

fun memcmp_loop :: "mem \<Rightarrow> u64 \<Rightarrow> u64 \<Rightarrow> nat \<Rightarrow> int" where
  "memcmp_loop m s1 s2 0 = 0"
| "memcmp_loop m s1 s2 (Suc n) =
     (if m s1 \<noteq> m s2 then uint (m s1) - uint (m s2) else memcmp_loop m (s1 + 1) (s2 + 1) n)"

definition memcmp :: "mem \<Rightarrow> u64 \<Rightarrow> u64 \<Rightarrow> u32 \<Rightarrow> int" where
  "memcmp m v1 v2 n = memcmp_loop m v1 v2 (unat n)"

fun copy_up :: "mem \<Rightarrow> u64 \<Rightarrow> u64 \<Rightarrow> nat \<Rightarrow> mem" where
  "copy_up m d s 0 = m"
| "copy_up m d s (Suc n) = copy_up (m(d := m s)) (d + 1) (s + 1) n"

fun copy_down :: "mem \<Rightarrow> u64 \<Rightarrow> u64 \<Rightarrow> nat \<Rightarrow> mem" where
  "copy_down m d s 0 = m"
| "copy_down m d s (Suc n) = copy_down (m(d - 1 := m (s - 1))) (d - 1) (s - 1) n"

definition memmove :: "mem \<Rightarrow> u64 \<Rightarrow> u64 \<Rightarrow> u32 \<Rightarrow> mem" where
  "memmove m dst src n =
     (if n = 0 then m
      else if src < dst \<and> dst < src + ucast n
      then copy_down m (dst + ucast n) (src + ucast n) (unat n)
      else copy_up m dst src (unat n))"

definition memcpy :: "mem \<Rightarrow> u64 \<Rightarrow> u64 \<Rightarrow> u32 \<Rightarrow> mem" where
  "memcpy m dst src n = memmove m dst src n"

fun strncmp_loop :: "mem \<Rightarrow> u64 \<Rightarrow> u64 \<Rightarrow> nat \<Rightarrow> int" where
  "strncmp_loop m p q 0 = 0"
| "strncmp_loop m p q (Suc n) =
     (if m p \<noteq> 0 \<and> m p = m q then strncmp_loop m (p + 1) (q + 1) n
      else uint (m p) - uint (m q))"

definition strncmp :: "mem \<Rightarrow> u64 \<Rightarrow> u64 \<Rightarrow> u32 \<Rightarrow> int" where
  "strncmp m p q n = strncmp_loop m p q (unat n)"

fun zero_fill :: "mem \<Rightarrow> u64 \<Rightarrow> nat \<Rightarrow> mem" where
  "zero_fill m s 0 = m"
| "zero_fill m s (Suc n) = zero_fill (m(s := 0)) (s + 1) n"

fun strncpy_loop :: "mem \<Rightarrow> u64 \<Rightarrow> u64 \<Rightarrow> nat \<Rightarrow> mem" where
  "strncpy_loop m s t 0 = m"
| "strncpy_loop m s t (Suc n) =
     (let c = m t; m' = m(s := c)
      in if c \<noteq> 0 then strncpy_loop m' (s + 1) (t + 1) n else zero_fill m' (s + 1) n)"

definition strncpy :: "mem \<Rightarrow> u64 \<Rightarrow> u64 \<Rightarrow> int \<Rightarrow> mem" where
  "strncpy m s t n = strncpy_loop m s t (nat n)"

text \<open>
  \<^verbatim>\<open>safestrcpy\<close>: the counter is decremented before it is tested, so at most
  \<^verbatim>\<open>n - 1\<close> bytes are copied and the terminator always fits.
\<close>

fun safestrcpy_loop :: "mem \<Rightarrow> u64 \<Rightarrow> u64 \<Rightarrow> nat \<Rightarrow> mem" where
  "safestrcpy_loop m s t 0 = m(s := 0)"
| "safestrcpy_loop m s t (Suc n) =
     (let c = m t; m' = m(s := c)
      in if c \<noteq> 0 then safestrcpy_loop m' (s + 1) (t + 1) n else m'(s + 1 := 0))"

definition safestrcpy :: "mem \<Rightarrow> u64 \<Rightarrow> u64 \<Rightarrow> int \<Rightarrow> mem" where
  "safestrcpy m s t n = (if n \<le> 0 then m else safestrcpy_loop m s t (nat (n - 1)))"

partial_function (option) strlen_from :: "mem \<Rightarrow> u64 \<Rightarrow> nat \<Rightarrow> nat option" where
  "strlen_from m s n = (if m (s + of_nat n) = 0 then Some n else strlen_from m s (Suc n))"

definition strlen :: "mem \<Rightarrow> u64 \<Rightarrow> nat option" where
  "strlen m s = strlen_from m s 0"

section \<open>Ranges of addresses\<close>

definition in_range :: "u64 \<Rightarrow> u64 \<Rightarrow> nat \<Rightarrow> bool" where
  "in_range x a n \<longleftrightarrow> unat (x - a) < n"

lemma unat_diff_Suc:
  assumes "x \<noteq> (a :: u64)"
  shows "unat (x - a) = Suc (unat (x - (a + 1)))"
proof -
  have "x - a \<noteq> 0" using assms by simp
  then have "unat (x - a - 1) = unat (x - a) - 1" and "0 < unat (x - a)"
    by (simp_all add: unat_minus_one unat_gt_0)
  moreover have "x - a - 1 = x - (a + 1)" by simp
  ultimately show ?thesis by (metis Suc_diff_1)
qed

lemma in_range_Suc:
  assumes "n < 2 ^ 64"
  shows "in_range x a (Suc n) \<longleftrightarrow> x = a \<or> in_range x (a + 1) n"
proof (cases "x = a")
  case True
  then show ?thesis by (simp add: in_range_def)
next
  case False
  then show ?thesis by (simp add: in_range_def unat_diff_Suc)
qed

lemma in_range_iff_offset:
  "n \<le> 2 ^ 64 \<Longrightarrow> in_range x a n \<longleftrightarrow> (\<exists>i < n. x = a + of_nat i)"
proof
  assume "in_range x a n"
  then have "unat (x - a) < n" and "x = a + of_nat (unat (x - a))"
    by (simp_all add: in_range_def)
  then show "\<exists>i < n. x = a + of_nat i" by blast
next
  assume "n \<le> 2 ^ 64" and "\<exists>i < n. x = a + of_nat i"
  then show "in_range x a n"
    by (auto simp: in_range_def unat_of_nat)
qed

lemma in_range_offset [simp]: "i < n \<Longrightarrow> n \<le> 2 ^ 64 \<Longrightarrow> in_range (a + of_nat i) a n"
  by (auto simp: in_range_iff_offset)

section \<open>Closed forms\<close>

lemma memset_loop_apply:
  "k \<le> 2 ^ 64 \<Longrightarrow>
   memset_loop m d c i k x = (if in_range x (d + of_nat i) k then c else m x)"
proof (induction k arbitrary: m i)
  case 0
  then show ?case by (simp add: in_range_def)
next
  case (Suc k)
  then show ?case by (auto simp: in_range_Suc ac_simps)
qed

lemma memset_apply [mem_simps]:
  "memset m d c n x = (if in_range x d (unat n) then ucast c else m x)"
proof -
  have "unat n \<le> 2 ^ 64"
    using unat_lt_two_power [of n] by simp
  then show ?thesis
    by (simp add: memset_def memset_loop_apply)
qed

lemma zero_fill_apply:
  "n \<le> 2 ^ 64 \<Longrightarrow> zero_fill m s n x = (if in_range x s n then 0 else m x)"
proof (induction n arbitrary: m s)
  case 0
  then show ?case by (simp add: in_range_def)
next
  case (Suc n)
  then show ?case by (auto simp: in_range_Suc)
qed

lemma copy_up_apply:
  assumes "n \<le> 2 ^ 64"
    and "\<And>i j. i < n \<Longrightarrow> j < i \<Longrightarrow> d + of_nat j \<noteq> s + of_nat i"
  shows "copy_up m d s n x = (if in_range x d n then m (s + (x - d)) else m x)"
  using assms
proof (induction n arbitrary: m d s)
  case 0
  then show ?case by (simp add: in_range_def)
next
  case (Suc n)
  have shift: "(d + 1) + of_nat j \<noteq> (s + 1) + of_nat i" if "i < n" "j < i" for i j
    using Suc.prems(2) [of "Suc i" "Suc j"] that by (simp add: algebra_simps)
  have IH: "copy_up (m(d := m s)) (d + 1) (s + 1) n x =
      (if in_range x (d + 1) n then (m(d := m s)) (s + 1 + (x - (d + 1))) else (m(d := m s)) x)"
    using Suc.prems(1) shift by (intro Suc.IH) auto
  have keep: "s + (x - d) \<noteq> d" if r: "in_range x (d + 1) n"
  proof -
    obtain k where "k < n" and k: "x = d + 1 + of_nat k"
      using r Suc.prems(1) in_range_iff_offset [of n x "d + 1"] by auto
    then show ?thesis
      using Suc.prems(2) [of "Suc k" 0] by (simp add: algebra_simps)
  qed
  have nrange: "\<not> in_range d (d + 1) n"
    using Suc.prems(1) by (simp add: in_range_def unsigned_minus_1_eq_mask mask_eq_exp_minus_1)
  show ?case
    using IH keep nrange Suc.prems(1) by (auto simp: in_range_Suc algebra_simps)
qed

lemma copy_down_apply:
  assumes "n \<le> 2 ^ 64"
    and "\<And>i j. j < n \<Longrightarrow> i < j \<Longrightarrow> d + of_nat j \<noteq> s + of_nat i"
  shows "copy_down m (d + of_nat n) (s + of_nat n) n x =
           (if in_range x d n then m (s + (x - d)) else m x)"
  using assms
proof (induction n arbitrary: m)
  case 0
  then show ?case by (simp add: in_range_def)
next
  case (Suc n)
  let ?e = "d + of_nat n" and ?f = "s + of_nat n"
  have IH: "copy_down (m(?e := m ?f)) ?e ?f n x =
      (if in_range x d n then (m(?e := m ?f)) (s + (x - d)) else (m(?e := m ?f)) x)"
    using Suc.prems by (intro Suc.IH) auto
  have keep: "s + (x - d) \<noteq> ?e" if r: "in_range x d n"
  proof -
    obtain k where "k < n" and "x = d + of_nat k"
      using r Suc.prems(1) in_range_iff_offset [of n x d] by auto
    then show ?thesis using Suc.prems(2) [of n k] by auto
  qed
  have split: "in_range x d (Suc n) \<longleftrightarrow> in_range x d n \<or> x = ?e"
    using Suc.prems(1) by (auto simp: in_range_iff_offset less_Suc_eq)
  have nrange: "\<not> in_range ?e d n"
    using Suc.prems(1) by (simp add: in_range_def unat_of_nat)
  show ?case
    using IH keep nrange split by (auto simp: algebra_simps)
qed

text \<open>The block copy that \<^verbatim>\<open>memmove\<close> performs, whatever the overlap.\<close>

definition block_copy :: "mem \<Rightarrow> u64 \<Rightarrow> u64 \<Rightarrow> nat \<Rightarrow> mem" where
  "block_copy m d s n = (\<lambda>x. if in_range x d n then m (s + (x - d)) else m x)"

lemma range_offset_neq:
  assumes "unat (a :: u64) + n \<le> 2 ^ 64" and "unat b + n \<le> 2 ^ 64"
    and "i < n" and "j < n" and "a + of_nat i = b + of_nat j"
  shows "unat a + i = unat b + j"
proof -
  have "unat (a + of_nat i) = unat a + i" and "unat (b + of_nat j) = unat b + j"
    using assms(1-4) by (simp_all add: unat_word_ariths unat_of_nat)
  with assms(5) show ?thesis by simp
qed

lemma memmove_block_copy:
  assumes "unat dst + unat n \<le> 2 ^ 64" and "unat src + unat n < 2 ^ 64"
  shows "memmove m dst src n = block_copy m dst src (unat n)"
proof (cases "n = 0")
  case True
  then show ?thesis by (simp add: memmove_def block_copy_def in_range_def)
next
  case nz: False
  let ?n = "unat n"
  have n64: "?n \<le> 2 ^ 64"
    using unat_lt_two_power [of n] by simp
  have cast: "(ucast n :: u64) = of_nat ?n"
    by (rule of_nat_unat [symmetric])
  have bounds: "unat dst + ?n \<le> 2 ^ 64" "unat src + ?n \<le> 2 ^ 64"
    using assms by simp_all
  show ?thesis
  proof (cases "src < dst \<and> dst < src + ucast n")
    case True
    then have lt: "unat src < unat dst" by (simp add: word_less_nat_alt)
    have "dst + of_nat j \<noteq> src + of_nat i" if "j < ?n" "i < j" for i j
      using range_offset_neq [OF bounds, of j i] lt that by auto
    then have "copy_down m (dst + of_nat ?n) (src + of_nat ?n) ?n x =
        (if in_range x dst ?n then m (src + (x - dst)) else m x)" for x
      using n64 by (intro copy_down_apply) auto
    then show ?thesis
      using True nz by (auto simp: memmove_def block_copy_def fun_eq_iff)
  next
    case False
    have "dst + of_nat j \<noteq> src + of_nat i" if "i < ?n" "j < i" for i j
    proof
      assume eq: "dst + of_nat j = src + of_nat i"
      then have pos: "unat dst + j = unat src + i"
        using range_offset_neq [OF bounds, of j i] that by simp
      then have "src < dst" using that by (simp add: word_less_nat_alt)
      moreover have "unat (src + of_nat ?n) = unat src + ?n"
        using assms(2) by (simp add: unat_word_ariths unat_of_nat)
      then have "dst < src + ucast n"
        unfolding cast word_less_nat_alt using pos that by linarith
      ultimately show False using False by simp
    qed
    then have "copy_up m dst src ?n x =
        (if in_range x dst ?n then m (src + (x - dst)) else m x)" for x
      using n64 by (intro copy_up_apply) auto
    then show ?thesis
      using False nz by (auto simp: memmove_def block_copy_def fun_eq_iff)
  qed
qed

section \<open>64-bit loads and stores\<close>

definition load64 :: "mem \<Rightarrow> u64 \<Rightarrow> u64" where
  "load64 m a =
     ucast (m a) OR push_bit 8 (ucast (m (a + 1))) OR push_bit 16 (ucast (m (a + 2)))
     OR push_bit 24 (ucast (m (a + 3))) OR push_bit 32 (ucast (m (a + 4)))
     OR push_bit 40 (ucast (m (a + 5))) OR push_bit 48 (ucast (m (a + 6)))
     OR push_bit 56 (ucast (m (a + 7)))"

definition store64 :: "mem \<Rightarrow> u64 \<Rightarrow> u64 \<Rightarrow> mem" where
  "store64 m a v =
     m(a := ucast v, a + 1 := ucast (drop_bit 8 v), a + 2 := ucast (drop_bit 16 v),
       a + 3 := ucast (drop_bit 24 v), a + 4 := ucast (drop_bit 32 v),
       a + 5 := ucast (drop_bit 40 v), a + 6 := ucast (drop_bit 48 v),
       a + 7 := ucast (drop_bit 56 v))"

lemma bit_byte_of:
  "bit (push_bit k (ucast (ucast (drop_bit k (v :: u64)) :: u8)) :: u64) n \<longleftrightarrow>
     k \<le> n \<and> n < k + 8 \<and> n < 64 \<and> bit v n"
  by (auto simp: bit_simps)

lemma load64_store64_same [mem_simps]: "load64 (store64 m a v) a = v"
proof (rule bit_word_eqI)
  fix n
  assume "n < LENGTH(64)"
  then have n: "n < 8 \<or> 8 \<le> n \<and> n < 16 \<or> 16 \<le> n \<and> n < 24 \<or> 24 \<le> n \<and> n < 32 \<or>
      32 \<le> n \<and> n < 40 \<or> 40 \<le> n \<and> n < 48 \<or> 48 \<le> n \<and> n < 56 \<or> 56 \<le> n \<and> n < 64"
    by (simp, linarith)
  have "load64 (store64 m a v) a =
      push_bit 0 (ucast (ucast (drop_bit 0 v) :: u8))
      OR push_bit 8 (ucast (ucast (drop_bit 8 v) :: u8))
      OR push_bit 16 (ucast (ucast (drop_bit 16 v) :: u8))
      OR push_bit 24 (ucast (ucast (drop_bit 24 v) :: u8))
      OR push_bit 32 (ucast (ucast (drop_bit 32 v) :: u8))
      OR push_bit 40 (ucast (ucast (drop_bit 40 v) :: u8))
      OR push_bit 48 (ucast (ucast (drop_bit 48 v) :: u8))
      OR push_bit 56 (ucast (ucast (drop_bit 56 v) :: u8))"
    by (simp add: load64_def store64_def)
  then have "bit (load64 (store64 m a v) a) n \<longleftrightarrow> bit v n \<and> n < 64 \<and>
      (n < 8 \<or> 8 \<le> n \<and> n < 16 \<or> 16 \<le> n \<and> n < 24 \<or> 24 \<le> n \<and> n < 32 \<or>
       32 \<le> n \<and> n < 40 \<or> 40 \<le> n \<and> n < 48 \<or> 48 \<le> n \<and> n < 56 \<or> 56 \<le> n \<and> n < 64)"
    by (simp only: bit_or_iff bit_byte_of) auto
  then show "bit (load64 (store64 m a v) a) n = bit v n"
    using n \<open>n < LENGTH(64)\<close> by simp
qed

definition aligned8 :: "u64 \<Rightarrow> bool" where "aligned8 a \<longleftrightarrow> unat a mod 8 = 0"

lemma aligned8E:
  assumes "aligned8 a"
  obtains k where "unat a = 8 * k"
  using assms unfolding aligned8_def by (metis mod_0_imp_dvd dvdE)

lemma aligned8_add:
  assumes "aligned8 a" and "i < 8"
  shows "unat (a + of_nat i) = unat a + i"
proof -
  obtain k where k: "unat a = 8 * k" using assms(1) by (rule aligned8E)
  have "unat a < 2 ^ 64" using unat_lt_two_power [of a] by simp
  then have "unat a + i < 2 ^ 64" unfolding k using assms(2) by simp
  then show ?thesis using assms(2) by (simp add: unat_word_ariths unat_of_nat)
qed

lemma aligned8_disjoint:
  assumes "aligned8 a" and "aligned8 b" and "a \<noteq> b" and "i < 8" and "j < 8"
  shows "a + of_nat i \<noteq> b + of_nat j"
proof
  assume "a + of_nat i = b + of_nat j"
  then have "unat (a + of_nat i) = unat (b + of_nat j)" by (rule arg_cong)
  then have eq: "unat a + i = unat b + j"
    using aligned8_add [OF assms(1,4)] aligned8_add [OF assms(2,5)] by linarith
  obtain k l where k: "unat a = 8 * k" and l: "unat b = 8 * l"
    using assms(1,2) by (auto elim!: aligned8E)
  have "(8 * k + i) div 8 = k" and "(8 * l + j) div 8 = l" using assms(4,5) by simp_all
  then have "k = l" using eq k l by metis
  with k l have "unat a = unat b" by simp
  with assms(3) show False using unsigned_word_eqI by blast
qed

lemma in_range_8: "in_range x a 8 \<longleftrightarrow> x \<in> {a, a+1, a+2, a+3, a+4, a+5, a+6, a+7}"
proof -
  have "in_range x a 8 \<longleftrightarrow> (\<exists>i<8. x = a + of_nat i)"
    by (rule in_range_iff_offset) simp
  also have "\<dots> \<longleftrightarrow> x \<in> {a, a+1, a+2, a+3, a+4, a+5, a+6, a+7}"
    by (simp add: numeral_eq_Suc less_Suc_eq ex_disj_distrib conj_disj_distribR disj_ac)
  finally show ?thesis .
qed

lemma store64_other: "\<not> in_range x a 8 \<Longrightarrow> store64 m a v x = m x"
  by (simp add: in_range_8 store64_def)

lemma load64_cong:
  assumes "\<And>x. in_range x a 8 \<Longrightarrow> m x = m' x"
  shows "load64 m a = load64 m' a"
  using assms by (simp add: in_range_8 load64_def)

lemma load64_store64_other [mem_simps]:
  assumes "aligned8 a" and "aligned8 b" and "a \<noteq> b"
  shows "load64 (store64 m a v) b = load64 m b"
proof (rule load64_cong)
  fix x assume "in_range x b 8"
  then obtain i where i: "i < 8" and x: "x = b + of_nat i"
    by (auto simp: in_range_iff_offset)
  have "\<not> in_range x a 8"
  proof
    assume "in_range x a 8"
    then obtain j where "j < 8" and "x = a + of_nat j" by (auto simp: in_range_iff_offset)
    with aligned8_disjoint [OF assms, of j i] i x show False by simp
  qed
  then show "store64 m a v x = m x" by (rule store64_other)
qed

section \<open>Pages\<close>

text \<open>\<^verbatim>\<open>PGSIZE\<close> of \<^verbatim>\<open>kernel/riscv.h\<close>.\<close>

definition PGSIZE :: u64 where
  "PGSIZE = 4096"

definition page_aligned :: "u64 \<Rightarrow> bool" where
  "page_aligned a \<longleftrightarrow> unat a mod 4096 = 0"

lemma page_aligned_mod: "page_aligned a \<longleftrightarrow> a mod PGSIZE = 0"
proof -
  have "unat (a mod 4096) = unat a mod 4096" by (simp add: unat_mod_distrib)
  then show ?thesis unfolding page_aligned_def PGSIZE_def by (metis unat_eq_0)
qed

lemma page_alignedE:
  assumes "page_aligned a"
  obtains k where "unat a = 4096 * k"
  using assms unfolding page_aligned_def by (metis mod_0_imp_dvd dvdE)

lemma page_aligned_add:
  assumes "page_aligned a" and "i < 4096"
  shows "unat (a + of_nat i) = unat a + i"
proof -
  obtain k where k: "unat a = 4096 * k" using assms(1) by (rule page_alignedE)
  have "unat a < 2 ^ 64" using unat_lt_two_power [of a] by simp
  then have "unat a + i < 2 ^ 64" unfolding k using assms(2) by simp
  then show ?thesis using assms(2) by (simp add: unat_word_ariths unat_of_nat)
qed

lemma in_page:
  assumes "page_aligned a"
  shows "in_range x a 4096 \<longleftrightarrow> unat x div 4096 = unat a div 4096"
proof
  assume "in_range x a 4096"
  then obtain i where i: "i < 4096" and "x = a + of_nat i"
    by (auto simp: in_range_iff_offset)
  then have "unat x = unat a + i" using page_aligned_add assms by simp
  moreover obtain k where "unat a = 4096 * k" using assms by (rule page_alignedE)
  ultimately show "unat x div 4096 = unat a div 4096" using i by simp
next
  assume eq: "unat x div 4096 = unat a div 4096"
  obtain k where k: "unat a = 4096 * k" using assms by (rule page_alignedE)
  then have "unat x div 4096 = k" using eq by simp
  then have "unat x = 4096 * k + unat x mod 4096" by (metis mult_div_mod_eq)
  then have le: "unat a \<le> unat x" and lt: "unat x - unat a < 4096"
    unfolding k by (simp_all add: less_diff_conv2)
  have "unat (x - a) = unat x - unat a"
    using le by (simp add: unat_sub word_le_nat_alt)
  then show "in_range x a 4096" using lt by (simp add: in_range_def)
qed

lemma page_aligned_inj:
  assumes "page_aligned a" and "page_aligned b" and "unat a div 4096 = unat b div 4096"
  shows "a = b"
  using assms by (metis page_alignedE nonzero_mult_div_cancel_left unsigned_word_eqI
      zero_neq_numeral)

lemma pages_disjoint:
  assumes "page_aligned a" and "page_aligned b" and "a \<noteq> b" and "in_range x a 4096"
  shows "\<not> in_range x b 4096"
  using assms page_aligned_inj [of a b] by (auto simp: in_page)

text \<open>The words of a page: the \<open>i\<close>th 8-byte slot of page \<open>p\<close>.\<close>

definition slot :: "u64 \<Rightarrow> nat \<Rightarrow> u64" where
  "slot p i = p + of_nat (8 * i)"

lemma unat_slot:
  "page_aligned p \<Longrightarrow> i < 512 \<Longrightarrow> unat (slot p i) = unat p + 8 * i"
  unfolding slot_def by (rule page_aligned_add) simp_all

lemma aligned8_slot: "page_aligned p \<Longrightarrow> i < 512 \<Longrightarrow> aligned8 (slot p i)"
  by (auto simp: aligned8_def unat_slot elim!: page_alignedE)

lemma aligned8_page: "page_aligned p \<Longrightarrow> aligned8 p"
  by (auto simp: aligned8_def elim!: page_alignedE)

lemma slot_in_page:
  assumes "page_aligned p" and "i < 512" and "in_range x (slot p i) 8"
  shows "in_range x p 4096"
proof -
  obtain k where "k < 8" and "x = slot p i + of_nat k"
    using assms(3) by (auto simp: in_range_iff_offset)
  then have "x = p + of_nat (8 * i + k)" and "8 * i + k < 4096"
    using assms(2) by (simp_all add: slot_def)
  then show ?thesis using in_range_offset [of "8 * i + k" 4096 p] by simp
qed

section \<open>Kernel buffers as byte lists\<close>

text \<open>
  A kernel-side buffer (a local variable, a \<^verbatim>\<open>struct buf\<close>'s data) is a list of bytes;
  \<open>write_bytes\<close> copies one into memory and \<open>read_bytes\<close> copies one out.
\<close>

fun write_bytes :: "mem \<Rightarrow> u64 \<Rightarrow> u8 list \<Rightarrow> mem" where
  "write_bytes m a [] = m"
| "write_bytes m a (b # bs) = write_bytes (m(a := b)) (a + 1) bs"

fun read_bytes :: "mem \<Rightarrow> u64 \<Rightarrow> nat \<Rightarrow> u8 list" where
  "read_bytes m a 0 = []"
| "read_bytes m a (Suc n) = m a # read_bytes m (a + 1) n"

lemma length_read_bytes [simp]: "length (read_bytes m a n) = n"
  by (induction n arbitrary: a) auto

lemma nth_read_bytes: "i < n \<Longrightarrow> read_bytes m a n ! i = m (a + of_nat i)"
proof (induction n arbitrary: a i)
  case 0
  then show ?case by simp
next
  case (Suc n)
  then show ?case by (cases i) (auto simp: ac_simps)
qed

lemma write_bytes_apply:
  "length bs \<le> 2 ^ 64 \<Longrightarrow>
   write_bytes m a bs x = (if in_range x a (length bs) then bs ! unat (x - a) else m x)"
proof (induction bs arbitrary: m a)
  case Nil
  then show ?case by (simp add: in_range_def)
next
  case (Cons b bs)
  have nr: "\<not> in_range a (a + 1) (length bs)"
    using Cons.prems by (simp add: in_range_def unsigned_minus_1_eq_mask mask_eq_exp_minus_1)
  have "write_bytes (m(a := b)) (a + 1) bs x =
      (if in_range x (a + 1) (length bs) then bs ! unat (x - (a + 1)) else (m(a := b)) x)"
    using Cons.prems by (intro Cons.IH) simp
  then show ?case
    using Cons.prems nr by (cases "x = a") (simp_all add: in_range_Suc unat_diff_Suc)
qed

lemma write_bytes_other:
  "length bs \<le> 2 ^ 64 \<Longrightarrow> \<not> in_range x a (length bs) \<Longrightarrow> write_bytes m a bs x = m x"
  by (simp add: write_bytes_apply)

lemma read_write_bytes [mem_simps]:
  assumes "length bs \<le> 2 ^ 64"
  shows "read_bytes (write_bytes m a bs) a (length bs) = bs"
proof (rule nth_equalityI)
  show "length (read_bytes (write_bytes m a bs) a (length bs)) = length bs" by simp
  fix i assume "i < length (read_bytes (write_bytes m a bs) a (length bs))"
  then have i: "i < length bs" by simp
  then have "unat (of_nat i :: u64) = i"
    using assms by (intro unat_of_nat_small) simp
  then show "read_bytes (write_bytes m a bs) a (length bs) ! i = bs ! i"
    using i assms by (simp add: nth_read_bytes write_bytes_apply)
qed

lemma read_bytes_cong:
  "n \<le> 2 ^ 64 \<Longrightarrow> (\<And>x. in_range x a n \<Longrightarrow> m x = m' x) \<Longrightarrow> read_bytes m a n = read_bytes m' a n"
  by (auto intro!: nth_equalityI simp: nth_read_bytes)

lemma read_bytes_append:
  "read_bytes m a (i + j) = read_bytes m a i @ read_bytes m (a + of_nat i) j"
  by (induction i arbitrary: a) (auto simp: ac_simps)

lemma write_bytes_append:
  "write_bytes m a (xs @ ys) = write_bytes (write_bytes m a xs) (a + of_nat (length xs)) ys"
  by (induction xs arbitrary: m a) (auto simp: ac_simps)

section \<open>C strings\<close>

text \<open>\<^verbatim>\<open>safestrcpy\<close> always leaves a terminated string and stays inside its buffer.\<close>

lemma safestrcpy_loop_terminated:
  "\<exists>k \<le> n. safestrcpy_loop m s t n (s + of_nat k) = 0"
proof (induction n arbitrary: m s t)
  case 0
  then show ?case by simp
next
  case (Suc n)
  show ?case
  proof (cases "m t = 0")
    case True
    then show ?thesis by (auto simp: Let_def intro!: exI [of _ 1])
  next
    case False
    obtain k where "k \<le> n" "safestrcpy_loop (m(s := m t)) (s + 1) (t + 1) n (s + 1 + of_nat k) = 0"
      using Suc.IH by blast
    then show ?thesis
      using False by (auto simp: Let_def ac_simps intro!: exI [of _ "Suc k"])
  qed
qed

lemma safestrcpy_loop_frame:
  "n < 2 ^ 64 \<Longrightarrow> \<not> in_range x s (Suc n) \<Longrightarrow> safestrcpy_loop m s t n x = m x"
proof (induction n arbitrary: m s t)
  case 0
  then show ?case by (auto simp: in_range_def)
next
  case (Suc n)
  then show ?case by (auto simp: Let_def in_range_Suc)
qed

lemma strlen_from_Some:
  "(\<And>i. n \<le> i \<Longrightarrow> i < k \<Longrightarrow> m (s + of_nat i) \<noteq> 0) \<Longrightarrow> m (s + of_nat k) = 0 \<Longrightarrow> n \<le> k \<Longrightarrow>
   strlen_from m s n = Some k"
proof (induction "k - n" arbitrary: n)
  case 0
  then show ?case by (subst strlen_from.simps) auto
next
  case (Suc d)
  then have "n < k" by simp
  then have "m (s + of_nat n) \<noteq> 0" using Suc.prems by simp
  moreover have "strlen_from m s (Suc n) = Some k"
    using Suc \<open>n < k\<close> by (intro Suc.hyps) auto
  ultimately show ?case by (subst strlen_from.simps) simp
qed

lemma strlen_string:
  "(\<And>i. i < k \<Longrightarrow> m (s + of_nat i) \<noteq> 0) \<Longrightarrow> m (s + of_nat k) = 0 \<Longrightarrow> strlen m s = Some k"
  unfolding strlen_def by (rule strlen_from_Some) auto

end
