(* ===== verification/Kalloc.thy ===== *)
theory Kalloc
  imports Memory
begin

text \<open>
  The physical page allocator, \<^verbatim>\<open>kernel/kalloc.c\<close>. The free list is a linked list
  threaded through the free pages themselves: the first eight bytes of a free page hold
  the address of the next one. The state keeps memory, the list head \<^verbatim>\<open>kmem.freelist\<close>
  and the linker symbol \<^verbatim>\<open>end\<close>. Each critical section under \<^verbatim>\<open>kmem.lock\<close>
  is one atomic transition.

  \<open>free_pages s ps\<close> relates a state to the abstract free list; the locale
  \<open>page_allocator\<close> states the contract the rest of the kernel relies on, and its
  interpretation discharges it for \<open>kalloc\<close> and \<open>kfree\<close>.
\<close>

section \<open>State and operations\<close>

definition KERNBASE :: u64 where
  "KERNBASE = 0x80000000"

definition PHYSTOP :: u64 where
  "PHYSTOP = KERNBASE + 128 * 1024 * 1024"

definition PGROUNDUP :: "u64 \<Rightarrow> u64" where
  "PGROUNDUP sz = (sz + PGSIZE - 1) AND NOT (PGSIZE - 1)"

definition PGROUNDDOWN :: "u64 \<Rightarrow> u64" where
  "PGROUNDDOWN a = a AND NOT (PGSIZE - 1)"

record kmem =
  memory :: mem
  freelist :: u64
  kend :: u64

definition kfree :: "u64 \<Rightarrow> 'z kmem_scheme \<Rightarrow> (unit, 'z kmem_scheme) outcome" where
  "kfree pa s =
     (if pa mod PGSIZE \<noteq> 0 \<or> pa < kend s \<or> pa \<ge> PHYSTOP then Panic ''kfree''
      else
        let m = memset (memory s) pa 1 4096;
            m = store64 m pa (freelist s)
        in Ok () (s\<lparr>memory := m, freelist := pa\<rparr>))"

definition kalloc :: "'z kmem_scheme \<Rightarrow> (u64, 'z kmem_scheme) outcome" where
  "kalloc s =
     (let r = freelist s;
          s = (if r \<noteq> 0 then s\<lparr>freelist := load64 (memory s) r\<rparr> else s);
          s = (if r \<noteq> 0 then s\<lparr>memory := memset (memory s) r 5 4096\<rparr> else s)
      in Ok r s)"

lemma kfree_OkD: "kfree p s = Ok x t \<Longrightarrow> p < PHYSTOP"
  by (auto simp: kfree_def split: if_splits)

function freerange_loop ::
  "u64 \<Rightarrow> u64 \<Rightarrow> 'z kmem_scheme \<Rightarrow> (unit, 'z kmem_scheme) outcome" where
  "freerange_loop p pa_end s =
     (if p + PGSIZE \<le> pa_end
      then obind (kfree p s) (\<lambda>_ s. freerange_loop (p + PGSIZE) pa_end s)
      else Ok () s)"
  by pat_completeness auto
termination
proof (relation "measure (\<lambda>(p, e, s). unat PHYSTOP - unat p)")
  fix p e :: u64 and s :: "'z kmem_scheme" and x t
  assume "kfree p s = Ok x t"
  then have "p < PHYSTOP" by (rule kfree_OkD)
  then have "unat p < 0x88000000" by (simp add: PHYSTOP_def KERNBASE_def word_less_nat_alt)
  then have "unat (p + PGSIZE) = unat p + 4096"
    by (simp add: PGSIZE_def unat_word_ariths)
  then show "((p + PGSIZE, e, t), p, e, s) \<in> measure (\<lambda>(p, e, s). unat PHYSTOP - unat p)"
    using \<open>p < PHYSTOP\<close> by (simp add: word_less_nat_alt)
qed simp

declare freerange_loop.simps [simp del]

definition freerange :: "u64 \<Rightarrow> u64 \<Rightarrow> 'z kmem_scheme \<Rightarrow> (unit, 'z kmem_scheme) outcome" where
  "freerange pa_start pa_end s = freerange_loop (PGROUNDUP pa_start) pa_end s"

definition kinit :: "'z kmem_scheme \<Rightarrow> (unit, 'z kmem_scheme) outcome" where
  "kinit s = freerange (kend s) PHYSTOP s"

section \<open>Rounding to pages\<close>

lemma and_not_page_mask: "a AND NOT (PGSIZE - 1) = push_bit 12 (drop_bit 12 a)"
proof -
  have "PGSIZE - 1 = mask 12" by (simp add: PGSIZE_def mask_eq_exp_minus_1)
  then show ?thesis by (auto simp: bit_eq_iff bit_simps)
qed

lemma unat_push_drop12: "unat (push_bit 12 (drop_bit 12 (a :: u64))) = unat a div 4096 * 4096"
proof -
  have "unat a div 4096 * 4096 \<le> unat a" by simp
  also have "\<dots> < 2 ^ 64" using unat_lt_two_power [of a] by simp
  finally have "unat a div 4096 * 4096 < 2 ^ 64" .
  then show ?thesis
    by (simp add: push_bit_eq_mult unat_word_ariths drop_bit_eq_div unat_div_distrib)
qed

lemma unat_PGROUNDDOWN: "unat (PGROUNDDOWN a) = unat a div 4096 * 4096"
  unfolding PGROUNDDOWN_def and_not_page_mask by (rule unat_push_drop12)

lemma unat_PGROUNDUP:
  assumes "unat sz + 4095 < 2 ^ 64"
  shows "unat (PGROUNDUP sz) = (unat sz + 4095) div 4096 * 4096"
proof -
  have a: "sz + PGSIZE - 1 = sz + 4095" by (simp add: PGSIZE_def)
  have b: "unat (sz + 4095) = unat sz + 4095"
    using assms by (simp add: unat_word_ariths)
  show ?thesis
    unfolding PGROUNDUP_def and_not_page_mask unat_push_drop12 a b ..
qed

lemma page_aligned_PGROUNDDOWN [simp]: "page_aligned (PGROUNDDOWN a)"
  by (simp add: page_aligned_def unat_PGROUNDDOWN)

lemma page_aligned_PGROUNDUP [simp]: "page_aligned (PGROUNDUP a)"
  unfolding page_aligned_def PGROUNDUP_def and_not_page_mask by (simp add: unat_push_drop12)

section \<open>The abstract free list\<close>

text \<open>
  The linker places \<^verbatim>\<open>end\<close> above the kernel image, inside RAM.
\<close>

definition kend_ok :: "'z kmem_scheme \<Rightarrow> bool" where
  "kend_ok s \<longleftrightarrow> KERNBASE \<le> kend s \<and> kend s \<le> PHYSTOP"

definition kpage :: "'z kmem_scheme \<Rightarrow> u64 \<Rightarrow> bool" where
  "kpage s p \<longleftrightarrow> page_aligned p \<and> kend s \<le> p \<and> p < PHYSTOP"

fun chain :: "mem \<Rightarrow> u64 \<Rightarrow> u64 list \<Rightarrow> bool" where
  "chain m p [] \<longleftrightarrow> p = 0"
| "chain m p (a # as) \<longleftrightarrow> p = a \<and> a \<noteq> 0 \<and> chain m (load64 m a) as"

definition free_pages :: "'z kmem_scheme \<Rightarrow> u64 list \<Rightarrow> bool" where
  "free_pages s ps \<longleftrightarrow>
     kend_ok s \<and> chain (memory s) (freelist s) ps \<and> distinct ps \<and> (\<forall>p \<in> set ps. kpage s p)"

definition same_outside :: "u64 \<Rightarrow> mem \<Rightarrow> mem \<Rightarrow> bool" where
  "same_outside p m m' \<longleftrightarrow> (\<forall>x. \<not> in_range x p 4096 \<longrightarrow> m' x = m x)"

lemma kpage_aligned [simp]: "kpage s p \<Longrightarrow> page_aligned p"
  by (simp add: kpage_def)

lemma kpage_nonzero: "kend_ok s \<Longrightarrow> kpage s p \<Longrightarrow> p \<noteq> 0"
  by (auto simp: kend_ok_def kpage_def KERNBASE_def)

lemma chain_cong:
  "(\<And>a x. a \<in> set as \<Longrightarrow> in_range x a 4096 \<Longrightarrow> m' x = m x) \<Longrightarrow>
   chain m' p as = chain m p as"
proof (induction as arbitrary: p)
  case Nil
  then show ?case by simp
next
  case (Cons a as)
  have "in_range x a 8 \<Longrightarrow> in_range x a 4096" for x
    by (simp add: in_range_def)
  then have "load64 m' a = load64 m a"
    using Cons.prems by (intro load64_cong) (meson list.set_intros(1))
  moreover have "chain m' q as = chain m q as" for q
    using Cons.prems by (intro Cons.IH) (meson list.set_intros(2))
  ultimately show ?case by simp
qed

lemma chain_same_outside:
  assumes "same_outside p m m'" and "page_aligned p" and "p \<notin> set as"
    and "\<forall>a \<in> set as. page_aligned a"
  shows "chain m' h as = chain m h as"
proof (rule chain_cong)
  fix a x assume "a \<in> set as" and "in_range x a 4096"
  then have "\<not> in_range x p 4096"
    using assms by (metis pages_disjoint)
  then show "m' x = m x" using assms(1) by (simp add: same_outside_def)
qed

lemma chain_det: "chain m p as \<Longrightarrow> chain m p bs \<Longrightarrow> as = bs"
proof (induction as arbitrary: p bs)
  case Nil
  then show ?case by (cases bs) auto
next
  case (Cons a as)
  then show ?case by (cases bs) auto
qed

lemma free_pages_det: "free_pages s ps \<Longrightarrow> free_pages s qs \<Longrightarrow> ps = qs"
  by (auto simp: free_pages_def intro: chain_det)

lemma same_outside_memset: "same_outside p m (memset m p c 4096)"
  by (simp add: same_outside_def memset_apply)

lemma same_outside_store64: "same_outside p m (store64 m p v)"
  by (auto simp: same_outside_def in_range_def intro!: store64_other)

lemma same_outside_trans:
  "same_outside p m m' \<Longrightarrow> same_outside p m' m'' \<Longrightarrow> same_outside p m m''"
  by (simp add: same_outside_def)

section \<open>The allocator refines a stack of pages\<close>

lemma kalloc_empty:
  "free_pages s [] \<Longrightarrow> kalloc s = Ok 0 s"
  by (simp add: free_pages_def kalloc_def)

lemma kalloc_cons:
  assumes "free_pages s (p # ps)"
  obtains t where "kalloc s = Ok p t" and "free_pages t ps"
    and "t = s\<lparr>freelist := freelist t, memory := memory t\<rparr>"
    and "memory t = memset (memory s) p 5 4096"
proof -
  let ?t = "s\<lparr>freelist := load64 (memory s) p, memory := memset (memory s) p 5 4096\<rparr>"
  have fl: "freelist s = p" "p \<noteq> 0" and ch: "chain (memory s) (load64 (memory s) p) ps"
    and al: "page_aligned p" "\<forall>a \<in> set ps. page_aligned a" and nin: "p \<notin> set ps"
    using assms by (auto simp: free_pages_def)
  have "kalloc s = Ok p ?t" using fl by (simp add: kalloc_def)
  moreover have "chain (memset (memory s) p 5 4096) (load64 (memory s) p) ps"
    using chain_same_outside [OF same_outside_memset al(1) nin al(2)] ch by simp
  then have "free_pages ?t ps"
    using assms by (auto simp: free_pages_def kend_ok_def kpage_def)
  ultimately show ?thesis by (intro that) auto
qed

lemma kfree_ok:
  assumes "free_pages s ps" and "kpage s p" and "p \<notin> set ps"
  obtains t where "kfree p s = Ok () t" and "free_pages t (p # ps)"
    and "t = s\<lparr>freelist := freelist t, memory := memory t\<rparr>"
    and "same_outside p (memory s) (memory t)"
proof -
  let ?m = "store64 (memset (memory s) p 1 4096) p (freelist s)"
  let ?t = "s\<lparr>memory := ?m, freelist := p\<rparr>"
  have so: "same_outside p (memory s) ?m"
    by (rule same_outside_trans [OF same_outside_memset same_outside_store64])
  have "kfree p s = Ok () ?t"
    using assms(2) by (auto simp: kfree_def kpage_def simp flip: page_aligned_mod)
  moreover have "\<forall>a \<in> set ps. page_aligned a" using assms(1) by (auto simp: free_pages_def)
  then have "chain ?m (freelist s) ps"
    using chain_same_outside [OF so] assms by (auto simp: free_pages_def)
  then have "free_pages ?t (p # ps)"
    using assms kpage_nonzero [of s p]
    by (auto simp: free_pages_def kend_ok_def kpage_def load64_store64_same)
  ultimately show ?thesis using so by (intro that) auto
qed

lemma kfree_invalid: "\<not> kpage s p \<Longrightarrow> kfree p s = Panic ''kfree''"
  by (auto simp: kfree_def kpage_def simp flip: page_aligned_mod)

section \<open>The interface the rest of the kernel relies on\<close>

text \<open>
  What a client of the allocator may assume: the free pages form a stack, an allocation
  pops it and writes only the page it returns, a free of a usable page that is not
  already free pushes it and writes only that page.
\<close>

locale page_allocator =
  fixes alloc :: "'s \<Rightarrow> (u64, 's) outcome"
    and free :: "u64 \<Rightarrow> 's \<Rightarrow> (unit, 's) outcome"
    and free_rel :: "'s \<Rightarrow> u64 list \<Rightarrow> bool"
    and usable :: "'s \<Rightarrow> u64 \<Rightarrow> bool"
    and mem_of :: "'s \<Rightarrow> mem"
  assumes alloc_Nil: "free_rel s [] \<Longrightarrow> alloc s = Ok 0 s"
    and alloc_Cons: "free_rel s (p # ps) \<Longrightarrow>
      \<exists>t. alloc s = Ok p t \<and> free_rel t ps \<and> usable t = usable s \<and>
          same_outside p (mem_of s) (mem_of t)"
    and free_Cons: "free_rel s ps \<Longrightarrow> usable s p \<Longrightarrow> p \<notin> set ps \<Longrightarrow>
      \<exists>t. free p s = Ok () t \<and> free_rel t (p # ps) \<and> usable t = usable s \<and>
          same_outside p (mem_of s) (mem_of t)"
    and rel_distinct: "free_rel s ps \<Longrightarrow> distinct ps"
    and rel_usable: "free_rel s ps \<Longrightarrow> p \<in> set ps \<Longrightarrow> usable s p \<and> p \<noteq> 0"
    and usable_aligned: "usable s p \<Longrightarrow> page_aligned p"
begin

lemma alloc_returns: "free_rel s ps \<Longrightarrow> \<exists>p t. alloc s = Ok p t"
  using alloc_Nil alloc_Cons by (cases ps) blast+

lemma alloc_zero_iff: "free_rel s ps \<Longrightarrow> alloc s = Ok p t \<Longrightarrow> p = 0 \<longleftrightarrow> ps = []"
  using alloc_Nil alloc_Cons rel_usable by (cases ps) force+

lemma alloc_fresh:
  assumes "free_rel s ps" and "alloc s = Ok p t" and "p \<noteq> 0"
  obtains qs where "ps = p # qs" and "free_rel t qs" and "p \<notin> set qs" and "usable s p"
    and "usable t = usable s" and "same_outside p (mem_of s) (mem_of t)"
proof (cases ps)
  case Nil
  then show ?thesis using assms alloc_Nil by force
next
  case (Cons a qs)
  then show ?thesis
    using assms alloc_Cons [of s a qs] rel_distinct [of s ps] rel_usable [of s ps a]
    by (intro that [of qs]) auto
qed

lemma alloc_then_free:
  assumes "free_rel s ps" and "alloc s = Ok p t" and "p \<noteq> 0"
  shows "\<exists>u. free p t = Ok () u \<and> free_rel u ps \<and> same_outside p (mem_of s) (mem_of u)"
proof -
  obtain qs where q: "ps = p # qs" "free_rel t qs" "p \<notin> set qs" "usable s p"
      "usable t = usable s" "same_outside p (mem_of s) (mem_of t)"
    using assms by (rule alloc_fresh)
  obtain u where "free p t = Ok () u" "free_rel u (p # qs)" "same_outside p (mem_of t) (mem_of u)"
    using free_Cons [OF q(2) _ q(3)] q(4,5) by auto
  then show ?thesis using q same_outside_trans by blast
qed

lemma alloc_twice_distinct:
  assumes "free_rel s ps" and "alloc s = Ok p t" and "alloc t = Ok q u" and "q \<noteq> 0"
  shows "p \<noteq> q"
proof (cases "p = 0")
  case True
  then show ?thesis using assms(4) by simp
next
  case False
  then obtain qs where "free_rel t qs" "p \<notin> set qs"
    using assms(1,2) by (metis alloc_fresh)
  moreover then have "q \<in> set qs" using assms(3,4) by (metis alloc_fresh list.set_intros(1))
  ultimately show ?thesis by auto
qed

end

lemma kpage_update [frame_simps]:
  "kpage (s\<lparr>memory := m\<rparr>) = kpage s" "kpage (s\<lparr>freelist := f\<rparr>) = kpage s"
  by (simp_all add: kpage_def fun_eq_iff)

interpretation ka: page_allocator kalloc kfree free_pages kpage memory
proof unfold_locales
  fix s :: "'a kmem_scheme" and p ps
  show "kalloc s = Ok 0 s" if "free_pages s []"
    using that by (rule kalloc_empty)
  show "\<exists>t. kalloc s = Ok p t \<and> free_pages t ps \<and> kpage t = kpage s \<and>
      same_outside p (memory s) (memory t)" if "free_pages s (p # ps)"
    using that by (rule kalloc_cons) (metis kpage_update same_outside_memset)
  show "\<exists>t. kfree p s = Ok () t \<and> free_pages t (p # ps) \<and> kpage t = kpage s \<and>
      same_outside p (memory s) (memory t)" if "free_pages s ps" "kpage s p" "p \<notin> set ps"
    using that by (rule kfree_ok) (metis kpage_update)
  show "distinct ps" if "free_pages s ps"
    using that by (simp add: free_pages_def)
  show "kpage s p \<and> p \<noteq> 0" if "free_pages s ps" "p \<in> set ps"
    using that kpage_nonzero by (auto simp: free_pages_def)
  show "page_aligned p" if "kpage s p"
    using that by simp
qed

section \<open>Booting the allocator\<close>

lemma unat_PHYSTOP: "unat PHYSTOP = 0x88000000"
  by (simp add: PHYSTOP_def KERNBASE_def)

lemma freerange_loop_frees:
  assumes "free_pages s ps" and "page_aligned p" and "kend s \<le> p" and "p \<le> PHYSTOP"
    and "\<forall>q \<in> set ps. q < p" and "sorted_wrt (>) ps"
  shows "\<exists>t qs. freerange_loop p PHYSTOP s = Ok () t \<and> free_pages t qs \<and> sorted_wrt (>) qs \<and>
           set qs = set ps \<union> {q. page_aligned q \<and> p \<le> q \<and> q < PHYSTOP} \<and>
           (\<forall>x. x < p \<longrightarrow> memory t x = memory s x)"
  using assms
proof (induction p PHYSTOP s arbitrary: ps rule: freerange_loop.induct)
  case (1 p s)
  obtain k where k: "unat p = 4096 * k" using "1.prems"(2) by (rule page_alignedE)
  have bound: "unat p \<le> 0x88000000"
    using "1.prems"(4) by (simp add: word_le_nat_alt unat_PHYSTOP)
  then have up: "unat (p + PGSIZE) = unat p + 4096"
    by (simp add: PGSIZE_def unat_word_ariths)
  show ?case
  proof (cases "p < PHYSTOP")
    case False
    then have "p = PHYSTOP" using "1.prems"(4) by simp
    then have "\<not> p + PGSIZE \<le> PHYSTOP" by (simp add: PGSIZE_def PHYSTOP_def KERNBASE_def)
    moreover have "{q. page_aligned q \<and> p \<le> q \<and> q < PHYSTOP} = {}"
      using False by auto
    ultimately show ?thesis
      using "1.prems"(1,6) by (subst freerange_loop.simps) (auto intro!: exI [of _ ps])
  next
    case True
    then have "4096 * k < 0x88000000" using k by (simp add: word_less_nat_alt unat_PHYSTOP)
    then have "k < 0x88000" by simp
    then have le: "p + PGSIZE \<le> PHYSTOP"
      unfolding word_le_nat_alt up k unat_PHYSTOP by simp
    have nin: "p \<notin> set ps" using "1.prems"(5) by auto
    have kp: "kpage s p" using True "1.prems" by (simp add: kpage_def)
    obtain t where t: "kfree p s = Ok () t" "free_pages t (p # ps)"
        "t = s\<lparr>freelist := freelist t, memory := memory t\<rparr>"
        "same_outside p (memory s) (memory t)"
      using kfree_ok [OF "1.prems"(1) kp nin] by blast
    have kt: "kend t = kend s" by (subst t(3)) simp
    have lt: "p < p + PGSIZE" unfolding word_less_nat_alt up by simp
    have al: "page_aligned (p + PGSIZE)" unfolding page_aligned_def up k by simp
    have "\<exists>u qs. freerange_loop (p + PGSIZE) PHYSTOP t = Ok () u \<and> free_pages u qs \<and> sorted_wrt (>) qs \<and>
        set qs = set (p # ps) \<union> {q. page_aligned q \<and> p + PGSIZE \<le> q \<and> q < PHYSTOP} \<and>
        (\<forall>x. x < p + PGSIZE \<longrightarrow> memory u x = memory t x)"
      using "1.prems" le lt kt by (intro "1.hyps" [OF le t(1) t(2) al]) auto
    then obtain u qs where u: "freerange_loop (p + PGSIZE) PHYSTOP t = Ok () u"
        "free_pages u qs" "sorted_wrt (>) qs"
        "set qs = set (p # ps) \<union> {q. page_aligned q \<and> p + PGSIZE \<le> q \<and> q < PHYSTOP}"
        "\<forall>x. x < p + PGSIZE \<longrightarrow> memory u x = memory t x"
      by blast
    have next_page: "q = p \<or> p + PGSIZE \<le> q" if al': "page_aligned q" and le': "p \<le> q" for q
    proof -
      obtain l where l: "unat q = 4096 * l" using al' by (rule page_alignedE)
      have "k \<le> l" using le' k l by (simp add: word_le_nat_alt)
      then consider "k = l" | "k + 1 \<le> l" by linarith
      then show ?thesis
      proof cases
        case 1
        then show ?thesis using k l unsigned_word_eqI by metis
      next
        case 2
        then show ?thesis unfolding word_le_nat_alt up k l by simp
      qed
    qed
    have "set qs = set ps \<union> {q. page_aligned q \<and> p \<le> q \<and> q < PHYSTOP}"
      using u(4) next_page lt True "1.prems"(2) by auto
    moreover have "memory u x = memory s x" if "x < p" for x
    proof -
      have "\<not> in_range x p 4096"
        unfolding in_page [OF "1.prems"(2)] using that k by (simp add: word_less_nat_alt)
      then show ?thesis using u(5) t(4) that lt by (simp add: same_outside_def)
    qed
    ultimately show ?thesis
      using u(1-3) t(1) le by (subst freerange_loop.simps) auto
  qed
qed

text \<open>C20. Booting the allocator (\<^verbatim>\<open>kinit\<close>) puts every whole page between the end of the kernel
  image and the top of RAM on the free list, each exactly once and the highest first, and
  writes nothing below \<^verbatim>\<open>end\<close>.
\<close>

theorem kinit_frees_all_pages:
  assumes "kend_ok s" and "freelist s = 0"
  shows "\<exists>t ps. kinit s = Ok () t \<and> free_pages t ps \<and> distinct ps \<and> sorted_wrt (>) ps \<and>
           set ps = {p. kpage s p} \<and> (\<forall>x. x < kend s \<longrightarrow> memory t x = memory s x)"
proof -
  have e: "unat (kend s) \<le> 0x88000000"
    using assms(1) by (simp add: kend_ok_def word_le_nat_alt unat_PHYSTOP)
  then have up: "unat (PGROUNDUP (kend s)) = (unat (kend s) + 4095) div 4096 * 4096"
    by (intro unat_PGROUNDUP) simp
  have ge: "kend s \<le> PGROUNDUP (kend s)" and le: "PGROUNDUP (kend s) \<le> PHYSTOP"
    unfolding word_le_nat_alt up unat_PHYSTOP using e by simp_all
  have first: "PGROUNDUP (kend s) \<le> q" if al: "page_aligned q" and "kend s \<le> q" for q
  proof -
    obtain l where l: "unat q = 4096 * l" using al by (rule page_alignedE)
    then have "(unat (kend s) + 4095) div 4096 \<le> l"
      using \<open>kend s \<le> q\<close> by (simp add: word_le_nat_alt)
    then show ?thesis unfolding word_le_nat_alt up l by simp
  qed
  have "free_pages s []" using assms by (simp add: free_pages_def)
  from freerange_loop_frees [OF this page_aligned_PGROUNDUP ge le]
  obtain t qs where t: "freerange_loop (PGROUNDUP (kend s)) PHYSTOP s = Ok () t" "free_pages t qs" "sorted_wrt (>) qs"
      "set qs = {q. page_aligned q \<and> PGROUNDUP (kend s) \<le> q \<and> q < PHYSTOP}"
      "\<forall>x. x < PGROUNDUP (kend s) \<longrightarrow> memory t x = memory s x"
    by auto
  have "set qs = {p. kpage s p}"
    using t(4) first ge by (auto simp: kpage_def)
  moreover have "\<forall>x. x < kend s \<longrightarrow> memory t x = memory s x"
    using t(5) ge by auto
  ultimately show ?thesis
    using t(1-3) ka.rel_distinct [OF t(2)] by (auto simp: kinit_def freerange_def)
qed

theorem kinit_frees_all_pages_witness:
  "let s = \<lparr>memory = \<lambda>_. 0, freelist = 0, kend = 0x87FFD123\<rparr> in
     kend_ok s \<and> freelist s = 0 \<and>
     (\<exists>t ps. kinit s = Ok () t \<and> free_pages t ps \<and> distinct ps \<and> sorted_wrt (>) ps \<and>
        set ps = {p. kpage s p} \<and> (\<forall>x. x < kend s \<longrightarrow> memory t x = memory s x))"
proof -
  let ?s = "\<lparr>memory = \<lambda>_. 0, freelist = 0, kend = 0x87FFD123\<rparr>"
  have "kend_ok ?s" and "freelist ?s = 0"
    by (simp_all add: kend_ok_def KERNBASE_def PHYSTOP_def)
  then show ?thesis using kinit_frees_all_pages [of ?s] unfolding Let_def by blast
qed

end
