(* ===== verification/Vm.thy ===== *)
theory Vm
  imports Kalloc
begin

text \<open>
  Sv39 page tables, \<^verbatim>\<open>kernel/vm.c\<close>, on byte memory and the page allocator, with
  the address-space macros of \<^verbatim>\<open>kernel/riscv.h\<close> and \<^verbatim>\<open>kernel/memlayout.h\<close>.
  A page table is the address of its root page; an entry is a 64-bit load or store. A
  pointer result 0 is the address 0; an integer result is an \<open>int\<close>. Kernel-side
  buffers handed to the copy routines are byte lists.
\<close>

section \<open>Macros\<close>

definition PTE_V :: u64 where "PTE_V = 1"
definition PTE_R :: u64 where "PTE_R = 2"
definition PTE_W :: u64 where "PTE_W = 4"
definition PTE_X :: u64 where "PTE_X = 8"
definition PTE_U :: u64 where "PTE_U = 16"

definition PA2PTE :: "u64 \<Rightarrow> u64" where
  "PA2PTE pa = push_bit 10 (drop_bit 12 pa)"

definition PTE2PA :: "u64 \<Rightarrow> u64" where
  "PTE2PA pte = push_bit 12 (drop_bit 10 pte)"

definition PTE_FLAGS :: "u64 \<Rightarrow> u64" where
  "PTE_FLAGS pte = pte AND 0x3FF"

definition PX :: "nat \<Rightarrow> u64 \<Rightarrow> u64" where
  "PX level va = drop_bit (12 + 9 * level) va AND 0x1FF"

definition MAXVA :: u64 where
  "MAXVA = push_bit (9 + 9 + 9 + 12 - 1) 1"

definition TRAMPOLINE :: u64 where
  "TRAMPOLINE = MAXVA - PGSIZE"

definition TRAPFRAME :: u64 where
  "TRAPFRAME = TRAMPOLINE - PGSIZE"

definition KSTACK :: "nat \<Rightarrow> u64" where
  "KSTACK p = TRAMPOLINE - (of_nat p + 1) * 2 * PGSIZE"

definition MAKE_SATP :: "u64 \<Rightarrow> u64" where
  "MAKE_SATP pagetable = push_bit 60 8 OR drop_bit 12 pagetable"

section \<open>Walking and mapping\<close>

fun walk_loop ::
  "nat \<Rightarrow> u64 \<Rightarrow> u64 \<Rightarrow> bool \<Rightarrow> 'z kmem_scheme \<Rightarrow> (u64, 'z kmem_scheme) outcome" where
  "walk_loop 0 pagetable va alloc s = Ok (slot pagetable (unat (PX 0 va))) s"
| "walk_loop (Suc level) pagetable va alloc s =
     (let pte = slot pagetable (unat (PX (Suc level) va)); v = load64 (memory s) pte
      in if v AND PTE_V \<noteq> 0 then walk_loop level (PTE2PA v) va alloc s
         else if \<not> alloc then Ok 0 s
         else obind (kalloc s) (\<lambda>pg s.
           if pg = 0 then Ok 0 s
           else
             let m = memset (memory s) pg 0 4096;
                 m = store64 m pte (PA2PTE pg OR PTE_V)
             in walk_loop level pg va alloc (s\<lparr>memory := m\<rparr>)))"

definition walk ::
  "u64 \<Rightarrow> u64 \<Rightarrow> bool \<Rightarrow> 'z kmem_scheme \<Rightarrow> (u64, 'z kmem_scheme) outcome" where
  "walk pagetable va alloc s =
     (if va \<ge> MAXVA then Panic ''walk'' else walk_loop 2 pagetable va alloc s)"

definition walkaddr :: "u64 \<Rightarrow> u64 \<Rightarrow> 'z kmem_scheme \<Rightarrow> (u64, 'z kmem_scheme) outcome" where
  "walkaddr pagetable va s =
     (if va \<ge> MAXVA then Ok 0 s
      else obind (walk pagetable va False s) (\<lambda>pte s.
        if pte = 0 then Ok 0 s
        else if load64 (memory s) pte AND PTE_V = 0 then Ok 0 s
        else if load64 (memory s) pte AND PTE_U = 0 then Ok 0 s
        else Ok (PTE2PA (load64 (memory s) pte)) s))"

lemma walk_Ok_bound: "walk pagetable va alloc s = Ok x t \<Longrightarrow> va < MAXVA"
  by (auto simp: walk_def split: if_splits)

lemma unat_MAXVA: "unat MAXVA = 2 ^ 38"
  by (simp add: MAXVA_def)

lemma unat_next_page: "va < MAXVA \<Longrightarrow> unat (va + PGSIZE) = unat va + 4096"
  by (simp add: word_less_nat_alt unat_MAXVA PGSIZE_def unat_word_ariths)

lemma next_page_measure:
  "va < MAXVA \<Longrightarrow> unat MAXVA - unat (va + PGSIZE) < unat MAXVA - unat va"
  by (simp add: unat_next_page) (simp add: word_less_nat_alt)

function mappages_loop ::
  "u64 \<Rightarrow> u64 \<Rightarrow> u64 \<Rightarrow> u64 \<Rightarrow> u64 \<Rightarrow> 'z kmem_scheme \<Rightarrow> (int, 'z kmem_scheme) outcome" where
  "mappages_loop pagetable a final pa perm s =
     obind (walk pagetable a True s) (\<lambda>pte s.
       if pte = 0 then Ok (-1) s
       else if load64 (memory s) pte AND PTE_V \<noteq> 0 then Panic ''mappages: remap''
       else
         let s = s\<lparr>memory := store64 (memory s) pte (PA2PTE pa OR perm OR PTE_V)\<rparr>
         in if a = final then Ok 0 s
            else mappages_loop pagetable (a + PGSIZE) final (pa + PGSIZE) perm s)"
  by pat_completeness auto
termination
  by (relation "measure (\<lambda>(pt, a, final, pa, perm, s). unat MAXVA - unat a)")
    (auto dest: walk_Ok_bound intro: next_page_measure)

declare mappages_loop.simps [simp del]

definition mappages ::
  "u64 \<Rightarrow> u64 \<Rightarrow> u64 \<Rightarrow> u64 \<Rightarrow> u64 \<Rightarrow> 'z kmem_scheme \<Rightarrow> (int, 'z kmem_scheme) outcome" where
  "mappages pagetable va sz pa perm s =
     (if va mod PGSIZE \<noteq> 0 then Panic ''mappages: va not aligned''
      else if sz mod PGSIZE \<noteq> 0 then Panic ''mappages: size not aligned''
      else if sz = 0 then Panic ''mappages: size''
      else mappages_loop pagetable va (va + sz - PGSIZE) pa perm s)"

definition kvmmap ::
  "u64 \<Rightarrow> u64 \<Rightarrow> u64 \<Rightarrow> u64 \<Rightarrow> u64 \<Rightarrow> 'z kmem_scheme \<Rightarrow> (unit, 'z kmem_scheme) outcome" where
  "kvmmap kpgtbl va pa sz perm s =
     obind (mappages kpgtbl va sz pa perm s) (\<lambda>r s.
       if r \<noteq> 0 then Panic ''kvmmap'' else Ok () s)"

section \<open>The kernel's own page table\<close>

text \<open>
  \<^verbatim>\<open>etext\<close> and \<^verbatim>\<open>trampoline\<close> are linker symbols, so the two routines take
  them as arguments. The stacks are those of the \<^verbatim>\<open>NPROC\<close> process slots.
\<close>

definition NPROC :: nat where "NPROC = 64"

fun proc_mapstacks_loop ::
  "nat list \<Rightarrow> u64 \<Rightarrow> 'z kmem_scheme \<Rightarrow> (unit, 'z kmem_scheme) outcome" where
  "proc_mapstacks_loop [] kpgtbl s = Ok () s"
| "proc_mapstacks_loop (p # ps) kpgtbl s =
     obind (kalloc s) (\<lambda>pa s.
       if pa = 0 then Panic ''kalloc''
       else obind (kvmmap kpgtbl (KSTACK p) pa PGSIZE (PTE_R OR PTE_W) s)
         (\<lambda>_ s. proc_mapstacks_loop ps kpgtbl s))"

definition proc_mapstacks :: "u64 \<Rightarrow> 'z kmem_scheme \<Rightarrow> (unit, 'z kmem_scheme) outcome" where
  "proc_mapstacks kpgtbl s = proc_mapstacks_loop [0..<NPROC] kpgtbl s"

definition UART0 :: u64 where "UART0 = 0x10000000"
definition VIRTIO0 :: u64 where "VIRTIO0 = 0x10001000"
definition PLIC :: u64 where "PLIC = 0x0c000000"

definition kvmmake ::
  "u64 \<Rightarrow> u64 \<Rightarrow> 'z kmem_scheme \<Rightarrow> (u64, 'z kmem_scheme) outcome" where
  "kvmmake etext trampoline s =
     obind (kalloc s) (\<lambda>kpgtbl s.
     let s = s\<lparr>memory := memset (memory s) kpgtbl 0 4096\<rparr> in
     obind (kvmmap kpgtbl UART0 UART0 PGSIZE (PTE_R OR PTE_W) s) (\<lambda>_ s.
     obind (kvmmap kpgtbl VIRTIO0 VIRTIO0 PGSIZE (PTE_R OR PTE_W) s) (\<lambda>_ s.
     obind (kvmmap kpgtbl PLIC PLIC 0x400000 (PTE_R OR PTE_W) s) (\<lambda>_ s.
     obind (kvmmap kpgtbl KERNBASE KERNBASE (etext - KERNBASE) (PTE_R OR PTE_X) s) (\<lambda>_ s.
     obind (kvmmap kpgtbl etext etext (PHYSTOP - etext) (PTE_R OR PTE_W) s) (\<lambda>_ s.
     obind (kvmmap kpgtbl TRAMPOLINE trampoline PGSIZE (PTE_R OR PTE_X) s) (\<lambda>_ s.
     obind (proc_mapstacks kpgtbl s) (\<lambda>_ s.
     Ok kpgtbl s))))))))"

section \<open>User address spaces\<close>

function uvmunmap_loop ::
  "u64 \<Rightarrow> u64 \<Rightarrow> u64 \<Rightarrow> bool \<Rightarrow> 'z kmem_scheme \<Rightarrow> (unit, 'z kmem_scheme) outcome" where
  "uvmunmap_loop pagetable a stop do_free s =
     (if a < stop
      then obind (walk pagetable a False s) (\<lambda>pte s.
        if pte = 0 then Panic ''uvmunmap: walk''
        else if load64 (memory s) pte AND PTE_V = 0 then Panic ''uvmunmap: not mapped''
        else if PTE_FLAGS (load64 (memory s) pte) = PTE_V then Panic ''uvmunmap: not a leaf''
        else
          obind (if do_free then kfree (PTE2PA (load64 (memory s) pte)) s else Ok () s) (\<lambda>_ s.
            uvmunmap_loop pagetable (a + PGSIZE) stop do_free
              (s\<lparr>memory := store64 (memory s) pte 0\<rparr>)))
      else Ok () s)"
  by pat_completeness auto
termination
  by (relation "measure (\<lambda>(pt, a, stop, f, s). unat MAXVA - unat a)")
    (auto dest: walk_Ok_bound intro: next_page_measure)

declare uvmunmap_loop.simps [simp del]

definition uvmunmap ::
  "u64 \<Rightarrow> u64 \<Rightarrow> u64 \<Rightarrow> bool \<Rightarrow> 'z kmem_scheme \<Rightarrow> (unit, 'z kmem_scheme) outcome" where
  "uvmunmap pagetable va npages do_free s =
     (if va mod PGSIZE \<noteq> 0 then Panic ''uvmunmap: not aligned''
      else uvmunmap_loop pagetable va (va + npages * PGSIZE) do_free s)"

definition uvmcreate :: "'z kmem_scheme \<Rightarrow> (u64, 'z kmem_scheme) outcome" where
  "uvmcreate s =
     obind (kalloc s) (\<lambda>pagetable s.
       if pagetable = 0 then Ok 0 s
       else Ok pagetable (s\<lparr>memory := memset (memory s) pagetable 0 4096\<rparr>))"

definition uvmfirst ::
  "u64 \<Rightarrow> u8 list \<Rightarrow> 'z kmem_scheme \<Rightarrow> (unit, 'z kmem_scheme) outcome" where
  "uvmfirst pagetable src s =
     (if length src \<ge> 4096 then Panic ''uvmfirst: more than a page''
      else obind (kalloc s) (\<lambda>mem s.
        let s = s\<lparr>memory := memset (memory s) mem 0 4096\<rparr> in
        obind (mappages pagetable 0 PGSIZE mem (PTE_W OR PTE_R OR PTE_X OR PTE_U) s) (\<lambda>_ s.
        Ok () (s\<lparr>memory := write_bytes (memory s) mem src\<rparr>))))"

text \<open>
  \<^verbatim>\<open>uvmdealloc\<close> counts pages in an \<^verbatim>\<open>int\<close>, which the call to
  \<^verbatim>\<open>uvmunmap\<close> widens again.
\<close>

definition uvmdealloc ::
  "u64 \<Rightarrow> u64 \<Rightarrow> u64 \<Rightarrow> 'z kmem_scheme \<Rightarrow> (u64, 'z kmem_scheme) outcome" where
  "uvmdealloc pagetable oldsz newsz s =
     (if newsz \<ge> oldsz then Ok oldsz s
      else if PGROUNDUP newsz < PGROUNDUP oldsz
      then
        let npages = ucast ((PGROUNDUP oldsz - PGROUNDUP newsz) div PGSIZE) :: u32
        in obind (uvmunmap pagetable (PGROUNDUP newsz) (scast npages) True s) (\<lambda>_ s.
             Ok newsz s)
      else Ok newsz s)"

lemma mappages_Ok_bound:
  "mappages pagetable a sz pa perm s = Ok r t \<Longrightarrow> a < MAXVA"
  by (auto simp: mappages_def mappages_loop.simps [of _ a] obind_eq_Ok
      dest!: walk_Ok_bound split: if_splits)

function uvmalloc_loop ::
  "u64 \<Rightarrow> u64 \<Rightarrow> u64 \<Rightarrow> u64 \<Rightarrow> u64 \<Rightarrow> 'z kmem_scheme \<Rightarrow> (u64, 'z kmem_scheme) outcome" where
  "uvmalloc_loop pagetable a oldsz newsz xperm s =
     (if a < newsz
      then obind (kalloc s) (\<lambda>mem s.
        if mem = 0
        then obind (uvmdealloc pagetable a oldsz s) (\<lambda>_ s. Ok 0 s)
        else
          let s = s\<lparr>memory := memset (memory s) mem 0 4096\<rparr> in
          obind (mappages pagetable a PGSIZE mem (PTE_R OR PTE_U OR xperm) s) (\<lambda>r s.
            if r \<noteq> 0
            then obind (kfree mem s) (\<lambda>_ s.
                 obind (uvmdealloc pagetable a oldsz s) (\<lambda>_ s. Ok 0 s))
            else uvmalloc_loop pagetable (a + PGSIZE) oldsz newsz xperm s))
      else Ok newsz s)"
  by pat_completeness auto
termination
  by (relation "measure (\<lambda>(pt, a, oldsz, newsz, x, s). unat MAXVA - unat a)")
    (auto dest: mappages_Ok_bound intro: next_page_measure)

declare uvmalloc_loop.simps [simp del]

definition uvmalloc ::
  "u64 \<Rightarrow> u64 \<Rightarrow> u64 \<Rightarrow> u64 \<Rightarrow> 'z kmem_scheme \<Rightarrow> (u64, 'z kmem_scheme) outcome" where
  "uvmalloc pagetable oldsz newsz xperm s =
     (if newsz < oldsz then Ok oldsz s
      else uvmalloc_loop pagetable (PGROUNDUP oldsz) (PGROUNDUP oldsz) newsz xperm s)"

text \<open>
  \<^verbatim>\<open>freewalk\<close> recurses on the child tables with no depth bound of its own; the
  first argument is fuel.
\<close>

fun freewalk_loop ::
  "(u64 \<Rightarrow> 'z kmem_scheme \<Rightarrow> (unit, 'z kmem_scheme) outcome) \<Rightarrow> u64 \<Rightarrow> nat list \<Rightarrow>
   'z kmem_scheme \<Rightarrow> (unit, 'z kmem_scheme) outcome" where
  "freewalk_loop free_child pagetable [] s = Ok () s"
| "freewalk_loop free_child pagetable (i # is) s =
     (let pte = load64 (memory s) (slot pagetable i)
      in if pte AND PTE_V \<noteq> 0 \<and> pte AND (PTE_R OR PTE_W OR PTE_X) = 0
         then obind (free_child (PTE2PA pte) s) (\<lambda>_ s.
           freewalk_loop free_child pagetable is
             (s\<lparr>memory := store64 (memory s) (slot pagetable i) 0\<rparr>))
         else if pte AND PTE_V \<noteq> 0 then Panic ''freewalk: leaf''
         else freewalk_loop free_child pagetable is s)"

fun freewalk :: "nat \<Rightarrow> u64 \<Rightarrow> 'z kmem_scheme \<Rightarrow> (unit, 'z kmem_scheme) outcome" where
  "freewalk 0 pagetable s = Diverges"
| "freewalk (Suc fuel) pagetable s =
     obind (freewalk_loop (freewalk fuel) pagetable [0..<512] s) (\<lambda>_ s. kfree pagetable s)"

definition uvmfree ::
  "nat \<Rightarrow> u64 \<Rightarrow> u64 \<Rightarrow> 'z kmem_scheme \<Rightarrow> (unit, 'z kmem_scheme) outcome" where
  "uvmfree fuel pagetable sz s =
     obind (if sz > 0 then uvmunmap pagetable 0 (PGROUNDUP sz div PGSIZE) True s else Ok () s)
       (\<lambda>_ s. freewalk fuel pagetable s)"

function uvmcopy_loop ::
  "u64 \<Rightarrow> u64 \<Rightarrow> u64 \<Rightarrow> u64 \<Rightarrow> 'z kmem_scheme \<Rightarrow> (int, 'z kmem_scheme) outcome" where
  "uvmcopy_loop old new i sz s =
     (if i < sz
      then obind (walk old i False s) (\<lambda>pte s.
        if pte = 0 then Panic ''uvmcopy: pte should exist''
        else if load64 (memory s) pte AND PTE_V = 0 then Panic ''uvmcopy: page not present''
        else
          let pa = PTE2PA (load64 (memory s) pte); flags = PTE_FLAGS (load64 (memory s) pte) in
          obind (kalloc s) (\<lambda>mem s.
            if mem = 0
            then obind (uvmunmap new 0 (i div PGSIZE) True s) (\<lambda>_ s. Ok (-1) s)
            else
              let s = s\<lparr>memory := memmove (memory s) mem pa 4096\<rparr> in
              obind (mappages new i PGSIZE mem flags s) (\<lambda>r s.
                if r \<noteq> 0
                then obind (kfree mem s) (\<lambda>_ s.
                     obind (uvmunmap new 0 (i div PGSIZE) True s) (\<lambda>_ s. Ok (-1) s))
                else uvmcopy_loop old new (i + PGSIZE) sz s)))
      else Ok 0 s)"
  by pat_completeness auto
termination
  by (relation "measure (\<lambda>(old, new, i, sz, s). unat MAXVA - unat i)")
    (auto dest: walk_Ok_bound intro: next_page_measure)

declare uvmcopy_loop.simps [simp del]

definition uvmcopy ::
  "u64 \<Rightarrow> u64 \<Rightarrow> u64 \<Rightarrow> 'z kmem_scheme \<Rightarrow> (int, 'z kmem_scheme) outcome" where
  "uvmcopy old new sz s = uvmcopy_loop old new 0 sz s"

definition uvmclear :: "u64 \<Rightarrow> u64 \<Rightarrow> 'z kmem_scheme \<Rightarrow> (unit, 'z kmem_scheme) outcome" where
  "uvmclear pagetable va s =
     obind (walk pagetable va False s) (\<lambda>pte s.
       if pte = 0 then Panic ''uvmclear''
       else Ok () (s\<lparr>memory := store64 (memory s) pte
                      (load64 (memory s) pte AND NOT PTE_U)\<rparr>))"

section \<open>Copying between kernel and user\<close>

lemma page_offset: "unat (va - PGROUNDDOWN va) = unat va mod 4096"
proof -
  have "PGROUNDDOWN va \<le> va" by (simp add: word_le_nat_alt unat_PGROUNDDOWN)
  then show ?thesis by (simp add: unat_sub unat_PGROUNDDOWN minus_div_mult_eq_mod)
qed

lemma page_room: "unat (PGSIZE - (va - PGROUNDDOWN va)) = 4096 - unat va mod 4096"
proof -
  have "va - PGROUNDDOWN va \<le> PGSIZE"
    by (simp add: word_le_nat_alt page_offset PGSIZE_def less_imp_le)
  then show ?thesis by (simp add: unat_sub page_offset) (simp add: PGSIZE_def)
qed

lemma page_room_pos: "0 < unat (PGSIZE - (va - PGROUNDDOWN va))"
  by (simp add: page_room)

function copyout ::
  "u64 \<Rightarrow> u64 \<Rightarrow> u8 list \<Rightarrow> 'z kmem_scheme \<Rightarrow> (int, 'z kmem_scheme) outcome" where
  "copyout pagetable dstva src s =
     (if src = [] then Ok 0 s
      else
        let va0 = PGROUNDDOWN dstva in
        if va0 \<ge> MAXVA then Ok (-1) s
        else obind (walk pagetable va0 False s) (\<lambda>pte s.
          if pte = 0 \<or> load64 (memory s) pte AND PTE_V = 0
             \<or> load64 (memory s) pte AND PTE_U = 0 \<or> load64 (memory s) pte AND PTE_W = 0
          then Ok (-1) s
          else
            let pa0 = PTE2PA (load64 (memory s) pte);
                n = min (unat (PGSIZE - (dstva - va0))) (length src)
            in copyout pagetable (va0 + PGSIZE) (drop n src)
                 (s\<lparr>memory := write_bytes (memory s) (pa0 + (dstva - va0)) (take n src)\<rparr>)))"
  by pat_completeness auto
termination
  by (relation "measure (\<lambda>(pt, va, src, s). length src)") (auto simp: page_room)

declare copyout.simps [simp del]

text \<open>
  \<^verbatim>\<open>copyin\<close> and \<^verbatim>\<open>copyinstr\<close> return the bytes that reached the destination
  buffer together with the result, so that a failed copy still shows what it wrote.
\<close>

function copyin_loop ::
  "u64 \<Rightarrow> u8 list \<Rightarrow> u64 \<Rightarrow> nat \<Rightarrow> 'z kmem_scheme \<Rightarrow> (int \<times> u8 list, 'z kmem_scheme) outcome" where
  "copyin_loop pagetable dst srcva len s =
     (if len = 0 then Ok (0, dst) s
      else
        let va0 = PGROUNDDOWN srcva in
        obind (walkaddr pagetable va0 s) (\<lambda>pa0 s.
          if pa0 = 0 then Ok (-1, dst) s
          else
            let n = min (unat (PGSIZE - (srcva - va0))) len
            in copyin_loop pagetable (dst @ read_bytes (memory s) (pa0 + (srcva - va0)) n)
                 (va0 + PGSIZE) (len - n) s))"
  by pat_completeness auto
termination
  by (relation "measure (\<lambda>(pt, dst, va, len, s). len)") (auto simp: page_room)

declare copyin_loop.simps [simp del]

definition copyin ::
  "u64 \<Rightarrow> u64 \<Rightarrow> nat \<Rightarrow> 'z kmem_scheme \<Rightarrow> (int \<times> u8 list, 'z kmem_scheme) outcome" where
  "copyin pagetable srcva len s = copyin_loop pagetable [] srcva len s"

fun copyinstr_page :: "mem \<Rightarrow> u64 \<Rightarrow> nat \<Rightarrow> u8 list \<Rightarrow> bool \<times> u8 list" where
  "copyinstr_page m p 0 dst = (False, dst)"
| "copyinstr_page m p (Suc n) dst =
     (if m p = 0 then (True, dst @ [0]) else copyinstr_page m (p + 1) n (dst @ [m p]))"

function copyinstr_loop ::
  "u64 \<Rightarrow> u8 list \<Rightarrow> u64 \<Rightarrow> nat \<Rightarrow> 'z kmem_scheme \<Rightarrow> (int \<times> u8 list, 'z kmem_scheme) outcome" where
  "copyinstr_loop pagetable dst srcva mx s =
     (if mx = 0 then Ok (-1, dst) s
      else
        let va0 = PGROUNDDOWN srcva in
        obind (walkaddr pagetable va0 s) (\<lambda>pa0 s.
          if pa0 = 0 then Ok (-1, dst) s
          else
            let n = min (unat (PGSIZE - (srcva - va0))) mx;
                r = copyinstr_page (memory s) (pa0 + (srcva - va0)) n dst
            in if fst r then Ok (0, snd r) s
               else copyinstr_loop pagetable (snd r) (va0 + PGSIZE) (mx - n) s))"
  by pat_completeness auto
termination
  by (relation "measure (\<lambda>(pt, dst, va, mx, s). mx)") (auto simp: page_room)

declare copyinstr_loop.simps [simp del]

definition copyinstr ::
  "u64 \<Rightarrow> u64 \<Rightarrow> nat \<Rightarrow> 'z kmem_scheme \<Rightarrow> (int \<times> u8 list, 'z kmem_scheme) outcome" where
  "copyinstr pagetable srcva mx s = copyinstr_loop pagetable [] srcva mx s"

end
