(* ===== verification/Pagetable.thy ===== *)
theory Pagetable
  imports Vm
begin

text \<open>
  The shape of a page table in memory and what the routines of \<open>Vm\<close> do to it.
  \<open>tbl m root va d\<close> is the table page a walk for \<open>va\<close> reaches after \<open>d\<close>
  steps; \<open>translate\<close> is the abstract address space, the valid leaf entry of each
  virtual page. \<open>pt_wf\<close> says the table pages form a tree of kernel pages that are
  not on the free list; allocation of intermediate tables keeps it and is invisible in
  \<open>translate\<close>.
\<close>

section \<open>Indices and entries\<close>

definition px :: "nat \<Rightarrow> u64 \<Rightarrow> nat" where
  "px l va = unat (PX l va)"

lemma px_div: "px l va = unat va div 2 ^ (12 + 9 * l) mod 512"
proof -
  have "PX l va = take_bit 9 (drop_bit (12 + 9 * l) va)"
    by (simp only: PX_def take_bit_eq_mask) (simp add: mask_eq_exp_minus_1)
  then have "px l va = take_bit 9 (drop_bit (12 + 9 * l) (unat va))"
    unfolding px_def by (simp only: unsigned_take_bit_eq unat_drop_bit_eq)
  then show ?thesis by (simp add: take_bit_eq_mod drop_bit_eq_div)
qed

lemma px_less [simp]: "px l va < 512"
  by (simp add: px_div)

lemma div_mod_inj: "(a :: nat) div k = b div k \<Longrightarrow> a mod k = b mod k \<Longrightarrow> a = b"
  by (metis mult_div_mod_eq)

lemma px_same_page:
  assumes "va < MAXVA" and "va' < MAXVA"
    and "px 2 va = px 2 va'" and "px 1 va = px 1 va'" and "px 0 va = px 0 va'"
  shows "unat va div 4096 = unat va' div 4096"
proof -
  define a b where "a = unat va div 4096" and "b = unat va' div 4096"
  have a: "px 0 va = a mod 512" "px 1 va = a div 512 mod 512" "px 2 va = a div 512 div 512 mod 512"
    and b: "px 0 va' = b mod 512" "px 1 va' = b div 512 mod 512"
      "px 2 va' = b div 512 div 512 mod 512"
    by (simp_all add: px_div a_def b_def flip: div_mult2_eq)
  have "a div 512 div 512 < 512" "b div 512 div 512 < 512"
    using assms(1,2)
    by (simp_all add: a_def b_def word_less_nat_alt unat_MAXVA less_mult_imp_div_less flip: div_mult2_eq)
  then have "a div 512 div 512 = b div 512 div 512" using a(3) b(3) assms(3) by simp
  then have "a div 512 = b div 512"
    using a(2) b(2) assms(4) by (intro div_mod_inj [of "a div 512" 512 "b div 512"]) simp_all
  then have "a = b" using a(1) b(1) assms(5) by (intro div_mod_inj [of a 512 b]) simp_all
  then show ?thesis by (simp add: a_def b_def)
qed

lemma not_bit_above: "unat (w :: u64) < 2 ^ k \<Longrightarrow> k \<le> n \<Longrightarrow> \<not> bit w n"
proof -
  assume "unat w < 2 ^ k" and "k \<le> n"
  then have "unat w < 2 ^ n" by (meson less_le_trans one_le_numeral power_increasing)
  then have "drop_bit n (unat w) = 0" by (simp add: drop_bit_eq_div)
  then have "unat (drop_bit n w) = 0" by (simp only: unat_drop_bit_eq)
  then have "drop_bit n w = 0" by (simp only: unat_eq_0)
  then show ?thesis by (simp add: bit_iff_odd_drop_bit)
qed

lemma not_bit_page_offset: "page_aligned p \<Longrightarrow> n < 12 \<Longrightarrow> \<not> bit p n"
proof -
  assume "page_aligned p" and "n < 12"
  then have "take_bit 12 (unat p) = 0"
    by (simp add: page_aligned_def take_bit_eq_mod)
  then have "unat (take_bit 12 p) = 0" by (simp only: unsigned_take_bit_eq)
  then have "take_bit 12 p = 0" by (simp only: unat_eq_0)
  then have "\<not> bit (take_bit 12 p) n" by (simp only: bit_0_eq) simp
  then show ?thesis using \<open>n < 12\<close> by (simp only: bit_take_bit_iff) simp
qed

lemma PTE2PA_PA2PTE:
  assumes "page_aligned p" and "unat p < 2 ^ 54" and "unat f < 2 ^ 10"
  shows "PTE2PA (PA2PTE p OR f) = p"
proof (rule bit_word_eqI)
  fix n assume "n < LENGTH(64)"
  then show "bit (PTE2PA (PA2PTE p OR f)) n = bit p n"
    using not_bit_page_offset [OF assms(1), of n] not_bit_above [OF assms(2), of n]
      not_bit_above [OF assms(3), of "n - 2"]
    unfolding PTE2PA_def PA2PTE_def
    by (cases "n < 12") (auto simp: bit_simps not_less)
qed

lemma PTE_flag_bits:
  assumes "unat f < 2 ^ 10"
  shows "PTE_FLAGS (PA2PTE p OR f) = f"
proof (rule bit_word_eqI)
  fix n assume "n < LENGTH(64)"
  have m: "(0x3FF :: u64) = mask 10" by (simp add: mask_eq_exp_minus_1)
  show "bit (PTE_FLAGS (PA2PTE p OR f)) n = bit f n"
    using not_bit_above [OF assms, of n]
    unfolding PTE_FLAGS_def PA2PTE_def m
    by (cases "n < 10") (auto simp: bit_simps not_less)
qed

lemma slot_inj:
  assumes "page_aligned p" and "page_aligned q" and "i < 512" and "j < 512"
    and "slot p i = slot q j"
  shows "p = q \<and> i = j"
proof -
  have eq: "unat p + 8 * i = unat q + 8 * j"
    using assms unat_slot by metis
  obtain k l where k: "unat p = 4096 * k" and l: "unat q = 4096 * l"
    using assms(1,2) by (auto elim!: page_alignedE)
  have "(4096 * k + 8 * i) div 4096 = k" and "(4096 * l + 8 * j) div 4096 = l"
    using assms(3,4) by simp_all
  then have "k = l" using eq k l by metis
  moreover from this have "p = q" using k l by (simp add: word_unat_eq_iff)
  ultimately show ?thesis using eq k l by simp
qed

lemma load64_zero: "(\<And>x. in_range x a 8 \<Longrightarrow> m x = 0) \<Longrightarrow> load64 m a = 0"
  by (simp add: load64_def in_range_8)

section \<open>Tables reached by a walk\<close>

fun tbl :: "mem \<Rightarrow> u64 \<Rightarrow> u64 \<Rightarrow> nat \<Rightarrow> u64 option" where
  "tbl m root va 0 = Some root"
| "tbl m root va (Suc d) =
     (case tbl m root va d of
        None \<Rightarrow> None
      | Some p \<Rightarrow>
          (let v = load64 m (slot p (px (2 - d) va))
           in if v AND PTE_V \<noteq> 0 then Some (PTE2PA v) else None))"

definition tables :: "mem \<Rightarrow> u64 \<Rightarrow> u64 set" where
  "tables m root = {p. \<exists>va d. d \<le> 2 \<and> tbl m root va d = Some p}"

definition prefix_eq :: "nat \<Rightarrow> u64 \<Rightarrow> u64 \<Rightarrow> bool" where
  "prefix_eq d va va' \<longleftrightarrow> (\<forall>k < d. px (2 - k) va = px (2 - k) va')"

definition translate :: "mem \<Rightarrow> u64 \<Rightarrow> u64 \<Rightarrow> u64 option" where
  "translate m root va =
     (case tbl m root va 2 of
        None \<Rightarrow> None
      | Some p \<Rightarrow>
          (let v = load64 m (slot p (px 0 va)) in if v AND PTE_V \<noteq> 0 then Some v else None))"

definition pt_tree :: "mem \<Rightarrow> u64 \<Rightarrow> bool" where
  "pt_tree m root \<longleftrightarrow>
     (\<forall>va va' d d' p. d \<le> 2 \<longrightarrow> d' \<le> 2 \<longrightarrow> tbl m root va d = Some p \<longrightarrow>
        tbl m root va' d' = Some p \<longrightarrow> d = d' \<and> prefix_eq d va va')"

definition pt_wf :: "'z kmem_scheme \<Rightarrow> u64 \<Rightarrow> u64 list \<Rightarrow> bool" where
  "pt_wf s root ps \<longleftrightarrow>
     pt_tree (memory s) root \<and> (\<forall>p \<in> tables (memory s) root. kpage s p \<and> p \<notin> set ps)"

lemma prefix_eq_0 [simp]: "prefix_eq 0 va va'"
  by (simp add: prefix_eq_def)

lemma prefix_eq_refl [simp]: "prefix_eq d va va"
  by (simp add: prefix_eq_def)

lemma prefix_eq_Suc: "prefix_eq (Suc d) va va' \<longleftrightarrow> prefix_eq d va va' \<and> px (2 - d) va = px (2 - d) va'"
  by (auto simp: prefix_eq_def less_Suc_eq)

lemma prefix_eq_sym: "prefix_eq d va va' \<Longrightarrow> prefix_eq d va' va"
  by (simp add: prefix_eq_def)

lemma prefix_eq_trans: "prefix_eq d va va' \<Longrightarrow> prefix_eq d va' va'' \<Longrightarrow> prefix_eq d va va''"
  by (simp add: prefix_eq_def)

lemma prefix_eq_3_page:
  "prefix_eq 3 va va' \<Longrightarrow> va < MAXVA \<Longrightarrow> va' < MAXVA \<Longrightarrow> unat va div 4096 = unat va' div 4096"
  by (rule px_same_page) (simp_all add: numeral_3_eq_3 prefix_eq_Suc numeral_2_eq_2)

lemma prefix_eq_page:
  assumes "unat va div 4096 = unat va' div 4096"
  shows "prefix_eq d va va'"
proof -
  have "px l va = px l va'" for l
  proof -
    have "2 ^ (12 + 9 * l) = (4096 :: nat) * 2 ^ (9 * l)" by (simp add: power_add)
    then show ?thesis unfolding px_div using assms by (simp add: div_mult2_eq)
  qed
  then show ?thesis by (simp add: prefix_eq_def)
qed

lemma tbl_prefix: "prefix_eq d va va' \<Longrightarrow> tbl m root va d = tbl m root va' d"
  by (induction d) (auto simp: prefix_eq_Suc split: option.splits)

lemma translate_prefix: "prefix_eq 3 va va' \<Longrightarrow> translate m root va = translate m root va'"
  using tbl_prefix [of 2 va va' m root]
  by (auto simp: translate_def numeral_3_eq_3 numeral_2_eq_2 prefix_eq_Suc split: option.splits)

lemma tbl_in_tables: "tbl m root va d = Some p \<Longrightarrow> d \<le> 2 \<Longrightarrow> p \<in> tables m root"
  by (auto simp: tables_def)

lemma root_in_tables [simp]: "root \<in> tables m root"
  using tbl_in_tables [of m root 0 0 root] by simp

text \<open>A write that stays off the table pages changes nothing.\<close>

lemma load64_slot_cong:
  assumes "\<And>x. in_range x p 4096 \<Longrightarrow> m' x = m x" and "page_aligned p" and "i < 512"
  shows "load64 m' (slot p i) = load64 m (slot p i)"
  using assms slot_in_page [OF assms(2,3)] by (intro load64_cong) blast

lemma tbl_cong:
  assumes "\<And>p x. p \<in> tables m root \<Longrightarrow> in_range x p 4096 \<Longrightarrow> m' x = m x"
    and "\<And>p. p \<in> tables m root \<Longrightarrow> page_aligned p" and "d \<le> 3"
  shows "tbl m' root va d = tbl m root va d"
  using assms(3)
proof (induction d)
  case 0
  then show ?case by simp
next
  case (Suc d)
  then have IH: "tbl m' root va d = tbl m root va d" by simp
  have "load64 m' (slot p (px l va)) = load64 m (slot p (px l va))"
    if "tbl m root va d = Some p" for p l
  proof -
    have "p \<in> tables m root" using that Suc.prems by (auto intro: tbl_in_tables)
    then show ?thesis using assms(1,2) by (intro load64_slot_cong) auto
  qed
  then show ?case using IH by (auto split: option.splits)
qed

lemma translate_cong:
  assumes "\<And>p x. p \<in> tables m root \<Longrightarrow> in_range x p 4096 \<Longrightarrow> m' x = m x"
    and "\<And>p. p \<in> tables m root \<Longrightarrow> page_aligned p"
  shows "translate m' root va = translate m root va"
proof -
  have "tbl m' root va 2 = tbl m root va 2"
    using assms by (intro tbl_cong) auto
  moreover have "load64 m' (slot p (px 0 va)) = load64 m (slot p (px 0 va))"
    if "tbl m root va 2 = Some p" for p
    using assms tbl_in_tables [OF that] by (intro load64_slot_cong) auto
  ultimately show ?thesis by (auto simp: translate_def split: option.splits)
qed

lemma tables_cong:
  assumes "\<And>p x. p \<in> tables m root \<Longrightarrow> in_range x p 4096 \<Longrightarrow> m' x = m x"
    and "\<And>p. p \<in> tables m root \<Longrightarrow> page_aligned p"
  shows "tables m' root = tables m root" and "pt_tree m' root = pt_tree m root"
proof -
  have "tbl m' root va d = tbl m root va d" if "d \<le> 2" for va d
    using assms that by (intro tbl_cong) auto
  then show "tables m' root = tables m root" and "pt_tree m' root = pt_tree m root"
    by (simp_all add: tables_def pt_tree_def cong: conj_cong)
qed

section \<open>Writing one entry\<close>

lemma load64_store_entry:
  assumes "pt_tree m root" and "\<And>p. p \<in> tables m root \<Longrightarrow> page_aligned p"
    and "tbl m root va d = Some p" and "d \<le> 2" and "tbl m root va' d' = Some q" and "d' \<le> 2"
    and "\<not> (d' = d \<and> prefix_eq (Suc d) va va')"
  shows "load64 (store64 m (slot p (px (2 - d) va)) v) (slot q (px (2 - d') va')) =
         load64 m (slot q (px (2 - d') va'))"
proof -
  have al: "page_aligned p" "page_aligned q"
    using assms by (auto intro: tbl_in_tables)
  have "slot p (px (2 - d) va) \<noteq> slot q (px (2 - d') va')"
  proof
    assume "slot p (px (2 - d) va) = slot q (px (2 - d') va')"
    then have "p = q" and px: "px (2 - d) va = px (2 - d') va'"
      using slot_inj [OF al px_less px_less] by blast+
    then have "d = d'" and "prefix_eq d va va'"
      using assms(1,3-6) unfolding pt_tree_def by blast+
    then show False using assms(7) px by (simp add: prefix_eq_Suc)
  qed
  then show ?thesis
    using al by (intro load64_store64_other aligned8_slot) auto
qed

lemma tbl_store_other:
  assumes "pt_tree m root" and "\<And>p. p \<in> tables m root \<Longrightarrow> page_aligned p"
    and "tbl m root va d = Some p" and "d \<le> 2" and "d' \<le> 3"
    and "d' \<le> d \<or> \<not> prefix_eq (Suc d) va va'"
  shows "tbl (store64 m (slot p (px (2 - d) va)) v) root va' d' = tbl m root va' d'"
  using assms(5,6)
proof (induction d')
  case 0
  then show ?case by simp
next
  case (Suc e)
  then have IH: "tbl (store64 m (slot p (px (2 - d) va)) v) root va' e = tbl m root va' e"
    by (meson Suc_leD)
  have "load64 (store64 m (slot p (px (2 - d) va)) v) (slot q (px (2 - e) va')) =
        load64 m (slot q (px (2 - e) va'))" if "tbl m root va' e = Some q" for q
    using Suc.prems that by (intro load64_store_entry [OF assms(1,2,3,4)]) auto
  then show ?case using IH by (auto split: option.splits)
qed

lemma translate_store_leaf:
  assumes "pt_tree m root" and "\<And>p. p \<in> tables m root \<Longrightarrow> page_aligned p"
    and "tbl m root va 2 = Some p"
  shows "translate (store64 m (slot p (px 0 va)) v) root va' =
    (if prefix_eq 3 va va' then (if v AND PTE_V \<noteq> 0 then Some v else None)
     else translate m root va')"
    and "d \<le> 2 \<Longrightarrow> tbl (store64 m (slot p (px 0 va)) v) root va' d = tbl m root va' d"
proof -
  have tb: "tbl (store64 m (slot p (px 0 va)) v) root va' d = tbl m root va' d" if "d \<le> 2" for d
    using tbl_store_other [OF assms, of d va' v] that by simp
  then show "d \<le> 2 \<Longrightarrow> tbl (store64 m (slot p (px 0 va)) v) root va' d = tbl m root va' d" .
  show "translate (store64 m (slot p (px 0 va)) v) root va' =
    (if prefix_eq 3 va va' then (if v AND PTE_V \<noteq> 0 then Some v else None)
     else translate m root va')"
  proof (cases "prefix_eq 3 va va'")
    case True
    then have "prefix_eq 2 va va'" and px: "px 0 va = px 0 va'"
      by (simp_all add: numeral_3_eq_3 numeral_2_eq_2 prefix_eq_Suc)
    then have "tbl m root va' 2 = Some p" using assms(3) tbl_prefix by metis
    then show ?thesis
      using True tb [of 2] px by (simp add: translate_def mem_simps)
  next
    case False
    then have "load64 (store64 m (slot p (px 0 va)) v) (slot q (px 0 va')) =
        load64 m (slot q (px 0 va'))" if "tbl m root va' 2 = Some q" for q
      using load64_store_entry [OF assms, of va' 2 q v] that by (simp add: numeral_3_eq_3)
    then show ?thesis
      using False tb [of 2] by (auto simp: translate_def split: option.splits)
  qed
qed

end
