(* ===== verification/Uaccess.thy ===== *)
theory Uaccess
  imports Pagetable
begin

text \<open>
  User memory as the copy routines of \<^verbatim>\<open>kernel/vm.c\<close> see it: the reading routines
  depend on memory alone and leave the state as it is, the writing one changes memory only.
\<close>

section \<open>Reading leaves the state alone\<close>

lemma walk_noalloc_pure:
  "\<exists>a. \<forall>s :: 'z kmem_scheme. memory s = m \<longrightarrow> walk_loop l pt va False s = Ok a s"
proof (induction l arbitrary: pt)
  case 0
  then show ?case by auto
next
  case (Suc l)
  let ?v = "load64 m (slot pt (unat (PX (Suc l) va)))"
  obtain a where a: "\<forall>s :: 'z kmem_scheme. memory s = m \<longrightarrow> walk_loop l (PTE2PA ?v) va False s = Ok a s"
    using Suc by blast
  show ?case
  proof (cases "?v AND PTE_V \<noteq> 0")
    case True
    then show ?thesis using a by (auto simp: Let_def)
  next
    case False
    then show ?thesis by (auto simp: Let_def)
  qed
qed

lemma walkaddr_pure:
  "\<exists>a. \<forall>s :: 'z kmem_scheme. memory s = m \<longrightarrow> walkaddr pt va s = Ok a s"
proof -
  obtain a where "\<forall>s :: 'z kmem_scheme. memory s = m \<longrightarrow> walk_loop 2 pt va False s = Ok a s"
    using walk_noalloc_pure by blast
  then have "\<forall>s :: 'z kmem_scheme. memory s = m \<longrightarrow> walkaddr pt va s =
      Ok (if va \<ge> MAXVA \<or> a = 0 \<or> load64 m a AND PTE_V = 0 \<or> load64 m a AND PTE_U = 0 then 0
          else PTE2PA (load64 m a)) s"
    by (auto simp: walkaddr_def walk_def)
  then show ?thesis by (rule exI)
qed

lemma copyin_loop_pure:
  "\<exists>r. \<forall>s :: 'z kmem_scheme. memory s = m \<longrightarrow> copyin_loop pt dst va len s = Ok r s"
proof (induction len arbitrary: dst va rule: less_induct)
  case (less len)
  obtain a where a: "\<forall>s :: 'z kmem_scheme. memory s = m \<longrightarrow> walkaddr pt (PGROUNDDOWN va) s = Ok a s"
    using walkaddr_pure by blast
  show ?case
  proof (cases "len = 0 \<or> a = 0")
    case True
    then show ?thesis using a
      by (intro exI [of _ "(if len = 0 then 0 else -1, dst)"]) (auto simp: copyin_loop.simps [of pt dst va len])
  next
    case False
    let ?n = "min (unat (PGSIZE - (va - PGROUNDDOWN va))) len"
    let ?d = "dst @ read_bytes m (a + (va - PGROUNDDOWN va)) ?n"
    have "len - ?n < len" using False page_room_pos [of va] by simp
    then obtain r where r: "\<forall>s :: 'z kmem_scheme. memory s = m \<longrightarrow>
        copyin_loop pt ?d (PGROUNDDOWN va + PGSIZE) (len - ?n) s = Ok r s"
      using less.IH by blast
    have "copyin_loop pt dst va len s = Ok r s" if "memory s = m" for s :: "'z kmem_scheme"
      using a r that False by (subst copyin_loop.simps) (simp add: Let_def)
    then show ?thesis by blast
  qed
qed

lemma copyin_pure:
  "\<exists>r. \<forall>s :: 'z kmem_scheme. memory s = m \<longrightarrow> copyin pt va len s = Ok r s"
  unfolding copyin_def by (rule copyin_loop_pure)

lemma copyin_state: "copyin pt va len s = Ok r t \<Longrightarrow> t = s"
  using copyin_pure [of "memory s" pt va len] by (metis outcome.inject(1))

lemma copyin_returns: "\<exists>r bs. copyin pt va len s = Ok (r, bs) s"
  using copyin_pure [of "memory s" pt va len] by (metis surj_pair)

lemma copyin_cong:
  fixes s s' :: "'z kmem_scheme"
  assumes "memory s = memory s'" and "copyin pt va len s = Ok r s"
  shows "copyin pt va len s' = Ok r s'"
  using assms copyin_pure [of "memory s" pt va len] by (metis outcome.inject(1))

lemma copyinstr_loop_pure:
  "\<exists>r. \<forall>s :: 'z kmem_scheme. memory s = m \<longrightarrow> copyinstr_loop pt dst va mx s = Ok r s"
proof (induction mx arbitrary: dst va rule: less_induct)
  case (less mx)
  obtain a where a: "\<forall>s :: 'z kmem_scheme. memory s = m \<longrightarrow> walkaddr pt (PGROUNDDOWN va) s = Ok a s"
    using walkaddr_pure by blast
  let ?n = "min (unat (PGSIZE - (va - PGROUNDDOWN va))) mx"
  let ?p = "copyinstr_page m (a + (va - PGROUNDDOWN va)) ?n dst"
  show ?case
  proof (cases "mx = 0 \<or> a = 0")
    case True
    then show ?thesis using a
      by (intro exI [of _ "(-1, dst)"]) (auto simp: copyinstr_loop.simps [of pt dst va mx])
  next
    case False
    have "mx - ?n < mx" using False page_room_pos [of va] by simp
    then obtain r where r: "\<forall>s :: 'z kmem_scheme. memory s = m \<longrightarrow>
        copyinstr_loop pt (snd ?p) (PGROUNDDOWN va + PGSIZE) (mx - ?n) s = Ok r s"
      using less.IH by blast
    have "copyinstr_loop pt dst va mx s = Ok (if fst ?p then (0, snd ?p) else r) s"
      if "memory s = m" for s :: "'z kmem_scheme"
      using a r that False by (subst copyinstr_loop.simps) (simp add: Let_def)
    then show ?thesis by blast
  qed
qed

lemma copyinstr_returns: "\<exists>r bs. copyinstr pt va mx s = Ok (r, bs) s"
  unfolding copyinstr_def using copyinstr_loop_pure [of "memory s" pt "[]" va mx] by (metis surj_pair)

section \<open>One byte\<close>

lemma copyin_one:
  assumes "copyin pt va 1 s = Ok (r, bs) t"
  shows "t = s \<and> (r = 0 \<and> length bs = 1 \<or> r = -1 \<and> bs = [])"
proof -
  obtain a where a: "walkaddr pt (PGROUNDDOWN va) s = Ok a s"
    using walkaddr_pure [of "memory s"] by blast
  have m: "min (unat (PGSIZE - (va - PGROUNDDOWN va))) 1 = 1"
    using page_room_pos [of va] by simp
  have z: "copyin_loop pt d v 0 s = Ok (0, d) s" for d v
    by (subst copyin_loop.simps) simp
  have "copyin pt va 1 s = Ok (if a = 0 then (-1, [])
      else (0, read_bytes (memory s) (a + (va - PGROUNDDOWN va)) 1)) s"
    unfolding copyin_def by (subst copyin_loop.simps) (simp add: Let_def a m z del: One_nat_def)
  then show ?thesis using assms by (auto split: if_splits)
qed

section \<open>Writing changes memory only\<close>

lemma copyout_form:
  "\<exists>r m. copyout pt va bs s = Ok r (s\<lparr>memory := m\<rparr>) \<and> (r = 0 \<or> r = -1)"
proof (induction "length bs" arbitrary: va bs s rule: less_induct)
  case less
  have id: "s = s\<lparr>memory := memory s\<rparr>" by simp
  show ?case
  proof (cases "bs = []")
    case True
    then have "copyout pt va bs s = Ok 0 (s\<lparr>memory := memory s\<rparr>)" by (subst copyout.simps) simp
    then show ?thesis by blast
  next
    case False
    let ?va = "PGROUNDDOWN va"
    obtain a where a: "walk_loop 2 pt ?va False s = Ok a s"
      using walk_noalloc_pure [of "memory s"] by blast
    let ?bad = "?va \<ge> MAXVA \<or> a = 0 \<or> load64 (memory s) a AND PTE_V = 0 \<or>
      load64 (memory s) a AND PTE_U = 0 \<or> load64 (memory s) a AND PTE_W = 0"
    show ?thesis
    proof (cases ?bad)
      case True
      then have "copyout pt va bs s = Ok (-1) s"
        using False a by (subst copyout.simps) (auto simp: walk_def Let_def)
      then show ?thesis using id by metis
    next
      case ok: False
      let ?n = "min (unat (PGSIZE - (va - ?va))) (length bs)"
      let ?m = "write_bytes (memory s) (PTE2PA (load64 (memory s) a) + (va - ?va)) (take ?n bs)"
      have "length (drop ?n bs) < length bs" using False page_room_pos [of va] by simp
      then obtain r m where "copyout pt (?va + PGSIZE) (drop ?n bs) (s\<lparr>memory := ?m\<rparr>) =
          Ok r (s\<lparr>memory := ?m\<rparr>\<lparr>memory := m\<rparr>)" "r = 0 \<or> r = -1"
        using less by blast
      moreover have "copyout pt va bs s =
          copyout pt (?va + PGSIZE) (drop ?n bs) (s\<lparr>memory := ?m\<rparr>)"
        using False ok a by (subst copyout.simps) (simp add: walk_def Let_def)
      ultimately show ?thesis by auto
    qed
  qed
qed

end
