(* ===== verification/Addrspace.thy ===== *)
theory Addrspace
  imports Uaccess
begin

text \<open>
  What the routines of \<^verbatim>\<open>kernel/vm.c\<close> do to an address space. \<open>pt_inv s root ps\<close>
  is the invariant of a page table: its pages form a tree of kernel pages off the free list
  \<open>ps\<close>. \<^verbatim>\<open>walk\<close> that allocates keeps it and is invisible in \<open>translate\<close>;
  \<^verbatim>\<open>mappages\<close> adds exactly the pages asked for, \<^verbatim>\<open>uvmunmap\<close> takes
  them away, and the copy routines act on the bytes a user sees.
\<close>

section \<open>A new table page\<close>

lemma load_valid_entry:
  assumes "page_aligned pg" and "unat pg < 2 ^ 54"
  shows "(PA2PTE pg OR PTE_V) AND PTE_V \<noteq> 0" and "PTE2PA (PA2PTE pg OR PTE_V) = pg"
proof -
  have "bit ((PA2PTE pg OR PTE_V) AND PTE_V) 0" by (simp add: PTE_V_def bit_simps)
  then show "(PA2PTE pg OR PTE_V) AND PTE_V \<noteq> 0" by (metis bit_0_eq bot_apply bot_bool_def)
  show "PTE2PA (PA2PTE pg OR PTE_V) = pg" using assms by (intro PTE2PA_PA2PTE) (simp_all add: PTE_V_def)
qed

lemma fresh_page_zero:
  assumes "page_aligned p" "page_aligned pg" "p \<noteq> pg" "j < 512" "i < 512"
    and "\<And>x. in_range x pg 4096 \<Longrightarrow> m x = 0"
  shows "load64 (store64 m (slot p j) v) (slot pg i) = 0"
proof (rule load64_zero)
  fix x assume "in_range x (slot pg i) 8"
  then have ip: "in_range x pg 4096" using slot_in_page assms by blast
  then have "\<not> in_range x (slot p j) 8"
    using pages_disjoint [OF assms(2,1)] slot_in_page [OF assms(1,4)] assms(3) by metis
  then show "store64 m (slot p j) v x = 0" using ip assms(6) by (simp add: store64_other)
qed

lemma tbl_grow:
  assumes tree: "pt_tree m root" and al0: "\<forall>q \<in> tables m root. page_aligned q"
    and p: "tbl m root va d = Some p" "d \<le> 1" and empty: "load64 m (slot p (px (2 - d) va)) AND PTE_V = 0"
    and pg: "page_aligned pg" "unat pg < 2 ^ 54" "pg \<notin> tables m root"
    and m1': "\<forall>x. m1 x = (if in_range x pg 4096 then 0 else m x)"
    and m2: "m2 = store64 m1 (slot p (px (2 - d) va)) (PA2PTE pg OR PTE_V)"
    and e: "e \<le> 2"
  shows "tbl m2 root va' e = (if e \<le> d \<or> \<not> prefix_eq (Suc d) va va' then tbl m root va' e
           else if e = Suc d then Some pg else None)"
proof -
  note al = bspec [OF al0] and m1 = spec [OF m1']
  have off: "m1 x = m x" if "q \<in> tables m root" "in_range x q 4096" for q x
    using that m1 al pg pages_disjoint [of q pg x] by auto
  have same: "tbl m1 root v k = tbl m root v k" if "k \<le> 3" for v k
    using off al that by (rule tbl_cong)
  have tabs: "tables m1 root = tables m root" "pt_tree m1 root"
    using tables_cong [OF off al] tree by simp_all
  have al1: "page_aligned q" if "q \<in> tables m1 root" for q using that tabs(1) al by simp
  have p1: "tbl m1 root va d = Some p" using same [of d va] p by simp
  have keep: "tbl m2 root v k = tbl m root v k" if "k \<le> 3" "k \<le> d \<or> \<not> prefix_eq (Suc d) va v" for v k
    using tbl_store_other [OF tabs(2) al1 p1 _ that(1)] p(2) same that unfolding m2 by simp
  have pal: "page_aligned p" using al tbl_in_tables [OF p(1)] p(2) by simp
  show ?thesis
  proof (cases "e \<le> d \<or> \<not> prefix_eq (Suc d) va va'")
    case True
    then show ?thesis using keep [of e va'] e by auto
  next
    case False
    then have pre: "prefix_eq (Suc d) va va'" and "prefix_eq d va va'" and px: "px (2 - d) va' = px (2 - d) va"
      by (simp_all add: prefix_eq_Suc)
    then have "tbl m root va' d = Some p" using p(1) tbl_prefix by metis
    then have d1: "tbl m2 root va' (Suc d) = Some pg"
      using keep [of d va'] p(2) load_valid_entry [OF pg(1,2)] px
      by (simp add: m2 load64_store64_same)
    have "p \<noteq> pg" using pg(3) tbl_in_tables [OF p(1)] p(2) by auto
    then have z: "load64 m2 (slot pg i) = 0" if "i < 512" for i
      unfolding m2 using pal pg(1) that m1 by (intro fresh_page_zero) auto
    show ?thesis
    proof (cases "e = Suc d")
      case True
      then show ?thesis using False d1 by simp
    next
      case ne: False
      then have "e = Suc (Suc d)" using False e by simp
      then show ?thesis using False d1 z [OF px_less] by simp
    qed
  qed
qed

lemma pt_grow:
  assumes tree: "pt_tree m root" and al0: "\<forall>q \<in> tables m root. page_aligned q"
    and p: "tbl m root va d = Some p" "d \<le> 1" and empty: "load64 m (slot p (px (2 - d) va)) AND PTE_V = 0"
    and pg: "page_aligned pg" "unat pg < 2 ^ 54" "pg \<notin> tables m root"
    and m1': "\<forall>x. m1 x = (if in_range x pg 4096 then 0 else m x)"
    and m2: "m2 = store64 m1 (slot p (px (2 - d) va)) (PA2PTE pg OR PTE_V)"
  shows "tables m2 root \<subseteq> insert pg (tables m root)" and "pt_tree m2 root"
    and "tbl m2 root va (Suc d) = Some pg" and "translate m2 root va' = translate m root va'"
proof -
  note al = bspec [OF al0] and m1 = spec [OF m1']
  have T: "tbl m2 root v e = (if e \<le> d \<or> \<not> prefix_eq (Suc d) va v then tbl m root v e
           else if e = Suc d then Some pg else None)" if "e \<le> 2" for e v
    by (rule tbl_grow [OF tree al0 p empty pg m1' m2 that])
  show "tables m2 root \<subseteq> insert pg (tables m root)"
  proof
    fix q assume "q \<in> tables m2 root"
    then obtain v e where e: "e \<le> 2" "tbl m2 root v e = Some q" by (auto simp: tables_def)
    then have "tbl m root v e = Some q \<or> q = pg" using T [OF e(1), of v] by (simp split: if_splits)
    then show "q \<in> insert pg (tables m root)" using tbl_in_tables [OF _ e(1)] by blast
  qed
  show "tbl m2 root va (Suc d) = Some pg" using T [of "Suc d" va] p(2) by simp
  show "pt_tree m2 root"
    unfolding pt_tree_def
  proof (intro allI impI)
    fix v v' e e' q
    assume e: "e \<le> 2" "e' \<le> 2" and q: "tbl m2 root v e = Some q" "tbl m2 root v' e' = Some q"
    have old: "q \<noteq> pg" if "tbl m root w k = Some q" "k \<le> 2" for w k
      using pg(3) tbl_in_tables [OF that] by auto
    show "e = e' \<and> prefix_eq e v v'"
    proof (cases "q = pg")
      case True
      then have "e = Suc d \<and> prefix_eq (Suc d) va v" "e' = Suc d \<and> prefix_eq (Suc d) va v'"
        using q T [OF e(1), of v] T [OF e(2), of v'] old [of v e] old [of v' e'] e by (simp_all split: if_splits)
      then show ?thesis using prefix_eq_sym prefix_eq_trans by blast
    next
      case False
      then have "tbl m root v e = Some q" "tbl m root v' e' = Some q"
        using q T [OF e(1), of v] T [OF e(2), of v'] by (simp_all split: if_splits)
      then show ?thesis using tree e unfolding pt_tree_def by blast
    qed
  qed
  have off: "m1 x = m x" if "q \<in> tables m root" "in_range x q 4096" for q x
    using that m1 al pg pages_disjoint [of q pg x] by auto
  have zero: "m1 x = 0" if "in_range x pg 4096" for x using m1 that by simp
  have m1: "tables m1 root = tables m root" "pt_tree m1 root" "tbl m1 root v k = tbl m root v k" if "k \<le> 3" for v k
    using tables_cong [OF off al] tree tbl_cong [OF off al that] by simp_all
  have al1: "page_aligned q" if "q \<in> tables m1 root" for q using that m1(1) [of 0] al by simp
  show "translate m2 root va' = translate m root va'"
  proof (cases "prefix_eq (Suc d) va va'")
    case True
    then have "tbl m root va' d = Some p" "px (2 - d) va' = px (2 - d) va"
      using p(1) tbl_prefix by (auto simp: prefix_eq_Suc)
    then have "tbl m root va' (Suc d) = None" using empty by simp
    then have "tbl m root va' 2 = None" using p(2) by (cases "d = 1") (auto simp: numeral_2_eq_2 le_Suc_eq)
    moreover have "tbl m2 root va' 2 = None \<or> tbl m2 root va' 2 = Some pg" using T [of 2 va'] True p(2) by auto
    moreover have "load64 m2 (slot pg (px 0 va')) = 0"
      unfolding m2 using al tbl_in_tables [OF p(1)] p(2) pg zero by (intro fresh_page_zero) auto
    ultimately show ?thesis by (auto simp: translate_def)
  next
    case False
    then have t: "tbl m2 root va' 2 = tbl m root va' 2" using T [of 2 va'] by simp
    have "load64 m2 (slot q (px 0 va')) = load64 m (slot q (px 0 va'))" if "tbl m root va' 2 = Some q" for q
    proof -
      have "load64 m2 (slot q (px 0 va')) = load64 m1 (slot q (px 0 va'))"
        using load64_store_entry [OF m1(2) al1, of 0 va d p va' 2 q] p that m1(3) False
        unfolding m2 by simp
      also have "\<dots> = load64 m (slot q (px 0 va'))"
        using off tbl_in_tables [OF that] al by (intro load64_slot_cong) auto
      finally show ?thesis .
    qed
    then show ?thesis using t by (auto simp: translate_def split: option.splits)
  qed
qed

section \<open>Walking with allocation\<close>

definition pt_inv :: "'z kmem_scheme \<Rightarrow> u64 \<Rightarrow> u64 list \<Rightarrow> bool" where
  "pt_inv s root ps \<longleftrightarrow> free_pages s ps \<and> pt_wf s root ps"

text \<open>The state changed only in memory, and there only in table pages and the pages \<open>us\<close>.\<close>

definition extends :: "u64 \<Rightarrow> 'z kmem_scheme \<Rightarrow> u64 list \<Rightarrow> 'z kmem_scheme \<Rightarrow> bool" where
  "extends root s us t \<longleftrightarrow> t = s\<lparr>memory := memory t, freelist := freelist t\<rparr> \<and>
     tables (memory t) root \<subseteq> tables (memory s) root \<union> set us \<and>
     (\<forall>x. (\<forall>p \<in> tables (memory s) root \<union> set us. \<not> in_range x p 4096) \<longrightarrow> memory t x = memory s x)"

lemma extends_refl: "extends root s [] s"
  by (simp add: extends_def)

lemma extends_trans:
  assumes "extends root s us t" and "extends root t vs u"
  shows "extends root s (us @ vs) u"
proof -
  have "u = s\<lparr>memory := memory u, freelist := freelist u\<rparr>"
    using assms unfolding extends_def by (metis kmem.surjective kmem.update_convs(1,2))
  moreover have "memory u x = memory s x"
    if "\<forall>p \<in> tables (memory s) root \<union> set (us @ vs). \<not> in_range x p 4096" for x
  proof -
    have "\<forall>p \<in> tables (memory s) root \<union> set us. \<not> in_range x p 4096" using that by auto
    then have "memory t x = memory s x" using assms(1) unfolding extends_def by blast
    moreover have "\<forall>p \<in> tables (memory t) root \<union> set vs. \<not> in_range x p 4096"
      using assms(1) that unfolding extends_def by fastforce
    then have "memory u x = memory t x" using assms(2) unfolding extends_def by blast
    ultimately show ?thesis by simp
  qed
  ultimately show ?thesis using assms unfolding extends_def by auto
qed

lemma kpage_small: "kpage s p \<Longrightarrow> unat p < 2 ^ 54"
  by (simp add: kpage_def word_less_nat_alt unat_PHYSTOP)

lemma kpages_disjoint: "kpage s a \<Longrightarrow> kpage s b \<Longrightarrow> a \<noteq> b \<Longrightarrow> in_range x a 4096 \<Longrightarrow> \<not> in_range x b 4096"
  by (rule pages_disjoint) simp_all

lemma free_pages_memory:
  assumes "free_pages s qs" and "\<And>a x. a \<in> set qs \<Longrightarrow> in_range x a 4096 \<Longrightarrow> m x = memory s x"
  shows "free_pages (s\<lparr>memory := m\<rparr>) qs"
proof -
  have "chain m (freelist s) qs = chain (memory s) (freelist s) qs" using assms(2) by (rule chain_cong)
  then show ?thesis using assms(1) by (simp add: free_pages_def kend_ok_def kpage_def)
qed

text \<open>One page taken from the free list becomes a table page.\<close>

lemma pt_inv_grow:
  assumes inv: "pt_inv s root (pg # qs)" and p: "tbl (memory s) root va d = Some p" "d \<le> 1"
    and empty: "load64 (memory s) (slot p (px (2 - d) va)) AND PTE_V = 0"
    and t: "kalloc s = Ok pg t" and u: "u = t\<lparr>memory := store64 (memset (memory t) pg 0 4096)
      (slot p (px (2 - d) va)) (PA2PTE pg OR PTE_V)\<rparr>"
  shows "pt_inv u root qs" and "extends root s [pg] u" and "tbl (memory u) root va (Suc d) = Some pg"
    and "translate (memory u) root v = translate (memory s) root v"
proof -
  have fp: "free_pages s (pg # qs)" and wf: "pt_wf s root (pg # qs)" using inv by (simp_all add: pt_inv_def)
  obtain t' where t': "kalloc s = Ok pg t'" "free_pages t' qs"
      "t' = s\<lparr>freelist := freelist t', memory := memory t'\<rparr>" "memory t' = memset (memory s) pg 5 4096"
    using kalloc_cons [OF fp] by metis
  then have [simp]: "t' = t" using t by simp
  have kp: "kpage s pg" "\<And>q. q \<in> set qs \<Longrightarrow> kpage s q" "pg \<notin> set qs" using fp by (auto simp: free_pages_def)
  have tab: "\<And>q. q \<in> tables (memory s) root \<Longrightarrow> kpage s q \<and> q \<noteq> pg \<and> q \<notin> set qs"
    and tree: "pt_tree (memory s) root" using wf by (auto simp: pt_wf_def)
  have pt: "p \<in> tables (memory s) root" using tbl_in_tables [OF p(1)] p(2) by simp
  let ?m1 = "memset (memory t) pg 0 4096"
  have m1: "?m1 x = (if in_range x pg 4096 then 0 else memory s x)" for x
    using t'(4) by (simp add: memset_apply)
  have al: "\<forall>q \<in> tables (memory s) root. page_aligned q" using tab by (meson kpage_aligned)
  have pgs: "page_aligned pg" "unat pg < 2 ^ 54" "pg \<notin> tables (memory s) root"
    using kp(1) kpage_small [OF kp(1)] tab by (auto simp del: power_numeral)
  have mu: "memory u = store64 ?m1 (slot p (px (2 - d) va)) (PA2PTE pg OR PTE_V)" by (simp add: u)
  have G: "tables (memory u) root \<subseteq> insert pg (tables (memory s) root)" "pt_tree (memory u) root"
      "tbl (memory u) root va (Suc d) = Some pg" "translate (memory u) root w = translate (memory s) root w" for w
    using pt_grow [OF tree al p empty pgs allI [OF m1] mu] by blast+
  then show "tbl (memory u) root va (Suc d) = Some pg" "translate (memory u) root v = translate (memory s) root v"
    by blast+
  have away: "memory u x = memory s x" if "\<not> in_range x pg 4096" "\<not> in_range x p 4096" for x
  proof -
    have "\<not> in_range x (slot p (px (2 - d) va)) 8" using slot_in_page [OF _ px_less] tab [OF pt] that(2) by (metis kpage_aligned)
    then show ?thesis using m1 that by (simp add: u store64_other)
  qed
  have kt: "kpage u = kpage s" "t = s\<lparr>freelist := freelist t, memory := memory t\<rparr>"
    using t'(3) unfolding u by (metis \<open>t' = t\<close> kpage_update)+
  have "free_pages u qs" unfolding u
  proof (rule free_pages_memory)
    show "free_pages t qs" using t'(2) by simp
    fix a x assume "a \<in> set qs" "in_range x a 4096"
    then have "\<not> in_range x pg 4096" "\<not> in_range x p 4096"
      using kpages_disjoint [of s a pg x] kpages_disjoint [of s a p x] kp(1,3) kp(2) [of a] tab [OF pt] by blast+
    then show "store64 ?m1 (slot p (px (2 - d) va)) (PA2PTE pg OR PTE_V) x = memory t x"
      using away [of x] t'(4) by (simp add: u memset_apply)
  qed
  moreover have "kpage u q \<and> q \<notin> set qs" if "q \<in> tables (memory u) root" for q
    using G(1) kp(1,3) tab [of q] that unfolding kt(1) by blast
  ultimately show "pt_inv u root qs" using G(2) by (simp add: pt_inv_def pt_wf_def)
  have "u = s\<lparr>memory := memory u, freelist := freelist u\<rparr>"
    unfolding u by (subst kt(2)) simp
  then show "extends root s [pg] u" using G(1) away pt unfolding extends_def by (intro conjI) (assumption, auto)
qed

text \<open>What a walk that may allocate promises.\<close>

definition walked :: "nat \<Rightarrow> u64 \<Rightarrow> u64 \<Rightarrow> 'z kmem_scheme \<Rightarrow> u64 list \<Rightarrow> u64 \<Rightarrow> 'z kmem_scheme \<Rightarrow> u64 list \<Rightarrow> bool" where
  "walked l root va s us a t qs \<longleftrightarrow> pt_inv t root qs \<and> extends root s us t \<and> length us \<le> l \<and>
     (a = 0 \<longrightarrow> length us < l) \<and>
     (\<forall>v. translate (memory t) root v = translate (memory s) root v) \<and>
     (a = 0 \<and> qs = [] \<or> a \<noteq> 0 \<and> (\<exists>q. tbl (memory t) root va 2 = Some q \<and> a = slot q (px 0 va)))"

lemma walked_trans:
  assumes "extends root s us t" and "\<And>v. translate (memory t) root v = translate (memory s) root v"
    and "walked l root va t vs a u qs"
  shows "walked (length us + l) root va s (us @ vs) a u qs"
  using assms extends_trans [of root s us t vs u] by (simp add: walked_def)

lemma slot_nonzero: "free_pages s ps \<Longrightarrow> kpage s q \<Longrightarrow> i < 512 \<Longrightarrow> slot q i \<noteq> 0"
  using kpage_nonzero [of s q] unat_slot [of q i] by (auto simp: free_pages_def unat_eq_0)

lemma walk_loop_alloc:
  "pt_inv s root ps \<Longrightarrow> tbl (memory s) root va (2 - l) = Some p \<Longrightarrow> l \<le> 2 \<Longrightarrow>
   \<exists>a t us qs. walk_loop l p va True s = Ok a t \<and> ps = us @ qs \<and> walked l root va s us a t qs"
proof (induction l arbitrary: s ps p)
  case 0
  then have "p \<in> tables (memory s) root" by (auto intro: tbl_in_tables)
  then have "slot p (px 0 va) \<noteq> 0" using 0 slot_nonzero [of s ps p] by (simp add: pt_inv_def pt_wf_def)
  then show ?case using 0 extends_refl [of root s]
    by (intro exI [of _ "slot p (px 0 va)"] exI [of _ s] exI [of _ "[]"] exI [of _ ps])
      (simp add: walked_def px_def)
next
  case (Suc l)
  define d where "d = 2 - Suc l"
  have d: "d \<le> 1" "2 - l = Suc d" "Suc l = 2 - d" using Suc.prems(3) by (auto simp: d_def)
  let ?v = "load64 (memory s) (slot p (px (2 - d) va))"
  have step: "walk_loop (Suc l) p va True s = (if ?v AND PTE_V \<noteq> 0 then walk_loop l (PTE2PA ?v) va True s
      else obind (kalloc s) (\<lambda>pg t. if pg = 0 then Ok 0 t else walk_loop l pg va True
        (t\<lparr>memory := store64 (memset (memory t) pg 0 4096) (slot p (px (2 - d) va)) (PA2PTE pg OR PTE_V)\<rparr>)))"
    unfolding d(3) [symmetric] by (simp add: px_def Let_def cong: if_cong)
  have p: "tbl (memory s) root va d = Some p" using Suc.prems(2) by (simp add: d_def)
  show ?case
  proof (cases "?v AND PTE_V = 0")
    case False
    then have "tbl (memory s) root va (2 - l) = Some (PTE2PA ?v)" using p by (simp add: d)
    then obtain a t us qs where "walk_loop l (PTE2PA ?v) va True s = Ok a t" "ps = us @ qs" "walked l root va s us a t qs"
      using Suc.IH [OF Suc.prems(1)] Suc.prems(3) by auto
    then show ?thesis using step False by (intro exI [of _ a] exI [of _ t] exI [of _ us] exI [of _ qs]) (simp add: walked_def)
  next
    case True
    show ?thesis
    proof (cases ps)
      case Nil
      then have "kalloc s = Ok 0 s" using Suc.prems(1) by (simp add: pt_inv_def kalloc_empty)
      then show ?thesis using True step Nil Suc.prems(1) extends_refl [of root s]
        by (intro exI [of _ 0] exI [of _ s] exI [of _ "[]"] exI [of _ ps]) (simp add: walked_def)
    next
      case (Cons pg qs)
      then obtain t where t: "kalloc s = Ok pg t" "pg \<noteq> 0"
        using Suc.prems(1) kalloc_cons [of s pg qs] unfolding pt_inv_def free_pages_def by (metis chain.simps(2))
      let ?u = "t\<lparr>memory := store64 (memset (memory t) pg 0 4096) (slot p (px (2 - d) va)) (PA2PTE pg OR PTE_V)\<rparr>"
      have G: "pt_inv ?u root qs" "extends root s [pg] ?u" "tbl (memory ?u) root va (Suc d) = Some pg"
          "translate (memory ?u) root v = translate (memory s) root v" for v
        using pt_inv_grow [OF _ p d(1) True t(1) refl] Suc.prems(1) unfolding Cons by blast+
      obtain a u us rs where u: "walk_loop l pg va True ?u = Ok a u" "qs = us @ rs" "walked l root va ?u us a u rs"
        using Suc.IH [OF G(1), of pg] G(3) Suc.prems(3) d(2) by auto
      have "walked (Suc l) root va s ([pg] @ us) a u rs" using walked_trans [OF G(2,4) u(3)] by simp
      then show ?thesis using u(1,2) step True t Cons
        by (intro exI [of _ a] exI [of _ u] exI [of _ "[pg] @ us"] exI [of _ rs]) simp
    qed
  qed
qed

lemma walk_alloc:
  assumes "pt_inv s root ps" and "va < MAXVA"
  obtains a t us qs where "walk root va True s = Ok a t" "ps = us @ qs" "walked 2 root va s us a t qs"
  using walk_loop_alloc [OF assms(1), of va 2 root] assms(2) by (auto simp: walk_def not_le [symmetric])

lemma walk_loop_read:
  "tbl (memory s) root va (2 - l) = Some p \<Longrightarrow> l \<le> 2 \<Longrightarrow>
   walk_loop l p va False s = Ok (case tbl (memory s) root va 2 of None \<Rightarrow> 0 | Some q \<Rightarrow> slot q (px 0 va)) s"
proof (induction l arbitrary: p)
  case 0
  then show ?case by (simp add: px_def)
next
  case (Suc l)
  define d where "d = 2 - Suc l"
  have d: "2 - l = Suc d" "Suc l = 2 - d" using Suc.prems(2) by (auto simp: d_def)
  let ?v = "load64 (memory s) (slot p (px (2 - d) va))"
  have step: "walk_loop (Suc l) p va False s = (if ?v AND PTE_V \<noteq> 0 then walk_loop l (PTE2PA ?v) va False s else Ok 0 s)"
    unfolding d(2) [symmetric] by (simp add: px_def Let_def)
  have p: "tbl (memory s) root va d = Some p" using Suc.prems(1) by (simp add: d_def)
  show ?case
  proof (cases "?v AND PTE_V = 0")
    case False
    then have "tbl (memory s) root va (2 - l) = Some (PTE2PA ?v)" using p by (simp add: d)
    then show ?thesis using Suc.IH Suc.prems(2) step False by simp
  next
    case True
    then have n: "tbl (memory s) root va (Suc d) = None" using p by simp
    have "d = 0 \<or> d = 1" using Suc.prems(2) by (auto simp: d_def)
    then have "tbl (memory s) root va 2 = None" using n by (auto simp: numeral_2_eq_2)
    then show ?thesis using step True by simp
  qed
qed

lemma walk_read:
  "va < MAXVA \<Longrightarrow> walk root va False s =
     Ok (case tbl (memory s) root va 2 of None \<Rightarrow> 0 | Some q \<Rightarrow> slot q (px 0 va)) s"
  using walk_loop_read [of s root va 2 root] by (simp add: walk_def not_le [symmetric])

section \<open>Leaf entries\<close>

lemma pt_inv_leaf:
  assumes inv: "pt_inv s root ps" and q: "tbl (memory s) root va 2 = Some q"
    and t: "t = s\<lparr>memory := store64 (memory s) (slot q (px 0 va)) v\<rparr>"
  shows "pt_inv t root ps" and "extends root s [] t" and "tables (memory t) root = tables (memory s) root"
    and "translate (memory t) root w =
      (if prefix_eq 3 va w then (if v AND PTE_V \<noteq> 0 then Some v else None) else translate (memory s) root w)"
proof -
  have fp: "free_pages s ps" and tree: "pt_tree (memory s) root"
    and tab: "\<And>p. p \<in> tables (memory s) root \<Longrightarrow> kpage s p \<and> p \<notin> set ps"
    using inv by (auto simp: pt_inv_def pt_wf_def)
  have al: "\<And>p. p \<in> tables (memory s) root \<Longrightarrow> page_aligned p" using tab by (meson kpage_aligned)
  have qt: "q \<in> tables (memory s) root" using q by (auto intro: tbl_in_tables)
  note L = translate_store_leaf [OF tree al q]
  show "translate (memory t) root w =
      (if prefix_eq 3 va w then (if v AND PTE_V \<noteq> 0 then Some v else None) else translate (memory s) root w)"
    using L(1) by (simp add: t)
  have tb: "tbl (memory t) root w d = tbl (memory s) root w d" if "d \<le> 2" for w d
    using L(2) that by (simp add: t)
  then show tt: "tables (memory t) root = tables (memory s) root" by (simp add: tables_def cong: conj_cong)
  have tr: "pt_tree (memory t) root" using tree tb unfolding pt_tree_def by presburger
  have away: "memory t x = memory s x" if "\<not> in_range x q 4096" for x
    using that slot_in_page [OF al [OF qt] px_less, of x 0 va] by (auto simp: t intro!: store64_other)
  have "free_pages t ps" unfolding t
  proof (rule free_pages_memory [OF fp])
    fix a x assume a: "a \<in> set ps" "in_range x a 4096"
    then have "\<not> in_range x q 4096"
      using kpages_disjoint [of s a q x] fp tab [OF qt] by (auto simp: free_pages_def)
    then show "store64 (memory s) (slot q (px 0 va)) v x = memory s x" using away by (simp add: t)
  qed
  then show "pt_inv t root ps" using tt tr tab by (simp add: pt_inv_def pt_wf_def t kpage_update)
  show "extends root s [] t" using away qt tt by (auto simp: extends_def t)
qed

definition vpn :: "u64 \<Rightarrow> nat" where
  "vpn v = unat v div 4096"

lemma prefix_eq_vpn: "v < MAXVA \<Longrightarrow> w < MAXVA \<Longrightarrow> prefix_eq 3 v w \<longleftrightarrow> vpn v = vpn w"
  unfolding vpn_def using prefix_eq_3_page prefix_eq_page by blast

lemma vpn_next: "a < MAXVA \<Longrightarrow> vpn (a + PGSIZE) = Suc (vpn a)"
  using unat_next_page [of a] by (simp add: vpn_def)

text \<open>\<open>m'\<close> maps \<open>k\<close> pages from \<open>a\<close> to the frames from \<open>pa\<close>, and otherwise what \<open>m\<close> maps.\<close>

definition adds_maps :: "u64 \<Rightarrow> mem \<Rightarrow> u64 \<Rightarrow> nat \<Rightarrow> u64 \<Rightarrow> u64 \<Rightarrow> mem \<Rightarrow> bool" where
  "adds_maps root m a k pa perm m' \<longleftrightarrow> (\<forall>v < MAXVA. translate m' root v =
     (if vpn a \<le> vpn v \<and> vpn v < vpn a + k
      then Some (PA2PTE (pa + of_nat (4096 * (vpn v - vpn a))) OR perm OR PTE_V) else translate m root v))"

lemma adds_mapsD:
  "adds_maps root m a k pa perm m' \<Longrightarrow> v < MAXVA \<Longrightarrow> translate m' root v =
     (if vpn a \<le> vpn v \<and> vpn v < vpn a + k
      then Some (PA2PTE (pa + of_nat (4096 * (vpn v - vpn a))) OR perm OR PTE_V) else translate m root v)"
  unfolding adds_maps_def by blast

lemma adds_maps_0: "(\<And>v. translate m' root v = translate m root v) \<Longrightarrow> adds_maps root m a 0 pa perm m'"
  by (auto simp: adds_maps_def)

lemma adds_maps_Suc:
  assumes "adds_maps root m a 1 pa perm m1" and "adds_maps root m1 (a + PGSIZE) k (pa + PGSIZE) perm m2" and "a < MAXVA"
  shows "adds_maps root m a (Suc k) pa perm m2"
  unfolding adds_maps_def
proof (intro allI impI)
  fix v assume v: "v < MAXVA"
  note n = vpn_next [OF assms(3)]
  have 1: "translate m1 root v = (if vpn v = vpn a then Some (PA2PTE pa OR perm OR PTE_V) else translate m root v)"
  proof -
    have "vpn a \<le> vpn v \<and> vpn v < vpn a + 1 \<longleftrightarrow> vpn v = vpn a" by auto
    then show ?thesis using adds_mapsD [OF assms(1) v] by simp
  qed
  have 2: "translate m2 root v = (if Suc (vpn a) \<le> vpn v \<and> vpn v < Suc (vpn a) + k
      then Some (PA2PTE (pa + PGSIZE + of_nat (4096 * (vpn v - Suc (vpn a)))) OR perm OR PTE_V) else translate m1 root v)"
    using adds_mapsD [OF assms(2) v] unfolding n .
  have 3: "pa + PGSIZE + of_nat (4096 * (vpn v - Suc (vpn a))) = pa + of_nat (4096 * (vpn v - vpn a))"
    if le: "Suc (vpn a) \<le> vpn v"
  proof -
    obtain j where j: "vpn v = Suc (vpn a) + j" using le_Suc_ex [OF le] by blast
    have "4096 * (vpn v - Suc (vpn a)) = 4096 * j" "4096 * (vpn v - vpn a) = 4096 + 4096 * j" unfolding j by simp_all
    then show ?thesis by (simp only: of_nat_add) (simp add: PGSIZE_def)
  qed
  show "translate m2 root v = (if vpn a \<le> vpn v \<and> vpn v < vpn a + Suc k
      then Some (PA2PTE (pa + of_nat (4096 * (vpn v - vpn a))) OR perm OR PTE_V) else translate m root v)"
  proof (cases "Suc (vpn a) \<le> vpn v \<and> vpn v < Suc (vpn a) + k")
    case True
    then have le: "Suc (vpn a) \<le> vpn v" and c: "vpn a \<le> vpn v \<and> vpn v < vpn a + Suc k" by simp_all
    show ?thesis unfolding 2 if_P [OF True] if_P [OF c] 3 [OF le] by (rule refl)
  next
    case False
    then have "vpn a \<le> vpn v \<and> vpn v < vpn a + Suc k \<longleftrightarrow> vpn v = vpn a" by auto
    then show ?thesis unfolding 2 if_not_P [OF False] 1 by simp
  qed
qed

lemma entry_valid: "(x OR perm OR PTE_V) AND PTE_V \<noteq> (0 :: u64)"
proof -
  have "bit ((x OR perm OR PTE_V) AND PTE_V) 0" by (simp add: PTE_V_def bit_simps)
  then show ?thesis by (metis bit_0_eq bot_apply bot_bool_def)
qed

section \<open>Mapping a range\<close>

definition unmapped :: "mem \<Rightarrow> u64 \<Rightarrow> u64 \<Rightarrow> nat \<Rightarrow> bool" where
  "unmapped m root a n \<longleftrightarrow> (\<forall>v < MAXVA. vpn a \<le> vpn v \<and> vpn v < vpn a + n \<longrightarrow> translate m root v = None)"

lemma unmapped_step:
  assumes "unmapped m root a (Suc (Suc n))" and "adds_maps root m a 1 pa perm m1" and "a < MAXVA"
  shows "unmapped m1 root (a + PGSIZE) (Suc n)"
  using assms(1,2) vpn_next [OF assms(3)] by (auto simp: unmapped_def adds_maps_def)

text \<open>What mapping promises: either all pages are mapped, or memory ran out after some of them.\<close>

definition mapped :: "u64 \<Rightarrow> u64 \<Rightarrow> nat \<Rightarrow> u64 \<Rightarrow> u64 \<Rightarrow> 'z kmem_scheme \<Rightarrow> u64 list \<Rightarrow> int \<Rightarrow> 'z kmem_scheme \<Rightarrow> u64 list \<Rightarrow> bool" where
  "mapped root a n pa perm s us r t qs \<longleftrightarrow> pt_inv t root qs \<and> extends root s us t \<and>
     length us \<le> 2 * n \<and> (r = 0 \<and> adds_maps root (memory s) a n pa perm (memory t) \<or>
      r = -1 \<and> qs = [] \<and> length us < 2 * n \<and> (\<exists>k < n. adds_maps root (memory s) a k pa perm (memory t)))"

lemma mapped_Suc:
  assumes "extends root s us t" and "adds_maps root (memory s) a 1 pa perm (memory t)" and "a < MAXVA" and "length us \<le> 2"
    and "mapped root (a + PGSIZE) n (pa + PGSIZE) perm t vs r u qs"
  shows "mapped root a (Suc n) pa perm s (us @ vs) r u qs"
proof -
  have "extends root s (us @ vs) u" using extends_trans assms(1,5) by (auto simp: mapped_def)
  moreover have "adds_maps root (memory s) a (Suc k) pa perm (memory u)"
    if "adds_maps root (memory t) (a + PGSIZE) k (pa + PGSIZE) perm (memory u)" for k
    using adds_maps_Suc [OF assms(2) that assms(3)] .
  moreover have "length (us @ vs) \<le> 2 * Suc n" "length vs < 2 * n \<Longrightarrow> length (us @ vs) < 2 * Suc n"
    using assms(4,5) by (simp_all add: mapped_def)
  ultimately show ?thesis using assms(5) unfolding mapped_def by (metis Suc_less_eq)
qed

lemma map_one:
  assumes inv: "pt_inv s root ps" and a: "a < MAXVA" and none: "translate (memory s) root a = None"
  obtains us qs p t u where "ps = us @ qs" "walk root a True s = Ok p t" "extends root s us t" "pt_inv t root qs" "length us \<le> 2"
    "p = 0 \<and> length us < 2 \<and> qs = [] \<and> adds_maps root (memory s) a 0 pa perm (memory t) \<or>
     p \<noteq> 0 \<and> load64 (memory t) p AND PTE_V = 0 \<and> u = t\<lparr>memory := store64 (memory t) p (PA2PTE pa OR perm OR PTE_V)\<rparr> \<and>
     pt_inv u root qs \<and> extends root s us u \<and> adds_maps root (memory s) a 1 pa perm (memory u)"
proof -
  obtain p t us qs where w: "walk root a True s = Ok p t" "ps = us @ qs" "walked 2 root a s us p t qs"
    using walk_alloc [OF inv a] by blast
  have t: "pt_inv t root qs" "extends root s us t" "length us \<le> 2" "\<And>v. translate (memory t) root v = translate (memory s) root v"
    using w(3) by (simp_all add: walked_def)
  show ?thesis
  proof (cases "p = 0")
    case True
    then have "qs = []" "length us < 2" using w(3) by (simp_all add: walked_def)
    then show ?thesis using that [OF w(2,1) t(2,1,3)] True adds_maps_0 [OF t(4)] by blast
  next
    case False
    then obtain q where q: "tbl (memory t) root a 2 = Some q" "p = slot q (px 0 a)"
      using w(3) by (auto simp: walked_def)
    let ?u = "t\<lparr>memory := store64 (memory t) p (PA2PTE pa OR perm OR PTE_V)\<rparr>"
    have "translate (memory t) root a = None" using t(4) none by simp
    then have e: "load64 (memory t) p AND PTE_V = 0" using q by (auto simp: translate_def Let_def split: if_splits)
    have u: "pt_inv ?u root qs" "extends root t [] ?u"
        "translate (memory ?u) root w = (if prefix_eq 3 a w then Some (PA2PTE pa OR perm OR PTE_V) else translate (memory t) root w)" for w
      using pt_inv_leaf [OF t(1) q(1), of ?u "PA2PTE pa OR perm OR PTE_V"] q(2) entry_valid by simp_all
    have "adds_maps root (memory s) a 1 pa perm (memory ?u)"
      unfolding adds_maps_def using u(3) t(4) prefix_eq_vpn [OF a] by (auto simp: le_less_Suc_eq)
    moreover have "extends root s us ?u" using extends_trans [OF t(2) u(2)] by simp
    ultimately show ?thesis using that [OF w(2,1) t(2,1,3)] False e u(1) by blast
  qed
qed

lemma mappages_loop_maps:
  assumes "pt_inv s root ps" and "unat a + 4096 * n < 2 ^ 38" and "unmapped (memory s) root a (Suc n)"
  shows "\<exists>r t us qs. mappages_loop root a (a + of_nat (4096 * n)) pa perm s = Ok r t \<and> ps = us @ qs \<and>
     mapped root a (Suc n) pa perm s us r t qs"
  using assms
proof (induction n arbitrary: s ps a pa)
  case (0 s ps a pa)
  then have a: "a < MAXVA" by (simp add: word_less_nat_alt unat_MAXVA)
  have none: "translate (memory s) root a = None" using 0(3) a by (simp add: unmapped_def)
  obtain us qs p t u where ps: "ps = us @ qs" and w: "walk root a True s = Ok p t" and t: "extends root s us t" "pt_inv t root qs" "length us \<le> 2"
    and u: "p = 0 \<and> length us < 2 \<and> qs = [] \<and> adds_maps root (memory s) a 0 pa perm (memory t) \<or>
     p \<noteq> 0 \<and> load64 (memory t) p AND PTE_V = 0 \<and> u = t\<lparr>memory := store64 (memory t) p (PA2PTE pa OR perm OR PTE_V)\<rparr> \<and>
     pt_inv u root qs \<and> extends root s us u \<and> adds_maps root (memory s) a 1 pa perm (memory u)"
    by (rule map_one [OF 0(1) a none])
  let ?r = "if p = 0 then - 1 else 0 :: int"
  have "mappages_loop root a (a + of_nat (4096 * 0)) pa perm s = Ok ?r (if p = 0 then t else u)"
    using w u by (subst mappages_loop.simps) (auto simp: Let_def)
  moreover have "mapped root a (Suc 0) pa perm s us ?r (if p = 0 then t else u) qs"
    using t u by (auto simp: mapped_def)
  ultimately show ?case using ps by blast
next
  case (Suc n s ps a pa)
  then have a: "a < MAXVA" by (simp add: word_less_nat_alt unat_MAXVA)
  have none: "translate (memory s) root a = None" using Suc(4) a by (simp add: unmapped_def)
  obtain us qs p t u where ps: "ps = us @ qs" and w: "walk root a True s = Ok p t" and t: "extends root s us t" "pt_inv t root qs" "length us \<le> 2"
    and u: "p = 0 \<and> length us < 2 \<and> qs = [] \<and> adds_maps root (memory s) a 0 pa perm (memory t) \<or>
     p \<noteq> 0 \<and> load64 (memory t) p AND PTE_V = 0 \<and> u = t\<lparr>memory := store64 (memory t) p (PA2PTE pa OR perm OR PTE_V)\<rparr> \<and>
     pt_inv u root qs \<and> extends root s us u \<and> adds_maps root (memory s) a 1 pa perm (memory u)"
    by (rule map_one [OF Suc(2) a none])
  have "of_nat (4096 * Suc n) \<noteq> (0 :: u64)"
    using Suc(3) u64_of_nat_inj [of "4096 * Suc n" 0] by (simp del: of_nat_mult of_nat_Suc)
  then have ne: "a \<noteq> a + of_nat (4096 * Suc n)" by (simp del: of_nat_mult of_nat_Suc)
  have fin: "a + of_nat (4096 * Suc n) = a + PGSIZE + of_nat (4096 * n)" by (simp add: PGSIZE_def)
  show ?case
  proof (cases "p = 0")
    case True
    then have "mappages_loop root a (a + of_nat (4096 * Suc n)) pa perm s = Ok (-1) t"
      using w by (subst mappages_loop.simps) simp
    moreover have "mapped root a (Suc (Suc n)) pa perm s us (-1) t qs" using t u True by (auto simp: mapped_def)
    ultimately show ?thesis using ps by blast
  next
    case False
    then have u': "load64 (memory t) p AND PTE_V = 0" "u = t\<lparr>memory := store64 (memory t) p (PA2PTE pa OR perm OR PTE_V)\<rparr>"
      "pt_inv u root qs" "extends root s us u" "adds_maps root (memory s) a 1 pa perm (memory u)" using u by blast+
    have nx: "unat (a + PGSIZE) + 4096 * n < 2 ^ 38" using Suc(3) unat_next_page [OF a] by simp
    obtain r v vs rs where v: "mappages_loop root (a + PGSIZE) (a + PGSIZE + of_nat (4096 * n)) (pa + PGSIZE) perm u = Ok r v"
        "qs = vs @ rs" "mapped root (a + PGSIZE) (Suc n) (pa + PGSIZE) perm u vs r v rs"
      using Suc.IH [OF u'(3) nx unmapped_step [OF Suc(4) u'(5) a]] by blast
    define fi where "fi = a + of_nat (4096 * Suc n)"
    have "mappages_loop root a fi pa perm s = Ok r v"
      using w False u'(1,2) v(1) ne unfolding fin [symmetric] fi_def [symmetric]
      by (subst mappages_loop.simps) (simp add: Let_def)
    then show ?thesis using mapped_Suc [OF u'(4,5) a t(3) v(3)] ps v(2) unfolding fi_def by (metis append_assoc)
  qed
qed

end
