(* ===== verification/Usermem.thy ===== *)
theory Usermem
  imports Addrspace
begin

text \<open>
  User memory as the bytes a process sees. \<open>umem m root va\<close> is the byte at a user
  address, read through the page table; \<open>uspace\<close> is the invariant of an address space
  whose user frames are its own. \<^verbatim>\<open>copyin\<close> and \<^verbatim>\<open>copyinstr\<close> read this map,
  \<^verbatim>\<open>copyout\<close> updates it, and each stops exactly at the first byte it may not touch.
\<close>

section \<open>Addresses inside a page\<close>

definition page_off :: "u64 \<Rightarrow> u64" where
  "page_off va = va - PGROUNDDOWN va"

lemma unat_page_off: "unat (page_off va) = unat va mod 4096"
  unfolding page_off_def by (rule page_offset)

lemma unat_in_page:
  fixes va :: u64
  assumes "unat va mod 4096 + i < 4096"
  shows "unat (va + of_nat i) = unat va + i"
proof -
  have lt: "unat va < 2 ^ 64" using unat_lt_two_power [of va] by simp
  have "unat va < 2 ^ 52 * 4096" by (rule order_less_le_trans [OF lt]) simp
  then have "unat va div 4096 < 2 ^ 52" by (rule less_mult_imp_div_less)
  then have "4096 * (unat va div 4096) + 4096 \<le> 2 ^ 64" by simp
  moreover have "unat va = 4096 * (unat va div 4096) + unat va mod 4096" by simp
  ultimately have "unat va + i < 2 ^ 64" using assms by linarith
  then show ?thesis using assms by (simp add: unat_word_ariths unat_of_nat)
qed

lemma div_in_page: "(a :: nat) mod k + i < k \<Longrightarrow> (a + i) div k = a div k"
proof -
  assume lt: "a mod k + i < k"
  define q r where "q = a div k" and "r = a mod k"
  then have a: "a = q * k + r" by simp
  have "(q * k + (r + i)) div k = q" using lt unfolding r_def [symmetric] by simp
  then show ?thesis unfolding q_def [symmetric] by (subst a) (simp only: add.assoc)
qed

lemma vpn_in_page: "unat va mod 4096 + i < 4096 \<Longrightarrow> vpn (va + of_nat i) = vpn va"
  by (simp add: vpn_def unat_in_page div_in_page)

lemma PGROUNDDOWN_in_page:
  assumes "unat va mod 4096 + i < 4096"
  shows "PGROUNDDOWN (va + of_nat i) = PGROUNDDOWN va"
  using vpn_in_page [OF assms] by (simp add: word_unat_eq_iff unat_PGROUNDDOWN vpn_def)

lemma PGROUNDDOWN_below: "PGROUNDDOWN va < MAXVA \<longleftrightarrow> va < MAXVA"
proof -
  have "unat va div 4096 * 4096 < 2 ^ 38 \<longleftrightarrow> unat va < 2 ^ 38" by auto
  then show ?thesis by (simp add: word_less_nat_alt unat_PGROUNDDOWN unat_MAXVA)
qed

lemma in_page_below: "unat va mod 4096 + i < 4096 \<Longrightarrow> va + of_nat i < MAXVA \<longleftrightarrow> va < MAXVA"
  using PGROUNDDOWN_below PGROUNDDOWN_in_page by metis

lemma vpn_PGROUNDDOWN [simp]: "vpn (PGROUNDDOWN va) = vpn va"
  by (simp add: vpn_def unat_PGROUNDDOWN)

lemma translate_vpn: "vpn v = vpn w \<Longrightarrow> translate m root v = translate m root w"
  unfolding vpn_def by (rule translate_prefix) (rule prefix_eq_page)

section \<open>The bytes a user sees\<close>

definition uframe :: "mem \<Rightarrow> u64 \<Rightarrow> u64 \<Rightarrow> u64 option" where
  "uframe m root va =
     (if va < MAXVA
      then case translate m root va of
             None \<Rightarrow> None
           | Some e \<Rightarrow> if e AND PTE_U \<noteq> 0 then Some (PTE2PA e) else None
      else None)"

definition umem :: "mem \<Rightarrow> u64 \<Rightarrow> u64 \<Rightarrow> u8 option" where
  "umem m root va = (case uframe m root va of None \<Rightarrow> None | Some f \<Rightarrow> Some (m (f + page_off va)))"

definition uwritable :: "mem \<Rightarrow> u64 \<Rightarrow> u64 \<Rightarrow> bool" where
  "uwritable m root va \<longleftrightarrow> va < MAXVA \<and>
     (\<exists>e. translate m root va = Some e \<and> e AND PTE_U \<noteq> 0 \<and> e AND PTE_W \<noteq> 0)"

definition uspace :: "'z kmem_scheme \<Rightarrow> u64 \<Rightarrow> u64 list \<Rightarrow> bool" where
  "uspace s root ps \<longleftrightarrow> pt_inv s root ps \<and>
     (\<forall>v f. uframe (memory s) root v = Some f \<longrightarrow> kpage s f \<and> f \<notin> tables (memory s) root \<and> f \<notin> set ps) \<and>
     (\<forall>v w f. uframe (memory s) root v = Some f \<and> uframe (memory s) root w = Some f \<longrightarrow> vpn v = vpn w)"

lemma uframe_page: "vpn v = vpn w \<Longrightarrow> uframe m root v = uframe m root w"
proof -
  assume eq: "vpn v = vpn w"
  then have "PGROUNDDOWN v = PGROUNDDOWN w" by (simp add: word_unat_eq_iff unat_PGROUNDDOWN vpn_def)
  then have "v < MAXVA \<longleftrightarrow> w < MAXVA" using PGROUNDDOWN_below by metis
  then show ?thesis using translate_vpn [OF eq] by (simp add: uframe_def)
qed

lemma umem_in_page:
  assumes "unat va mod 4096 + i < 4096"
  shows "umem m root (va + of_nat i) =
    (case uframe m root va of None \<Rightarrow> None | Some f \<Rightarrow> Some (m (f + page_off va + of_nat i)))"
proof -
  have "page_off (va + of_nat i) = page_off va + of_nat i"
    by (simp add: page_off_def PGROUNDDOWN_in_page [OF assms])
  then show ?thesis
    using uframe_page [OF vpn_in_page [OF assms]] by (simp add: umem_def ac_simps split: option.split)
qed

lemma walkaddr_uframe:
  assumes "free_pages s ps" and "\<And>p. p \<in> tables (memory s) root \<Longrightarrow> kpage s p"
  shows "walkaddr root va s = Ok (case uframe (memory s) root va of None \<Rightarrow> 0 | Some f \<Rightarrow> f) s"
proof (cases "va < MAXVA")
  case True
  show ?thesis
  proof (cases "tbl (memory s) root va 2")
    case None
    then show ?thesis using True walk_read [OF True, of root s]
      by (simp add: walkaddr_def uframe_def translate_def not_le)
  next
    case (Some q)
    then have "slot q (px 0 va) \<noteq> 0" using assms slot_nonzero [of s ps q] tbl_in_tables [OF Some] by simp
    moreover have "\<not> MAXVA \<le> va" using True by (simp add: not_le)
    ultimately show ?thesis using True Some walk_read [OF True, of root s]
      by (simp add: walkaddr_def uframe_def translate_def Let_def)
  qed
next
  case False
  then show ?thesis by (simp add: walkaddr_def uframe_def not_le)
qed

section \<open>Reading\<close>

lemma uspaceD:
  assumes "uspace s root ps"
  shows "pt_inv s root ps" "free_pages s ps" "\<And>p. p \<in> tables (memory s) root \<Longrightarrow> kpage s p"
    "\<And>v f. uframe (memory s) root v = Some f \<Longrightarrow> kpage s f \<and> f \<notin> tables (memory s) root \<and> f \<notin> set ps \<and> f \<noteq> 0"
  using assms kpage_nonzero [of s] by (auto simp: uspace_def pt_inv_def pt_wf_def free_pages_def)

lemma uspace_walkaddr:
  assumes "uspace s root ps"
  shows "walkaddr root (PGROUNDDOWN va) s = Ok (case uframe (memory s) root va of None \<Rightarrow> 0 | Some f \<Rightarrow> f) s"
  using walkaddr_uframe [OF uspaceD(2,3) [OF assms]] uframe_page [of "PGROUNDDOWN va" va] by simp

text \<open>The bytes from \<open>va\<close> that are mapped for the user, up to \<open>n\<close> of them.\<close>

fun urun :: "mem \<Rightarrow> u64 \<Rightarrow> u64 \<Rightarrow> nat \<Rightarrow> u8 list" where
  "urun m root va 0 = []"
| "urun m root va (Suc n) = (case umem m root va of None \<Rightarrow> [] | Some b \<Rightarrow> b # urun m root (va + 1) n)"

lemma urun_length: "length (urun m root va n) \<le> n"
  by (induction n arbitrary: va) (auto split: option.split)

lemma urun_unmapped: "umem m root va = None \<Longrightarrow> urun m root va n = []"
  by (cases n) auto

lemma urun_page:
  assumes "uframe m root va = Some f" and "unat va mod 4096 + k \<le> 4096"
  shows "urun m root va (k + n) = read_bytes m (f + page_off va) k @ urun m root (va + of_nat k) n"
  using assms
proof (induction k arbitrary: va)
  case 0
  then show ?case by simp
next
  case (Suc k)
  have "umem m root va = Some (m (f + page_off va))" using Suc.prems(1) by (simp add: umem_def)
  moreover have "urun m root (va + 1) (k + n) = read_bytes m (f + page_off va + 1) k @ urun m root (va + 1 + of_nat k) n"
  proof (cases k)
    case 0
    then show ?thesis by simp
  next
    case (Suc j)
    then have lt: "unat va mod 4096 + 1 < 4096" using Suc.prems(2) by simp
    have "uframe m root (va + 1) = Some f" using uframe_page [OF vpn_in_page [OF lt]] Suc.prems(1) by simp
    moreover have "unat (va + 1) mod 4096 = unat va mod 4096 + 1"
      using unat_in_page [OF lt] lt by (simp add: mod_Suc)
    moreover have "page_off (va + 1) = page_off va + 1" using PGROUNDDOWN_in_page [OF lt] by (simp add: page_off_def)
    ultimately show ?thesis using Suc.IH [of "va + 1"] Suc.prems(2) by (simp add: ac_simps)
  qed
  ultimately show ?case by (simp add: ac_simps)
qed

lemma next_page_room: "PGROUNDDOWN va + PGSIZE = va + of_nat (4096 - unat va mod 4096)"
proof -
  have "unat (page_off va) = unat va mod 4096" by (rule unat_page_off)
  then have "page_off va = of_nat (unat va mod 4096)" by (metis of_nat_unat ucast_id)
  moreover have "of_nat (4096 - unat va mod 4096) = PGSIZE - of_nat (unat va mod 4096)"
    by (subst of_nat_diff) (simp_all add: PGSIZE_def less_imp_le)
  ultimately show ?thesis by (simp add: page_off_def algebra_simps)
qed

text \<open>One round of a copy loop: the rest of the page, or all that is left.\<close>

lemma urun_round:
  fixes va :: u64
  assumes "uframe m root va = Some f" and "n = min (4096 - unat va mod 4096) len"
  shows "urun m root va len = read_bytes m (f + page_off va) n @ urun m root (PGROUNDDOWN va + PGSIZE) (len - n)"
proof -
  have le: "n \<le> len" "unat va mod 4096 + n \<le> 4096" using assms(2) by auto
  have "urun m root va (n + (len - n)) = read_bytes m (f + page_off va) n @ urun m root (va + of_nat n) (len - n)"
    by (rule urun_page [OF assms(1) le(2)])
  moreover have "urun m root (va + of_nat n) (len - n) = urun m root (PGROUNDDOWN va + PGSIZE) (len - n)"
  proof (cases "n = len")
    case True
    then show ?thesis by simp
  next
    case False
    then have "n = 4096 - unat va mod 4096" using assms(2) by auto
    then show ?thesis by (simp only: next_page_room)
  qed
  ultimately show ?thesis using le(1) by simp
qed

lemma copyin_loop_reads:
  assumes "uspace s root ps"
  shows "copyin_loop root dst va len s =
    (let run = urun (memory s) root va len in Ok (if length run = len then 0 else -1, dst @ run) s)"
proof (induction len arbitrary: dst va rule: less_induct)
  case (less len)
  show ?case
  proof (cases "len = 0")
    case True
    then show ?thesis by (subst copyin_loop.simps) simp
  next
    case ne: False
    show ?thesis
    proof (cases "uframe (memory s) root va")
      case None
      then have "urun (memory s) root va len = []" by (intro urun_unmapped) (simp add: umem_def)
      then show ?thesis using None ne uspace_walkaddr [OF assms, of va] by (subst copyin_loop.simps) (simp add: Let_def)
    next
      case (Some f)
      then have f0: "f \<noteq> 0" using uspaceD(4) [OF assms] by blast
      define n where "n = min (4096 - unat va mod 4096) len"
      have n: "min (unat (PGSIZE - (va - PGROUNDDOWN va))) len = n" by (simp add: n_def page_room)
      have lt: "len - n < len" using ne by (simp add: n_def)
      let ?b = "read_bytes (memory s) (f + page_off va) n"
      have "copyin_loop root dst va len s = copyin_loop root (dst @ ?b) (PGROUNDDOWN va + PGSIZE) (len - n) s"
        using ne f0 Some uspace_walkaddr [OF assms, of va] n
        by (subst copyin_loop.simps) (simp add: Let_def flip: page_off_def)
      moreover have "n \<le> len" by (simp add: n_def)
      ultimately show ?thesis unfolding less.IH [OF lt] urun_round [OF Some n_def] by (auto simp: Let_def)
    qed
  qed
qed

lemma copyinstr_page_scan:
  "copyinstr_page m p n dst = (let run = read_bytes m p n in
     if 0 \<in> set run then (True, dst @ takeWhile (\<lambda>b. b \<noteq> 0) run @ [0]) else (False, dst @ run))"
  by (induction n arbitrary: p dst) (auto simp: Let_def)

lemma copyinstr_loop_reads:
  assumes "uspace s root ps"
  shows "copyinstr_loop root dst va mx s =
    (let run = urun (memory s) root va mx in
     if 0 \<in> set run then Ok (0, dst @ takeWhile (\<lambda>b. b \<noteq> 0) run @ [0]) s else Ok (-1, dst @ run) s)"
proof (induction mx arbitrary: dst va rule: less_induct)
  case (less len)
  show ?case
  proof (cases "len = 0")
    case True
    then show ?thesis by (subst copyinstr_loop.simps) simp
  next
    case ne: False
    show ?thesis
    proof (cases "uframe (memory s) root va")
      case None
      then have "urun (memory s) root va len = []" by (intro urun_unmapped) (simp add: umem_def)
      then show ?thesis using None ne uspace_walkaddr [OF assms, of va] by (subst copyinstr_loop.simps) (simp add: Let_def)
    next
      case (Some f)
      then have f0: "f \<noteq> 0" using uspaceD(4) [OF assms] by blast
      define n where "n = min (4096 - unat va mod 4096) len"
      have n: "min (unat (PGSIZE - (va - PGROUNDDOWN va))) len = n" by (simp add: n_def page_room)
      have lt: "len - n < len" using ne by (simp add: n_def)
      let ?b = "read_bytes (memory s) (f + page_off va) n"
      have "copyinstr_loop root dst va len s =
          (if 0 \<in> set ?b then Ok (0, dst @ takeWhile (\<lambda>b. b \<noteq> 0) ?b @ [0]) s
           else copyinstr_loop root (dst @ ?b) (PGROUNDDOWN va + PGSIZE) (len - n) s)"
        using ne f0 Some uspace_walkaddr [OF assms, of va] n
        by (subst copyinstr_loop.simps) (simp add: Let_def copyinstr_page_scan flip: page_off_def)
      then show ?thesis unfolding less.IH [OF lt] urun_round [OF Some n_def]
        by (auto simp: Let_def takeWhile_append)
    qed
  qed
qed

section \<open>Writing\<close>

text \<open>
  The effect of storing \<open>cs\<close> at user address \<open>va\<close>: these bytes change, no other user byte does, no
  translation does, and only user frames are written.
\<close>

definition stored :: "u64 \<Rightarrow> u64 list \<Rightarrow> u64 \<Rightarrow> u8 list \<Rightarrow> 'z kmem_scheme \<Rightarrow> 'z kmem_scheme \<Rightarrow> bool" where
  "stored root ps va cs s t \<longleftrightarrow> uspace t root ps \<and> t = s\<lparr>memory := memory t\<rparr> \<and>
     (\<forall>v. translate (memory t) root v = translate (memory s) root v) \<and>
     (\<forall>v. umem (memory t) root v =
        (if unat (v - va) < length cs then Some (cs ! unat (v - va)) else umem (memory s) root v)) \<and>
     (\<forall>x. (\<forall>v f. uframe (memory s) root v = Some f \<longrightarrow> \<not> in_range x f 4096) \<longrightarrow> memory t x = memory s x)"

lemma uframe_translate:
  "(\<And>v. translate m' root v = translate m root v) \<Longrightarrow> uframe m' root v = uframe m root v"
  by (simp add: uframe_def)

lemma in_subrange:
  assumes "in_range x (f + of_nat o1) n" and "o1 + n \<le> 4096"
  shows "in_range x f 4096"
proof -
  obtain i where i: "i < n" "x = f + of_nat o1 + of_nat i"
    using assms in_range_iff_offset [of n x "f + of_nat o1"] by auto
  then have "x = f + of_nat (o1 + i)" "o1 + i < 4096" using assms(2) by (simp_all add: ac_simps)
  then show ?thesis using in_range_offset [of "o1 + i" 4096 f] by simp
qed

lemma page_off_of_nat: "page_off va = of_nat (unat va mod 4096)"
  using unat_page_off [of va] by (metis of_nat_unat ucast_id)

lemma uspace_memory:
  assumes "uspace s root ps" and "t = s\<lparr>memory := m\<rparr>"
    and "\<And>x. \<not> in_range x f 4096 \<Longrightarrow> m x = memory s x" and "uframe (memory s) root va = Some f"
  shows "uspace t root ps" and "translate m root v = translate (memory s) root v"
proof -
  note U = uspaceD [OF assms(1)]
  have f: "kpage s f" "f \<notin> tables (memory s) root" "f \<notin> set ps" using U(4) assms(4) by blast+
  have off: "m x = memory s x" if "p \<in> tables (memory s) root" "in_range x p 4096" for p x
    using that kpages_disjoint [OF U(3) f(1), of p x] f(2) assms(3) by blast
  have al: "page_aligned p" if "p \<in> tables (memory s) root" for p using U(3) [OF that] by simp
  have tr: "translate m root v = translate (memory s) root v" for v by (rule translate_cong) (use off al in blast)+
  then show "translate m root v = translate (memory s) root v" .
  have tb: "tables m root = tables (memory s) root" "pt_tree m root = pt_tree (memory s) root"
    by (rule tables_cong; use off al in blast)+
  have "free_pages t ps" unfolding assms(2)
  proof (rule free_pages_memory [OF U(2)])
    fix a x assume "a \<in> set ps" "in_range x a 4096"
    then show "m x = memory s x"
      using assms(3) kpages_disjoint [of s a f x] f U(2) by (auto simp: free_pages_def)
  qed
  then show "uspace t root ps"
    using assms(1,2) tb uframe_translate [of m root "memory s"] tr
    by (simp add: uspace_def pt_inv_def pt_wf_def kpage_update)
qed

lemma stored_page:
  assumes U: "uspace s root ps" and f: "uframe (memory s) root va = Some f"
    and room: "unat va mod 4096 + length cs \<le> 4096"
    and t: "t = s\<lparr>memory := write_bytes (memory s) (f + page_off va) cs\<rparr>"
  shows "stored root ps va cs s t"
proof -
  let ?m = "write_bytes (memory s) (f + page_off va) cs"
  have len: "length cs \<le> 2 ^ 64" using room by simp
  have out: "?m x = memory s x" if "\<not> in_range x f 4096" for x
    using that in_subrange [of x f "unat va mod 4096" "length cs"] room write_bytes_apply [OF len]
    by (auto simp: page_off_of_nat)
  have tr: "translate ?m root v = translate (memory s) root v" and sp: "uspace t root ps" for v
    using uspace_memory [OF U t out f] by blast+
  have fr: "uframe ?m root v = uframe (memory s) root v" for v by (rule uframe_translate [OF tr])
  have new: "umem ?m root v = (if unat (v - va) < length cs then Some (cs ! unat (v - va)) else umem (memory s) root v)" for v
  proof (cases "vpn v = vpn va")
    case True
    then have g: "PGROUNDDOWN v = PGROUNDDOWN va" by (simp add: word_unat_eq_iff unat_PGROUNDDOWN vpn_def)
    have "uframe (memory s) root v = Some f" using uframe_page [OF True] f by simp
    moreover have "f + page_off v - (f + page_off va) = v - va" by (simp add: page_off_def g)
    ultimately show ?thesis using fr write_bytes_apply [OF len] by (simp add: umem_def in_range_def)
  next
    case False
    have "\<not> unat (v - va) < length cs"
    proof
      assume lt: "unat (v - va) < length cs"
      have "v = va + of_nat (unat (v - va))" by simp
      moreover have "vpn (va + of_nat (unat (v - va))) = vpn va" using lt room by (intro vpn_in_page) simp
      ultimately show False using False by simp
    qed
    moreover have "umem ?m root v = umem (memory s) root v"
    proof (cases "uframe (memory s) root v")
      case None
      then show ?thesis using fr by (simp add: umem_def)
    next
      case (Some f')
      then have "f' \<noteq> f" using False f U unfolding uspace_def by blast
      moreover have "in_range (f' + page_off v) f' 4096"
        using in_range_offset [of "unat v mod 4096" 4096 f'] by (simp add: page_off_of_nat)
      ultimately have "\<not> in_range (f' + page_off v) f 4096"
        using kpages_disjoint [of s f' f] uspaceD(4) [OF U Some] uspaceD(4) [OF U f] by blast
      then show ?thesis using Some fr out by (simp add: umem_def)
    qed
    ultimately show ?thesis by simp
  qed
  show ?thesis unfolding stored_def using sp tr new out f by (auto simp: t)
qed

lemma stored_append:
  assumes "stored root ps va cs s t" and "stored root ps (va + of_nat (length cs)) ds t u" and "length cs + length ds < 2 ^ 64"
  shows "stored root ps va (cs @ ds) s u"
proof -
  have tr: "translate (memory u) root v = translate (memory s) root v" for v using assms(1,2) by (simp add: stored_def)
  have um: "umem (memory u) root v = (if unat (v - va) < length (cs @ ds) then Some ((cs @ ds) ! unat (v - va))
      else umem (memory s) root v)" for v
  proof -
    let ?d = "v - va" and ?n = "length cs"
    have e: "v - (va + of_nat ?n) = ?d - of_nat ?n" by simp
    have n: "unat (of_nat ?n :: u64) = ?n" using assms(3) by (intro unat_of_nat_small) simp
    have 2: "umem (memory u) root v = (if unat (?d - of_nat ?n) < length ds then Some (ds ! unat (?d - of_nat ?n))
        else umem (memory t) root v)"
      using assms(2) unfolding stored_def e [symmetric] by blast
    have 1: "umem (memory t) root v = (if unat ?d < ?n then Some (cs ! unat ?d) else umem (memory s) root v)"
      using assms(1) unfolding stored_def by blast
    show ?thesis
    proof (cases "unat ?d < ?n")
      case True
      have "\<not> unat (?d - of_nat ?n) < length ds"
      proof
        assume "unat (?d - of_nat ?n) < length ds"
        then have "unat (?d - of_nat ?n + of_nat ?n) = unat (?d - of_nat ?n) + ?n"
          using assms(3) n by (subst unat_add_noov) simp_all
        then show False using True by simp
      qed
      then show ?thesis using 1 2 True assms(3) by (simp add: nth_append)
    next
      case False
      then have "unat (?d - of_nat ?n) = unat ?d - ?n" using n by (simp add: unat_sub word_le_nat_alt)
      then show ?thesis using 1 2 False by (auto simp: nth_append)
    qed
  qed
  have fr: "uframe (memory t) root v = uframe (memory s) root v" for v
    using assms(1) by (intro uframe_translate) (simp add: stored_def)
  have out: "memory u x = memory s x" if "\<forall>v f. uframe (memory s) root v = Some f \<longrightarrow> \<not> in_range x f 4096" for x
    using assms(1,2) that fr unfolding stored_def by metis
  have "u = s\<lparr>memory := memory u\<rparr>" using assms(1,2) unfolding stored_def by (metis kmem.surjective kmem.update_convs(1))
  then show ?thesis using tr um out assms(2) unfolding stored_def by blast
qed

lemma uwritable_page: "vpn v = vpn w \<Longrightarrow> uwritable m root v = uwritable m root w"
proof -
  assume eq: "vpn v = vpn w"
  then have "PGROUNDDOWN v = PGROUNDDOWN w" by (simp add: word_unat_eq_iff unat_PGROUNDDOWN vpn_def)
  then have "v < MAXVA \<longleftrightarrow> w < MAXVA" using PGROUNDDOWN_below by metis
  then show ?thesis using translate_vpn [OF eq] by (simp add: uwritable_def)
qed

lemma uwritable_uframe: "uwritable m root va \<Longrightarrow> \<exists>f. uframe m root va = Some f"
  by (auto simp: uwritable_def uframe_def)

lemma copyout_round:
  assumes U: "uspace s root ps" and ne: "bs \<noteq> []" and n: "n = min (4096 - unat va mod 4096) (length bs)"
  shows "copyout root va bs s =
    (if uwritable (memory s) root va
     then copyout root (PGROUNDDOWN va + PGSIZE) (drop n bs)
       (s\<lparr>memory := write_bytes (memory s) (the (uframe (memory s) root va) + page_off va) (take n bs)\<rparr>)
     else Ok (-1) s)"
proof (cases "va < MAXVA")
  case False
  then have "MAXVA \<le> PGROUNDDOWN va" by (simp add: PGROUNDDOWN_below flip: not_less)
  moreover have "\<not> uwritable (memory s) root va" using False by (simp add: uwritable_def)
  ultimately show ?thesis using ne by (subst copyout.simps) (simp add: Let_def)
next
  case True
  let ?v = "PGROUNDDOWN va"
  have lt: "?v < MAXVA" "\<not> MAXVA \<le> ?v" using True by (simp_all add: PGROUNDDOWN_below not_le)
  have tv: "translate (memory s) root va = translate (memory s) root ?v" by (rule translate_vpn) simp
  have uw: "uwritable (memory s) root va \<longleftrightarrow>
      (\<exists>e. translate (memory s) root ?v = Some e \<and> e AND PTE_U \<noteq> 0 \<and> e AND PTE_W \<noteq> 0)"
    using True tv by (simp add: uwritable_def)
  have uf: "uframe (memory s) root va = (case translate (memory s) root ?v of
      None \<Rightarrow> None | Some e \<Rightarrow> if e AND PTE_U \<noteq> 0 then Some (PTE2PA e) else None)"
    using True tv by (simp add: uframe_def)
  have w: "walk root ?v False s = Ok (case tbl (memory s) root ?v 2 of None \<Rightarrow> 0 | Some q \<Rightarrow> slot q (px 0 ?v)) s"
    by (rule walk_read [OF lt(1)])
  have nn: "min (unat (PGSIZE - (va - ?v))) (length bs) = n" by (simp add: n page_room)
  show ?thesis
  proof (cases "tbl (memory s) root ?v 2")
    case None
    then show ?thesis using ne lt w by (subst copyout.simps) (simp add: Let_def uw translate_def)
  next
    case (Some q)
    then have nz: "slot q (px 0 ?v) \<noteq> 0"
      using uspaceD(2,3) [OF U] slot_nonzero [of s ps q] tbl_in_tables [OF Some] by simp
    let ?e = "load64 (memory s) (slot q (px 0 ?v))"
    have "uwritable (memory s) root va \<longleftrightarrow> ?e AND PTE_V \<noteq> 0 \<and> ?e AND PTE_U \<noteq> 0 \<and> ?e AND PTE_W \<noteq> 0"
      using Some by (simp add: uw translate_def Let_def)
    moreover have "uwritable (memory s) root va \<Longrightarrow> uframe (memory s) root va = Some (PTE2PA ?e)"
      using Some by (auto simp: uw uf translate_def Let_def split: if_splits)
    ultimately show ?thesis using ne lt w Some nz
      by (subst copyout.simps) (auto simp: Let_def nn page_off_def)
  qed
qed

lemma copyout_stores:
  assumes "uspace s root ps" and "length bs < 2 ^ 64"
  shows "\<exists>k t. k \<le> length bs \<and> copyout root va bs s = Ok (if k = length bs then 0 else -1) t \<and>
     stored root ps va (take k bs) s t \<and> (\<forall>i < k. uwritable (memory s) root (va + of_nat i)) \<and>
     (k < length bs \<longrightarrow> \<not> uwritable (memory s) root (va + of_nat k))"
  using assms
proof (induction "length bs" arbitrary: va bs s rule: less_induct)
  case less
  have nil: "stored root ps va [] s s" for va using less.prems(1) by (simp add: stored_def)
  show ?case
  proof (cases "bs = []")
    case True
    then show ?thesis using nil by (subst copyout.simps) auto
  next
    case ne: False
    define n where "n = min (4096 - unat va mod 4096) (length bs)"
    note step = copyout_round [OF less.prems(1) ne n_def]
    show ?thesis
    proof (cases "uwritable (memory s) root va")
      case False
      then show ?thesis using step ne nil by (intro exI [of _ 0] exI [of _ s]) simp
    next
      case True
      then obtain f where f: "uframe (memory s) root va = Some f" using uwritable_uframe by blast
      let ?t = "s\<lparr>memory := write_bytes (memory s) (f + page_off va) (take n bs)\<rparr>"
      have n: "0 < n" "n \<le> length bs" "unat va mod 4096 + n \<le> 4096" using ne by (auto simp: n_def)
      have st: "stored root ps va (take n bs) s ?t" using n by (intro stored_page [OF less.prems(1) f]) simp_all
      have tr: "translate (memory ?t) root v = translate (memory s) root v" for v using st by (simp add: stored_def)
      have uw: "uwritable (memory ?t) root v = uwritable (memory s) root v" for v using tr by (simp add: uwritable_def)
      have first: "uwritable (memory s) root (va + of_nat i)" if "i < n" for i
        using uwritable_page [OF vpn_in_page [of va i]] True n(3) that by simp
      let ?va = "PGROUNDDOWN va + PGSIZE"
      have "length (drop n bs) < length bs" "uspace ?t root ps" using n ne st by (simp_all add: stored_def)
      then obtain k u where k: "k \<le> length (drop n bs)"
          "copyout root ?va (drop n bs) ?t = Ok (if k = length (drop n bs) then 0 else -1) u"
          "stored root ps ?va (take k (drop n bs)) ?t u" "\<And>i. i < k \<Longrightarrow> uwritable (memory s) root (?va + of_nat i)"
          "k < length (drop n bs) \<Longrightarrow> \<not> uwritable (memory s) root (?va + of_nat k)"
        using less.hyps [of "drop n bs" ?t ?va] less.prems(2) unfolding uw by auto
      have va: "?va = va + of_nat n" if "n < length bs"
        using that next_page_room [of va] by (simp add: n_def min_def split: if_splits)
      have st2: "stored root ps (va + of_nat (length (take n bs))) (take k (drop n bs)) ?t u"
      proof (cases "n < length bs")
        case True
        then show ?thesis using k(3) va by simp
      next
        case False
        then have "k = 0" using k(1) by simp
        then show ?thesis using k(3) by (simp add: stored_def)
      qed
      have "stored root ps va (take (n + k) bs) s u"
        using stored_append [OF st st2] less.prems(2) k(1) n(2) by (simp add: take_add)
      moreover have "uwritable (memory s) root (va + of_nat i)" if "i < n + k" for i
      proof (cases "i < n")
        case False
        then obtain j where j: "i = n + j" by (metis le_Suc_ex not_less)
        then have "uwritable (memory s) root (?va + of_nat j)" "n < length bs" using k(1) k(4) [of j] that by simp_all
        then show ?thesis using va j by (simp add: add.assoc)
      qed (rule first)
      moreover have "\<not> uwritable (memory s) root (va + of_nat (n + k))" if "n + k < length bs"
        using k(5) va that by (simp add: add.assoc)
      moreover have "copyout root va bs s = Ok (if n + k = length bs then 0 else -1) u"
        using step True f k(1,2) n(2) by (auto split: if_splits)
      ultimately show ?thesis using k(1) n(2) by (intro exI [of _ "n + k"] exI [of _ u]) auto
    qed
  qed
qed

section \<open>Bytes delivered one at a time\<close>

text \<open>
  \<^verbatim>\<open>piperead\<close> and \<^verbatim>\<open>consoleread\<close> hand their bytes to the user one \<^verbatim>\<open>copyout\<close> each. Of the bytes
  \<open>outs\<close> the first \<open>k\<close> have been stored from \<open>va\<close> on, leaving memory \<open>m\<close>; if there is one more,
  it is the first that could not be stored.
\<close>

definition delivered :: "'z kmem_scheme \<Rightarrow> u64 \<Rightarrow> u64 \<Rightarrow> u8 list \<Rightarrow> nat \<Rightarrow> mem \<Rightarrow> bool" where
  "delivered s root va outs k m \<longleftrightarrow>
     (\<forall>ps. uspace s root ps \<longrightarrow> stored root ps va (take k outs) s (s\<lparr>memory := m\<rparr>) \<and>
        (\<forall>i < k. uwritable (memory s) root (va + of_nat i)) \<and>
        (k < length outs \<longrightarrow> \<not> uwritable (memory s) root (va + of_nat k)))"

lemma uspace_cong:
  assumes "memory s' = memory s" and "freelist s' = freelist s" and "kend s' = kend s"
  shows "uspace s' root ps = uspace s root ps"
  using assms by (simp add: uspace_def pt_inv_def pt_wf_def free_pages_def kend_ok_def kpage_def)

lemma stored_cong:
  assumes "memory s' = memory s" and "freelist s' = freelist s" and "kend s' = kend s"
  shows "stored root ps va cs s' (s'\<lparr>memory := m\<rparr>) = stored root ps va cs s (s\<lparr>memory := m\<rparr>)"
  using assms uspace_cong [of "s'\<lparr>memory := m\<rparr>" "s\<lparr>memory := m\<rparr>"] by (simp add: stored_def)

lemma delivered_cong:
  assumes "memory s' = memory s" and "freelist s' = freelist s" and "kend s' = kend s"
  shows "delivered s' root va outs k m = delivered s root va outs k m"
  using assms by (simp add: delivered_def stored_cong [OF assms] uspace_cong [OF assms])

lemma stored_Nil: "uspace s root ps \<Longrightarrow> stored root ps va [] s s"
  by (simp add: stored_def)

lemma delivered_none: "delivered s root va [] 0 (memory s)"
  by (simp add: delivered_def stored_Nil)

lemma copyout_byte:
  assumes "uspace s root ps" and "copyout root va [c] s = Ok r t"
  shows "if uwritable (memory s) root va then r = 0 \<and> stored root ps va [c] s t else r = -1 \<and> stored root ps va [] s t"
proof -
  obtain k where k: "k \<le> 1" "r = (if k = 1 then 0 else -1)" "stored root ps va (take k [c]) s t"
      "\<forall>i < k. uwritable (memory s) root (va + of_nat i)" "k < 1 \<longrightarrow> \<not> uwritable (memory s) root (va + of_nat k)"
    using copyout_stores [OF assms(1), of "[c]" va] assms(2) by auto
  then show ?thesis by (cases k) auto
qed

lemma delivered_fault:
  assumes "copyout root va [c] s = Ok (-1) (s\<lparr>memory := m\<rparr>)"
  shows "delivered s root va [c] 0 m"
  unfolding delivered_def
proof (intro allI impI)
  fix ps assume "uspace s root ps"
  from copyout_byte [OF this assms]
  show "stored root ps va (take 0 [c]) s (s\<lparr>memory := m\<rparr>) \<and>
      (\<forall>i < 0. uwritable (memory s) root (va + of_nat i)) \<and>
      (0 < length [c] \<longrightarrow> \<not> uwritable (memory s) root (va + of_nat 0))"
    by (simp split: if_splits)
qed

lemma uwritable_stored: "stored root ps va cs s t \<Longrightarrow> uwritable (memory t) root v = uwritable (memory s) root v"
  by (simp add: stored_def uwritable_def)

lemma delivered_Cons:
  assumes c: "copyout root va [c] s = Ok 0 (s\<lparr>memory := m'\<rparr>)"
    and d: "delivered (s\<lparr>memory := m'\<rparr>) root (va + 1) outs k m" and l: "length outs < 2 ^ 64 - 1" "k \<le> length outs"
  shows "delivered s root va (c # outs) (Suc k) m"
  unfolding delivered_def
proof (intro allI impI)
  fix ps assume U: "uspace s root ps"
  have w: "uwritable (memory s) root va" and st: "stored root ps va [c] s (s\<lparr>memory := m'\<rparr>)"
    using copyout_byte [OF U c] by (auto split: if_splits)
  have U': "uspace (s\<lparr>memory := m'\<rparr>) root ps" using st by (simp add: stored_def)
  have D: "stored root ps (va + 1) (take k outs) (s\<lparr>memory := m'\<rparr>) (s\<lparr>memory := m\<rparr>)"
      "\<forall>i < k. uwritable (memory s) root (va + 1 + of_nat i)"
      "k < length outs \<longrightarrow> \<not> uwritable (memory s) root (va + 1 + of_nat k)"
    using d U' uwritable_stored [OF st] by (simp_all add: delivered_def)
  have "stored root ps va ([c] @ take k outs) s (s\<lparr>memory := m\<rparr>)"
    using stored_append [OF st, of "take k outs" "s\<lparr>memory := m\<rparr>"] D(1) l by simp
  moreover have "uwritable (memory s) root (va + of_nat i)" if "i < Suc k" for i
    using w D(2) that by (cases i) (simp_all add: algebra_simps)
  ultimately show "stored root ps va (take (Suc k) (c # outs)) s (s\<lparr>memory := m\<rparr>) \<and>
      (\<forall>i < Suc k. uwritable (memory s) root (va + of_nat i)) \<and>
      (Suc k < length (c # outs) \<longrightarrow> \<not> uwritable (memory s) root (va + of_nat (Suc k)))"
    using D(3) by (simp add: algebra_simps)
qed

section \<open>A new page in an address space\<close>

lemma bit_PTE_U: "bit PTE_U n \<longleftrightarrow> n = 4"
proof -
  have e: "PTE_U = 2 ^ 4" by (simp add: PTE_U_def)
  show ?thesis unfolding e bit_exp_iff by auto
qed

lemma or_small:
  assumes "unat (a :: u64) < 2 ^ n" and "unat (b :: u64) < 2 ^ n"
  shows "unat (a OR b) < 2 ^ n"
proof -
  have "take_bit n (unat a OR unat b) = unat a OR unat b"
    using assms by (simp add: take_bit_nat_eq_self)
  then show ?thesis unfolding unsigned_or_eq by (metis take_bit_nat_less_exp)
qed

lemma PTE_user_bit:
  assumes "unat perm < 2 ^ 10"
  shows "(PA2PTE p OR perm OR PTE_V) AND PTE_U = perm AND PTE_U"
proof (rule bit_word_eqI)
  fix n assume "n < LENGTH(64)"
  show "bit ((PA2PTE p OR perm OR PTE_V) AND PTE_U) n = bit (perm AND PTE_U) n"
    unfolding PA2PTE_def PTE_V_def by (cases "n = 4") (auto simp: bit_simps bit_PTE_U)
qed

lemma uspace_map:
  assumes U: "uspace s root ps" and ps: "ps = us @ qs" and inv: "pt_inv t root qs" and ext: "extends root s us t"
    and am: "adds_maps root (memory s) a 1 F perm (memory t)" and a: "a < MAXVA"
    and F: "kpage s F" "F \<notin> tables (memory s) root" "F \<notin> set ps" "\<And>v. uframe (memory s) root v \<noteq> Some F"
    and perm: "unat perm < 2 ^ 10" "perm AND PTE_U \<noteq> 0"
  shows "uspace t root qs"
    and "umem (memory t) root v = (if vpn v = vpn a then Some (memory s (F + page_off v)) else umem (memory s) root v)"
proof -
  note D = uspaceD [OF U]
  have below: "v < MAXVA" if "vpn v = vpn a" for v
    using that a PGROUNDDOWN_below [of v] PGROUNDDOWN_below [of a]
    by (metis PGROUNDDOWN_below unat_PGROUNDDOWN vpn_def word_unat_eq_iff)
  have uf: "uframe (memory t) root v = (if vpn v = vpn a then Some F else uframe (memory s) root v)" for v
  proof (cases "v < MAXVA")
    case True
    have c: "vpn a \<le> vpn v \<and> vpn v < vpn a + 1 \<longleftrightarrow> vpn v = vpn a" by auto
    have "translate (memory t) root v =
        (if vpn v = vpn a then Some (PA2PTE F OR perm OR PTE_V) else translate (memory s) root v)"
      using adds_mapsD [OF am True] unfolding c by simp
    moreover have "PTE2PA (PA2PTE F OR perm OR PTE_V) = F"
    proof -
      have "unat (perm OR PTE_V) < 2 ^ 10" using perm(1) by (rule or_small) (simp add: PTE_V_def)
      then show ?thesis by (rule PTE2PA_PA2PTE [OF kpage_aligned [OF F(1)] kpage_small [OF F(1)]])
    qed
    ultimately show ?thesis using True PTE_user_bit [OF perm(1)] perm(2) by (simp add: uframe_def)
  next
    case False
    then show ?thesis using below by (auto simp: uframe_def)
  qed
  have kp: "kpage t = kpage s" using ext unfolding extends_def by (metis kpage_update)
  have tab: "tables (memory t) root \<subseteq> tables (memory s) root \<union> set us" using ext by (simp add: extends_def)
  have "kpage t f \<and> f \<notin> tables (memory t) root \<and> f \<notin> set qs" if "uframe (memory t) root v = Some f" for v f
  proof (cases "vpn v = vpn a")
    case True
    then have "f = F" using that uf by simp
    then show ?thesis using F(1-3) tab kp ps by auto
  next
    case False
    then have "uframe (memory s) root v = Some f" using that uf by simp
    then show ?thesis using D(4) [of v f] tab kp ps by auto
  qed
  moreover have "vpn v = vpn w" if "uframe (memory t) root v = Some f" "uframe (memory t) root w = Some f" for v w f
    using that uf [of v] uf [of w] F(4) [of v] F(4) [of w] U unfolding uspace_def by (metis (no_types, lifting) option.inject)
  ultimately show "uspace t root qs" using inv unfolding uspace_def by blast
  show "umem (memory t) root v = (if vpn v = vpn a then Some (memory s (F + page_off v)) else umem (memory s) root v)"
  proof -
    have same: "memory t (f + page_off v) = memory s (f + page_off v)"
      if f: "kpage s f" "f \<notin> tables (memory s) root" "f \<notin> set ps" for f
    proof -
      have ir: "in_range (f + page_off v) f 4096"
        using in_range_offset [of "unat v mod 4096" 4096 f] by (simp add: page_off_of_nat)
      have "\<not> in_range (f + page_off v) p 4096" if p: "p \<in> tables (memory s) root \<union> set us" for p
      proof -
        have "kpage s p" using p D(2,3) ps by (auto simp: free_pages_def)
        moreover have "f \<noteq> p" using p f ps by auto
        ultimately show ?thesis using kpages_disjoint [OF f(1) _ _ ir] by blast
      qed
      then show ?thesis using ext unfolding extends_def by blast
    qed
    show ?thesis using uf [of v] same [OF F(1-3)] D(4) [of v] same by (auto simp: umem_def split: option.split)
  qed
qed

section \<open>An address space with one page\<close>

definition demo_root :: u64 where "demo_root = 0x87fff000"
definition demo_free :: "u64 list" where "demo_free = [0x87ffe000, 0x87ffd000]"
definition demo_frame :: u64 where "demo_frame = 0x87ffc000"

text \<open>An empty root table, two free pages and one page in no use.\<close>

definition demo_kmem :: kmem where
  "demo_kmem = \<lparr>memory = store64 (\<lambda>_. 0) 0x87ffe000 0x87ffd000, freelist = 0x87ffe000, kend = 0x80000000\<rparr>"

lemma demo_kpage: "kpage demo_kmem demo_root" "kpage demo_kmem demo_frame" "\<forall>p \<in> set demo_free. kpage demo_kmem p"
  by (simp_all add: kpage_def demo_kmem_def demo_root_def demo_frame_def demo_free_def page_aligned_def PHYSTOP_def KERNBASE_def)

lemma demo_memory: "memory demo_kmem x = 0" if "\<not> in_range x 0x87ffe000 4096"
proof -
  have "\<not> in_range x 0x87ffe000 8" using that by (simp add: in_range_def)
  then show ?thesis by (simp add: demo_kmem_def store64_other)
qed

lemma demo_zero: "kpage demo_kmem p \<Longrightarrow> p \<noteq> 0x87ffe000 \<Longrightarrow> in_range x p 4096 \<Longrightarrow> memory demo_kmem x = 0"
  using kpages_disjoint [of demo_kmem p "0x87ffe000" x] demo_kpage(3) by (intro demo_memory) (simp add: demo_free_def)

lemma demo_tbl: "tbl (memory demo_kmem) demo_root va d = (if d = 0 then Some demo_root else None)"
proof (induction d)
  case 0
  then show ?case by simp
next
  case (Suc d)
  have "load64 (memory demo_kmem) (slot demo_root (px i va)) = 0" for i
  proof (rule load64_zero)
    fix x assume "in_range x (slot demo_root (px i va)) 8"
    then have "in_range x demo_root 4096" by (rule slot_in_page [OF kpage_aligned [OF demo_kpage(1)] px_less])
    then show "memory demo_kmem x = 0" using demo_zero [OF demo_kpage(1)] by (simp add: demo_root_def)
  qed
  then show ?case using Suc by simp
qed

lemma demo_tables: "tables (memory demo_kmem) demo_root = {demo_root}"
  by (auto simp: tables_def demo_tbl)

lemma demo_space: "uspace demo_kmem demo_root demo_free" and demo_none: "translate (memory demo_kmem) demo_root v = None"
proof -
  have tr: "translate (memory demo_kmem) demo_root v = None" for v by (simp add: translate_def demo_tbl)
  then show "translate (memory demo_kmem) demo_root v = None" .
  have "load64 (memory demo_kmem) 0x87ffd000 = 0"
  proof (rule load64_zero)
    fix x :: u64 assume "in_range x 0x87ffd000 8"
    then have "in_range x 0x87ffd000 4096" by (simp add: in_range_def)
    then show "memory demo_kmem x = 0" using demo_zero [of "0x87ffd000"] demo_kpage(3) by (simp add: demo_free_def)
  qed
  then have "free_pages demo_kmem demo_free"
    using demo_kpage(3)
    by (auto simp: free_pages_def demo_free_def demo_kmem_def kend_ok_def KERNBASE_def PHYSTOP_def load64_store64_same)
  moreover have "pt_wf demo_kmem demo_root demo_free"
    using demo_kpage(1) by (simp add: pt_wf_def demo_tables pt_tree_def demo_tbl) (simp add: demo_root_def demo_free_def)
  ultimately show "uspace demo_kmem demo_root demo_free"
    by (simp add: uspace_def pt_inv_def uframe_def tr)
qed

lemma demo_page:
  "\<exists>(s :: kmem) ps. uspace s demo_root ps \<and> (\<forall>v. vpn v = 0 \<longrightarrow> umem (memory s) demo_root v = Some 0 \<and> uwritable (memory s) demo_root v)"
proof -
  let ?perm = "PTE_R OR PTE_W OR PTE_U"
  note U = demo_space
  have none: "uframe (memory demo_kmem) demo_root v = None" for v by (simp add: uframe_def demo_none)
  obtain r t us qs where m: "demo_free = us @ qs" "mapped demo_root 0 (Suc 0) demo_frame ?perm demo_kmem us r t qs"
    using mappages_loop_maps [OF uspaceD(1) [OF U], of 0 0 demo_frame ?perm] by (auto simp: unmapped_def demo_none)
  then have len: "length us + length qs = 2" unfolding length_append [symmetric] by (simp add: demo_free_def flip: m(1))
  then have am: "adds_maps demo_root (memory demo_kmem) 0 1 demo_frame ?perm (memory t)"
    and t: "pt_inv t demo_root qs" "extends demo_root demo_kmem us t" using m(2) by (auto simp: mapped_def)
  have a: "(0 :: u64) < MAXVA" by (simp add: MAXVA_def)
  have F: "demo_frame \<notin> tables (memory demo_kmem) demo_root" "demo_frame \<notin> set demo_free"
    unfolding demo_tables by (simp_all add: demo_frame_def demo_root_def demo_free_def)
  have perm: "unat ?perm < 2 ^ 10" "?perm AND PTE_U \<noteq> 0" by (simp_all add: PTE_R_def PTE_W_def PTE_U_def)
  note M = uspace_map [OF U m(1) t am a demo_kpage(2) F _ perm]
  have sp: "uspace t demo_root qs" using M(1) none by simp
  have um: "umem (memory t) demo_root v = Some 0" if "vpn v = 0" for v
  proof -
    have "in_range (demo_frame + page_off v) demo_frame 4096"
      using in_range_offset [of "unat v mod 4096" 4096 demo_frame] by (simp add: page_off_of_nat)
    then have "memory demo_kmem (demo_frame + page_off v) = 0"
      using demo_zero [OF demo_kpage(2)] by (simp add: demo_frame_def)
    then show ?thesis using M(2) [of v] none that by (simp add: vpn_def)
  qed
  have uw: "uwritable (memory t) demo_root v" if "vpn v = 0" for v
  proof -
    have v: "v < MAXVA" using that by (simp add: vpn_def word_less_nat_alt unat_MAXVA)
    then have "translate (memory t) demo_root v = Some (PA2PTE demo_frame OR ?perm OR PTE_V)"
      using adds_mapsD [OF am v] that by (simp add: vpn_def)
    then show ?thesis using v unfolding uwritable_def
      by (simp add: PA2PTE_def demo_frame_def PTE_R_def PTE_W_def PTE_U_def PTE_V_def)
  qed
  show ?thesis using sp um uw by blast
qed

section \<open>Mapping\<close>

text \<open>C15. \<^verbatim>\<open>mappages\<close> on a range of unmapped pages maps exactly these pages, each to the next
  frame from \<open>pa\<close> with the permissions asked for, leaves every other translation alone,
  keeps the page table a tree of pages off the free list and writes nothing but table pages and
  pages it took from the free list. With two free pages for each page to map it succeeds;
  it fails only by running out of memory, and then some first pages of the range stay mapped.
\<close>

theorem mappages_maps_range:
  assumes "pt_inv s root ps" and "page_aligned va" and "0 < n" and "unat va + 4096 * n \<le> 2 ^ 38"
    and "unmapped (memory s) root va n"
  shows "\<exists>r t us qs. mappages root va (of_nat (4096 * n)) pa perm s = Ok r t \<and> ps = us @ qs \<and>
     mapped root va n pa perm s us r t qs \<and> (2 * n \<le> length ps \<longrightarrow> r = 0)"
proof -
  obtain k where n: "n = Suc k" using assms(3) by (cases n) auto
  have sz: "unat (of_nat (4096 * n) :: u64) = 4096 * n" using assms(4) by (intro unat_of_nat_small) simp
  have "page_aligned (of_nat (4096 * n))" unfolding page_aligned_def sz by simp
  moreover have "of_nat (4096 * n) \<noteq> (0 :: u64)" using sz assms(3) by (metis mult_is_0 neq0_conv unat_0 zero_neq_numeral)
  moreover have "va + of_nat (4096 * n) - PGSIZE = va + of_nat (4096 * k)" by (simp add: n PGSIZE_def)
  ultimately have e: "mappages root va (of_nat (4096 * n)) pa perm s = mappages_loop root va (va + of_nat (4096 * k)) pa perm s"
    using assms(2) by (simp only: mappages_def page_aligned_mod simp_thms if_False)
  have "unat va + 4096 * k < 2 ^ 38" using assms(4) n by simp
  then obtain r t us qs where r: "mappages_loop root va (va + of_nat (4096 * k)) pa perm s = Ok r t" "ps = us @ qs"
      "mapped root va n pa perm s us r t qs"
    using mappages_loop_maps [OF assms(1), of va k] assms(5) unfolding n by blast
  then have "2 * n \<le> length ps \<longrightarrow> r = 0" by (auto simp: mapped_def)
  then show ?thesis using r e by (intro exI [of _ r] exI [of _ t] exI [of _ us] exI [of _ qs] conjI) simp_all
qed

theorem mappages_maps_range_witness:
  "\<exists>t us qs. mappages demo_root 0 4096 demo_frame (PTE_R OR PTE_U) demo_kmem = Ok 0 t \<and> demo_free = us @ qs \<and>
     mapped demo_root 0 1 demo_frame (PTE_R OR PTE_U) demo_kmem us 0 t qs"
proof -
  have "page_aligned 0" "unmapped (memory demo_kmem) demo_root 0 1" "2 * 1 \<le> length demo_free"
    by (simp_all add: page_aligned_def unmapped_def demo_none demo_free_def)
  then show ?thesis
    using mappages_maps_range [OF uspaceD(1) [OF demo_space], of 0 1 demo_frame "PTE_R OR PTE_U"] by auto
qed

section \<open>The copy routines\<close>

lemma urun_bytes:
  "(\<And>i. i < length bs \<Longrightarrow> umem m root (va + of_nat i) = Some (bs ! i)) \<Longrightarrow> urun m root va (length bs) = bs"
proof (induction bs arbitrary: va)
  case Nil
  then show ?case by simp
next
  case (Cons b bs)
  have "umem m root va = Some b" using Cons.prems [of 0] by simp
  moreover have "urun m root (va + 1) (length bs) = bs"
    using Cons.prems [of "Suc _"] by (intro Cons.IH) (simp add: ac_simps)
  ultimately show ?case by simp
qed

text \<open>C13. \<^verbatim>\<open>copyout\<close> stores its bytes at the user addresses from \<open>dstva\<close>: it writes the longest prefix
  whose addresses the user may write, returns 0 exactly when that is all of them, changes no other user byte, no
  translation, and no memory outside the user's frames.
\<close>

theorem copyout_writes_user_memory:
  assumes "uspace s root ps" and "length bs < 2 ^ 64"
  shows "\<exists>k t. k \<le> length bs \<and> copyout root va bs s = Ok (if k = length bs then 0 else -1) t \<and>
     stored root ps va (take k bs) s t \<and> (\<forall>i < k. uwritable (memory s) root (va + of_nat i)) \<and>
     (k < length bs \<longrightarrow> \<not> uwritable (memory s) root (va + of_nat k))"
  using assms by (rule copyout_stores)

lemma urun_two: "umem m root va = Some a \<Longrightarrow> umem m root (va + 1) = Some b \<Longrightarrow> urun m root va 2 = [a, b]"
  by (simp add: numeral_2_eq_2)

lemma demo_length: "length ([1, 2, 3] :: u8 list) = 3"
  by simp

lemma vpn_small: "i < 4096 \<Longrightarrow> vpn (of_nat i) = 0"
  by (simp add: vpn_def unat_of_nat)

theorem copyout_writes_user_memory_witness:
  "\<exists>(s :: kmem) t ps. uspace s demo_root ps \<and> copyout demo_root 16 [1, 2, 3] s = Ok 0 t \<and>
     stored demo_root ps 16 [1, 2, 3] s t"
proof -
  obtain s :: kmem and ps where s: "uspace s demo_root ps" "\<And>v. vpn v = 0 \<Longrightarrow> uwritable (memory s) demo_root v"
    using demo_page by blast
  obtain k t where k: "k \<le> 3" "copyout demo_root 16 [1, 2, 3] s = Ok (if k = 3 then 0 else -1) t"
      "stored demo_root ps 16 (take k [1, 2, 3]) s t" "k < 3 \<longrightarrow> \<not> uwritable (memory s) demo_root (16 + of_nat k)"
    using copyout_writes_user_memory [OF s(1), of "[1, 2, 3]" 16, unfolded demo_length] by auto
  have "k < 3 \<Longrightarrow> vpn (16 + of_nat k) = 0" using vpn_small [of "16 + k"] by simp
  then have "k = 3" using k(1,4) s(2) by force
  then show ?thesis using s(1) k by auto
qed

text \<open>C17. \<^verbatim>\<open>copyin\<close> returns the bytes the user sees from \<open>srcva\<close>, up to the first address that is
  not mapped for the user, and 0 exactly when all \<open>len\<close> of them are; it changes nothing.
\<close>

theorem copyin_reads_user_memory:
  assumes "uspace s root ps"
  shows "copyin root va len s =
    Ok (if length (urun (memory s) root va len) = len then 0 else -1, urun (memory s) root va len) s"
  unfolding copyin_def using copyin_loop_reads [OF assms] by (simp add: Let_def)

theorem copyin_reads_user_memory_witness:
  "\<exists>(s :: kmem) ps. uspace s demo_root ps \<and> copyin demo_root 16 2 s = Ok (0, [0, 0]) s"
proof -
  obtain s :: kmem and ps where s: "uspace s demo_root ps" "\<And>v. vpn v = 0 \<Longrightarrow> umem (memory s) demo_root v = Some 0"
    using demo_page by blast
  have "urun (memory s) demo_root 16 2 = [0, 0]"
    using s(2) [of 16] s(2) [of 17] vpn_small [of 16] vpn_small [of 17] by (intro urun_two) simp_all
  then show ?thesis using s(1) copyin_reads_user_memory [OF s(1), of 16 2] by auto
qed

lemma takeWhile_shorter: "x \<in> set xs \<Longrightarrow> \<not> P x \<Longrightarrow> length (takeWhile P xs) < length xs"
  by (induction xs) auto

text \<open>C18. \<^verbatim>\<open>copyinstr\<close> copies a user string: when a NUL occurs among the at most \<open>max\<close> bytes
  the user sees from \<open>srcva\<close> it returns 0 and the string with its terminator, never more than \<open>max\<close>
  bytes; otherwise it returns -1.
\<close>

theorem copyinstr_reads_user_string:
  assumes "uspace s root ps"
  shows "\<exists>r bs. copyinstr root va mx s = Ok (r, bs) s \<and> length bs \<le> mx \<and>
    (if 0 \<in> set (urun (memory s) root va mx)
     then r = 0 \<and> bs = takeWhile (\<lambda>b. b \<noteq> 0) (urun (memory s) root va mx) @ [0]
     else r = -1 \<and> bs = urun (memory s) root va mx)"
proof -
  let ?run = "urun (memory s) root va mx"
  have "length (takeWhile (\<lambda>b. b \<noteq> 0) ?run) < length ?run" if "0 \<in> set ?run"
    using that by (rule takeWhile_shorter) simp
  then show ?thesis
    unfolding copyinstr_def copyinstr_loop_reads [OF assms] using urun_length [of "memory s" root va mx]
    by (cases "0 \<in> set ?run") (auto simp: Let_def)
qed

theorem copyinstr_reads_user_string_witness:
  "\<exists>(s :: kmem) ps. uspace s demo_root ps \<and> copyinstr demo_root 16 2 s = Ok (0, [0]) s"
proof -
  obtain s :: kmem and ps where s: "uspace s demo_root ps" "\<And>v. vpn v = 0 \<Longrightarrow> umem (memory s) demo_root v = Some 0"
    using demo_page by blast
  have "urun (memory s) demo_root 16 2 = [0, 0]"
    using s(2) [of 16] s(2) [of 17] vpn_small [of 16] vpn_small [of 17] by (intro urun_two) simp_all
  then show ?thesis using s(1) copyinstr_reads_user_string [OF s(1), of 16 2] by auto
qed

text \<open>C19. What the kernel hands to a process it can read back: after a successful \<^verbatim>\<open>copyout\<close>,
  \<^verbatim>\<open>copyin\<close> from the same address returns the same bytes.
\<close>

theorem copyout_copyin_roundtrip:
  assumes "uspace s root ps" and "length bs < 2 ^ 64" and "copyout root va bs s = Ok 0 t"
  shows "copyin root va (length bs) t = Ok (0, bs) t"
proof -
  obtain k u where "k \<le> length bs" "copyout root va bs s = Ok (if k = length bs then 0 else -1) u"
      "stored root ps va (take k bs) s u"
    using copyout_stores [OF assms(1,2), of va] by blast
  then have st: "stored root ps va bs s t" using assms(3) by (auto split: if_splits)
  have "umem (memory t) root (va + of_nat i) = Some (bs ! i)" if "i < length bs" for i
  proof -
    have "unat (of_nat i :: u64) = i" using that assms(2) by (intro unat_of_nat_small) simp
    then show ?thesis using st that unfolding stored_def by simp
  qed
  then have "urun (memory t) root va (length bs) = bs" by (rule urun_bytes)
  moreover have "uspace t root ps" using st by (simp add: stored_def)
  ultimately show ?thesis unfolding copyin_def using copyin_loop_reads [of t root ps] by (simp add: Let_def)
qed

theorem copyout_copyin_roundtrip_witness:
  "\<exists>(s :: kmem) t. copyout demo_root 16 [1, 2, 3] s = Ok 0 t \<and> copyin demo_root 16 3 t = Ok (0, [1, 2, 3]) t"
proof -
  obtain s :: kmem and ps where s: "uspace s demo_root ps" "\<And>v. vpn v = 0 \<Longrightarrow> uwritable (memory s) demo_root v"
    using demo_page by blast
  obtain k t where k: "k \<le> 3" "copyout demo_root 16 [1, 2, 3] s = Ok (if k = 3 then 0 else -1) t"
      "k < 3 \<longrightarrow> \<not> uwritable (memory s) demo_root (16 + of_nat k)"
    using copyout_stores [OF s(1), of "[1, 2, 3]" 16, unfolded demo_length] by auto
  have "k < 3 \<Longrightarrow> vpn (16 + of_nat k) = 0" using vpn_small [of "16 + k"] by simp
  then have "copyout demo_root 16 [1, 2, 3] s = Ok 0 t" using k s(2) by (cases "k = 3") force+
  then show ?thesis using copyout_copyin_roundtrip [OF s(1), of "[1, 2, 3]" 16 t, unfolded demo_length] by auto
qed

end
