(* ===== verification/Growth.thy ===== *)
theory Growth
  imports Usermem
begin

text \<open>
  Growing and shrinking user memory: \<^verbatim>\<open>uvmunmap\<close>, \<^verbatim>\<open>uvmdealloc\<close> and
  \<^verbatim>\<open>uvmalloc\<close> of \<^verbatim>\<open>kernel/vm.c\<close> on the bytes a user
  sees. Each routine keeps the invariant \<open>uspace\<close> and gives every page back to the free list
  that it takes away from the user or could not use.
\<close>

lemma kmem_only_trans:
  assumes "t = s\<lparr>memory := memory t, freelist := freelist t\<rparr>" and "u = t\<lparr>memory := memory u, freelist := freelist u\<rparr>"
  shows "u = s\<lparr>memory := memory u, freelist := freelist u\<rparr>"
  by (subst assms(2), subst assms(1)) simp

section \<open>Memory that an address space does not use\<close>

text \<open>A state that differs only in pages that are neither tables nor user frames.\<close>

lemma uspace_off:
  assumes U: "uspace s root ps"
    and off: "\<forall>x p. p \<in> tables (memory s) root \<longrightarrow> in_range x p 4096 \<longrightarrow> m x = memory s x"
    and offu: "\<forall>x v f. uframe (memory s) root v = Some f \<longrightarrow> in_range x f 4096 \<longrightarrow> m x = memory s x"
  shows "tables m root = tables (memory s) root" and "pt_tree m root"
    and "translate m root v = translate (memory s) root v" and "d \<le> 2 \<Longrightarrow> tbl m root v d = tbl (memory s) root v d"
    and "uframe m root v = uframe (memory s) root v" and "umem m root v = umem (memory s) root v"
proof -
  note D = uspaceD [OF U]
  have al: "page_aligned p" if "p \<in> tables (memory s) root" for p using D(3) [OF that] by simp
  show "tables m root = tables (memory s) root" by (rule tables_cong) (use off al in blast)+
  have "pt_tree m root = pt_tree (memory s) root" by (rule tables_cong) (use off al in blast)+
  then show "pt_tree m root" using D(1) by (simp add: pt_inv_def pt_wf_def)
  have tr: "translate m root v = translate (memory s) root v" for v by (rule translate_cong) (use off al in blast)+
  then show "translate m root v = translate (memory s) root v" .
  show "d \<le> 2 \<Longrightarrow> tbl m root v d = tbl (memory s) root v d" by (rule tbl_cong) (use off al in auto)
  show uf: "uframe m root v = uframe (memory s) root v" by (rule uframe_translate [OF tr])
  have "m (f + page_off v) = memory s (f + page_off v)" if "uframe (memory s) root v = Some f" for f
    using offu that in_range_offset [of "unat v mod 4096" 4096 f] by (simp add: page_off_of_nat)
  then show "umem m root v = umem (memory s) root v" using uf by (auto simp: umem_def split: option.split)
qed

text \<open>Taking a page from the free list and filling it.\<close>

lemma uspace_alloc:
  assumes U: "uspace s root (pg # ps)" and t: "kalloc s = Ok pg t"
    and m: "\<forall>x. \<not> in_range x pg 4096 \<longrightarrow> m x = memory t x" and u: "u = t\<lparr>memory := m\<rparr>"
  shows "uspace u root ps" and "umem (memory u) root v = umem (memory s) root v"
    and "uframe (memory u) root v = uframe (memory s) root v" and "translate (memory u) root v = translate (memory s) root v"
    and "kpage u pg" and "pg \<notin> tables (memory u) root" and "pg \<notin> set ps" and "uframe (memory u) root v \<noteq> Some pg"
    and "u = s\<lparr>memory := memory u, freelist := freelist u\<rparr>" and "pg \<noteq> 0"
    and "tables (memory u) root = tables (memory s) root" and "\<not> in_range x pg 4096 \<Longrightarrow> memory u x = memory s x"
proof -
  note D = uspaceD [OF U]
  have fp: "free_pages s (pg # ps)" by (rule D(2))
  obtain t' where t': "kalloc s = Ok pg t'" "free_pages t' ps"
      "t' = s\<lparr>freelist := freelist t', memory := memory t'\<rparr>" "memory t' = memset (memory s) pg 5 4096"
    using kalloc_cons [OF fp] by metis
  then have [simp]: "t' = t" using t by simp
  have kp: "kpage s pg" "pg \<notin> set ps" and kq: "\<And>q. q \<in> set ps \<Longrightarrow> kpage s q" and "pg \<noteq> 0" using fp by (auto simp: free_pages_def)
  then show "pg \<noteq> 0" "pg \<notin> set ps" by simp_all
  have ms: "memory u x = memory s x" if "\<not> in_range x pg 4096" for x
    using that m t'(4) by (simp add: u memset_apply)
  then show "\<not> in_range x pg 4096 \<Longrightarrow> memory u x = memory s x" .
  have nt: "pg \<notin> tables (memory s) root" using D(1) by (auto simp: pt_inv_def pt_wf_def)
  have nf: "uframe (memory s) root v \<noteq> Some pg" for v using D(4) [of v pg] by auto
  have off: "\<forall>x p. p \<in> tables (memory s) root \<longrightarrow> in_range x p 4096 \<longrightarrow> memory u x = memory s x"
    using ms kpages_disjoint [OF D(3) kp(1)] nt by blast
  have offu: "\<forall>x v f. uframe (memory s) root v = Some f \<longrightarrow> in_range x f 4096 \<longrightarrow> memory u x = memory s x"
    using ms kpages_disjoint [OF _ kp(1)] D(4) nf by metis
  note O = uspace_off [OF U off offu]
  show "umem (memory u) root v = umem (memory s) root v" "uframe (memory u) root v = uframe (memory s) root v"
    "translate (memory u) root v = translate (memory s) root v" "tables (memory u) root = tables (memory s) root"
    using O by simp_all
  show ut: "u = s\<lparr>memory := memory u, freelist := freelist u\<rparr>" unfolding u by (subst t'(3) [simplified]) simp
  then have kpu: "kpage u = kpage s" by (metis kpage_update)
  show "kpage u pg" using kp kpu by simp
  show "pg \<notin> tables (memory u) root" using O(1) nt by simp
  show "uframe (memory u) root v \<noteq> Some pg" using O(5) nf by simp
  have "free_pages u ps" unfolding u
  proof (rule free_pages_memory)
    show "free_pages t ps" using t'(2) by simp
    fix a x assume "a \<in> set ps" "in_range x a 4096"
    then have "\<not> in_range x pg 4096" using kpages_disjoint [of s a pg x] kp kq by blast
    then show "m x = memory t x" using m by blast
  qed
  moreover have "pt_wf u root ps" using D(1) O(1,2) kpu by (auto simp: pt_inv_def pt_wf_def)
  ultimately show "uspace u root ps" using U O(1,5) kpu by (auto simp: uspace_def pt_inv_def)
qed

text \<open>Giving an unused page back.\<close>

lemma uspace_free:
  assumes U: "uspace s root ps" and p: "kpage s p" "p \<notin> tables (memory s) root" "p \<notin> set ps"
    "\<And>v. uframe (memory s) root v \<noteq> Some p"
  obtains t where "kfree p s = Ok () t" "uspace t root (p # ps)" "t = s\<lparr>memory := memory t, freelist := freelist t\<rparr>"
    "\<And>v. umem (memory t) root v = umem (memory s) root v" "\<And>v. uframe (memory t) root v = uframe (memory s) root v"
    "\<And>v. translate (memory t) root v = translate (memory s) root v" "tables (memory t) root = tables (memory s) root"
    "same_outside p (memory s) (memory t)"
proof -
  note D = uspaceD [OF U]
  obtain t where t: "kfree p s = Ok () t" "free_pages t (p # ps)" "t = s\<lparr>freelist := freelist t, memory := memory t\<rparr>"
      "same_outside p (memory s) (memory t)"
    using kfree_ok [OF D(2) p(1,3)] by metis
  have ms: "memory t x = memory s x" if "\<not> in_range x p 4096" for x using t(4) that by (simp add: same_outside_def)
  have off: "\<forall>x q. q \<in> tables (memory s) root \<longrightarrow> in_range x q 4096 \<longrightarrow> memory t x = memory s x"
    using ms kpages_disjoint [OF D(3) p(1)] p(2) by blast
  have offu: "\<forall>x v f. uframe (memory s) root v = Some f \<longrightarrow> in_range x f 4096 \<longrightarrow> memory t x = memory s x"
    using ms kpages_disjoint [OF _ p(1)] D(4) p(4) by metis
  note O = uspace_off [OF U off offu]
  have kpu: "kpage t = kpage s" using t(3) by (metis kpage_update)
  have "pt_wf t root (p # ps)" using D(1) O(1,2) kpu p(2) by (auto simp: pt_inv_def pt_wf_def)
  then have "uspace t root (p # ps)" using U O(1,5) kpu t(2) p(4) by (auto simp: uspace_def pt_inv_def)
  moreover have "t = s\<lparr>memory := memory t, freelist := freelist t\<rparr>" by (subst t(3)) simp
  ultimately show ?thesis using t(1,4) O by (intro that) simp_all
qed

section \<open>Taking pages away\<close>

lemma uframe_entry:
  assumes "uframe m root a = Some f"
  obtains q where "a < MAXVA" "tbl m root a 2 = Some q" "load64 m (slot q (px 0 a)) AND PTE_V \<noteq> 0"
    "load64 m (slot q (px 0 a)) AND PTE_U \<noteq> 0" "PTE2PA (load64 m (slot q (px 0 a))) = f"
  using assms by (auto simp: uframe_def translate_def Let_def split: option.splits if_splits)

lemma user_not_pointer: "e AND PTE_U \<noteq> 0 \<Longrightarrow> PTE_FLAGS e \<noteq> PTE_V"
proof
  assume u: "e AND PTE_U \<noteq> 0" and f: "PTE_FLAGS e = PTE_V"
  have "bit e 4"
  proof (rule ccontr)
    assume "\<not> bit e 4"
    then have "e AND PTE_U = 0" by (intro bit_word_eqI) (auto simp: bit_simps bit_PTE_U)
    then show False using u by simp
  qed
  then have "bit (PTE_FLAGS e) 4" by (simp add: PTE_FLAGS_def bit_simps)
  then show False using f by (simp add: PTE_V_def bit_simps)
qed

text \<open>One round of the unmapping loop: the frame goes to the free list, its entry is cleared.\<close>

lemma uspace_unmap:
  assumes U: "uspace s root ps" and f: "uframe (memory s) root a = Some f"
    and q: "tbl (memory s) root a 2 = Some q" and t: "kfree f s = Ok () t"
    and u: "u = t\<lparr>memory := store64 (memory t) (slot q (px 0 a)) 0\<rparr>"
  shows "uspace u root (f # ps)" and "u = s\<lparr>memory := memory u, freelist := freelist u\<rparr>"
    and "uframe (memory u) root v = (if vpn v = vpn a then None else uframe (memory s) root v)"
    and "umem (memory u) root v = (if vpn v = vpn a then None else umem (memory s) root v)"
    and "tables (memory u) root = tables (memory s) root"
    and "(\<forall>p \<in> tables (memory s) root \<union> {f}. \<not> in_range x p 4096) \<Longrightarrow> memory u x = memory s x"
proof -
  note D = uspaceD [OF U]
  have kf: "kpage s f" "f \<notin> tables (memory s) root" "f \<notin> set ps" using D(4) [OF f] by simp_all
  have a: "a < MAXVA" using f by (simp add: uframe_def split: if_splits)
  obtain t' where t': "kfree f s = Ok () t'" "free_pages t' (f # ps)" "t' = s\<lparr>freelist := freelist t', memory := memory t'\<rparr>"
      "same_outside f (memory s) (memory t')"
    using kfree_ok [OF D(2) kf(1,3)] by metis
  then have [simp]: "t' = t" using t by simp
  have kpt: "kpage t = kpage s" using t'(3) by (metis \<open>t' = t\<close> kpage_update)
  have off: "memory t x = memory s x" if "p \<in> tables (memory s) root" "in_range x p 4096" for p x
    using t'(4) kpages_disjoint [OF D(3) kf(1), of p x] kf(2) that by (auto simp: same_outside_def)
  have al: "page_aligned p" if "p \<in> tables (memory s) root" for p using D(3) [OF that] by simp
  have T: "tables (memory t) root = tables (memory s) root" "pt_tree (memory t) root = pt_tree (memory s) root"
    by (rule tables_cong; use off al in blast)+
  have tr: "translate (memory t) root v = translate (memory s) root v" for v by (rule translate_cong) (use off al in blast)+
  have qt: "tbl (memory t) root a 2 = Some q" using tbl_cong [of "memory s" root "memory t" 2 a] off al q by auto
  have inv: "pt_inv t root (f # ps)" using D(1) T kpt kf(2) t'(2) by (auto simp: pt_inv_def pt_wf_def)
  note L = pt_inv_leaf [OF inv qt u]
  show tb: "tables (memory u) root = tables (memory s) root" using L(3) T(1) by simp
  show us: "u = s\<lparr>memory := memory u, freelist := freelist u\<rparr>" unfolding u by (subst t'(3) [simplified]) simp
  then have kpu: "kpage u = kpage s" by (metis kpage_update)
  show mu: "memory u x = memory s x" if "\<forall>p \<in> tables (memory s) root \<union> {f}. \<not> in_range x p 4096" for x
  proof -
    have "memory t x = memory s x" using t'(4) that by (simp add: same_outside_def)
    moreover have "memory u x = memory t x" using L(2) that T(1) unfolding extends_def by simp
    ultimately show ?thesis by simp
  qed
  have below: "v < MAXVA \<longleftrightarrow> a < MAXVA" if "vpn v = vpn a" for v
    using that PGROUNDDOWN_below by (metis unat_PGROUNDDOWN vpn_def word_unat_eq_iff)
  have uf: "uframe (memory u) root v = (if vpn v = vpn a then None else uframe (memory s) root v)" for v
  proof (cases "v < MAXVA")
    case True
    then show ?thesis using L(4) [of v] tr prefix_eq_vpn [OF a True] by (auto simp: uframe_def)
  next
    case False
    then show ?thesis by (simp add: uframe_def)
  qed
  then show "uframe (memory u) root v = (if vpn v = vpn a then None else uframe (memory s) root v)" .
  have inj: "f' \<noteq> f" if "uframe (memory s) root v = Some f'" "vpn v \<noteq> vpn a" for v f'
    using U f that unfolding uspace_def by metis
  have frames: "kpage u f' \<and> f' \<notin> tables (memory u) root \<and> f' \<notin> set (f # ps)"
    if "uframe (memory u) root v = Some f'" for v f'
    using that uf [of v] D(4) [of v f'] inj [of v f'] tb kpu by (auto split: if_splits)
  have "vpn v = vpn w" if "uframe (memory u) root v = Some f'" "uframe (memory u) root w = Some f'" for v w f'
    using that uf [of v] uf [of w] U unfolding uspace_def by (metis (no_types, lifting) option.distinct(1))
  then show "uspace u root (f # ps)" using L(1) frames unfolding uspace_def by blast
  have "memory u (f' + page_off v) = memory s (f' + page_off v)" if f': "uframe (memory s) root v = Some f'" "vpn v \<noteq> vpn a" for f'
  proof (rule mu, rule ballI)
    fix p assume p: "p \<in> tables (memory s) root \<union> {f}"
    have ir: "in_range (f' + page_off v) f' 4096"
      using in_range_offset [of "unat v mod 4096" 4096 f'] by (simp add: page_off_of_nat)
    have "kpage s p" "p \<noteq> f'" using p D(3) kf(1) D(4) [OF f'(1)] inj [OF f'] by auto
    then show "\<not> in_range (f' + page_off v) p 4096" using kpages_disjoint [of s f' p] D(4) [OF f'(1)] ir by blast
  qed
  then show "umem (memory u) root v = (if vpn v = vpn a then None else umem (memory s) root v)"
    using uf [of v] by (auto simp: umem_def split: option.split)
qed

definition vrange :: "u64 \<Rightarrow> nat \<Rightarrow> u64 \<Rightarrow> bool" where
  "vrange a n v \<longleftrightarrow> vpn a \<le> vpn v \<and> vpn v < vpn a + n"

text \<open>
  \<open>n\<close> pages from \<open>a\<close> are gone: their bytes are unmapped, their frames \<open>fs\<close> free, all else is as before.
\<close>

definition unmaps :: "u64 \<Rightarrow> u64 list \<Rightarrow> u64 \<Rightarrow> nat \<Rightarrow> 'z kmem_scheme \<Rightarrow> u64 list \<Rightarrow> 'z kmem_scheme \<Rightarrow> bool" where
  "unmaps root ps a n s fs t \<longleftrightarrow> uspace t root (fs @ ps) \<and> length fs = n \<and>
     t = s\<lparr>memory := memory t, freelist := freelist t\<rparr> \<and> tables (memory t) root = tables (memory s) root \<and>
     set fs \<subseteq> {f. \<exists>v. vrange a n v \<and> uframe (memory s) root v = Some f} \<and>
     (\<forall>v. uframe (memory t) root v = (if vrange a n v then None else uframe (memory s) root v)) \<and>
     (\<forall>v. umem (memory t) root v = (if vrange a n v then None else umem (memory s) root v)) \<and>
     (\<forall>x. (\<forall>p \<in> tables (memory s) root \<union> set fs. \<not> in_range x p 4096) \<longrightarrow> memory t x = memory s x)"

lemma unmaps_0: "uspace s root ps \<Longrightarrow> unmaps root ps a 0 s [] s"
  by (auto simp: unmaps_def vrange_def)

lemma vrange_Suc:
  "a < MAXVA \<Longrightarrow> vrange a (Suc n) v \<longleftrightarrow> vpn v = vpn a \<or> vrange (a + PGSIZE) n v"
  using vpn_next [of a] by (auto simp: vrange_def)

lemma unmaps_Suc:
  assumes U: "uspace s root ps" and f: "uframe (memory s) root a = Some f"
    and q: "tbl (memory s) root a 2 = Some q" and t: "kfree f s = Ok () t"
    and u: "u = t\<lparr>memory := store64 (memory t) (slot q (px 0 a)) 0\<rparr>"
    and v: "unmaps root (f # ps) (a + PGSIZE) n u fs w"
  shows "unmaps root ps a (Suc n) s (fs @ [f]) w"
proof -
  note S = uspace_unmap [OF U f q t u]
  have a: "a < MAXVA" using f by (simp add: uframe_def split: if_splits)
  have na: "\<not> vrange (a + PGSIZE) n v" if "vpn v = vpn a" for v
    using that vpn_next [OF a] by (simp add: vrange_def)
  have W: "uspace w root ((fs @ [f]) @ ps)" "length fs = n" "tables (memory w) root = tables (memory s) root"
    and wu: "w = u\<lparr>memory := memory w, freelist := freelist w\<rparr>"
    and fs: "\<And>g. g \<in> set fs \<Longrightarrow> \<exists>v. vrange (a + PGSIZE) n v \<and> uframe (memory u) root v = Some g"
    and uf: "\<And>v. uframe (memory w) root v = (if vrange (a + PGSIZE) n v then None else uframe (memory u) root v)"
    and um: "\<And>v. umem (memory w) root v = (if vrange (a + PGSIZE) n v then None else umem (memory u) root v)"
    and mw: "\<And>x. \<forall>p \<in> tables (memory s) root \<union> set fs. \<not> in_range x p 4096 \<Longrightarrow> memory w x = memory u x"
    using v S(5) unfolding unmaps_def by auto
  have "w = s\<lparr>memory := memory w, freelist := freelist w\<rparr>" by (rule kmem_only_trans [OF S(2) wu])
  moreover have "\<exists>v. vrange a (Suc n) v \<and> uframe (memory s) root v = Some g" if g: "g \<in> set (fs @ [f])" for g
  proof (cases "g = f")
    case True
    then show ?thesis using f vrange_Suc [OF a, of n a] by blast
  next
    case False
    then obtain v where "vrange (a + PGSIZE) n v" "uframe (memory u) root v = Some g" using fs [of g] g by auto
    then show ?thesis using S(3) [of v] vrange_Suc [OF a, of n v] by (auto split: if_splits)
  qed
  moreover have "memory w x = memory s x" if "\<forall>p \<in> tables (memory s) root \<union> set (fs @ [f]). \<not> in_range x p 4096" for x
    using mw [of x] S(6) [of x] that by simp
  moreover have "uframe (memory w) root v = (if vrange a (Suc n) v then None else uframe (memory s) root v)"
    and "umem (memory w) root v = (if vrange a (Suc n) v then None else umem (memory s) root v)" for v
    using uf [of v] um [of v] S(3,4) [of v] vrange_Suc [OF a, of n v] by simp_all
  moreover have "length (fs @ [f]) = Suc n" using W(2) by simp
  ultimately show ?thesis using W(1,3) unfolding unmaps_def by blast
qed

lemma uvmunmap_loop_frees:
  assumes "uspace s root ps" and "\<forall>v. vrange a n v \<longrightarrow> uframe (memory s) root v \<noteq> None"
    and "unat a + 4096 * n \<le> 2 ^ 38"
  shows "\<exists>t fs. uvmunmap_loop root a (a + of_nat (4096 * n)) True s = Ok () t \<and> unmaps root ps a n s fs t"
  using assms
proof (induction n arbitrary: a s ps)
  case (0 a s ps)
  then show ?case using unmaps_0 [of s root ps a] by (subst uvmunmap_loop.simps) auto
next
  case (Suc n a s ps)
  define stop where "stop = a + of_nat (4096 * Suc n)"
  have un: "unat (of_nat (4096 * Suc n) :: u64) = 4096 * Suc n" using Suc.prems(3) by (intro unat_of_nat_small) simp
  have "unat stop = unat a + 4096 * Suc n" unfolding stop_def using Suc.prems(3) un by (subst unat_add_noov) (simp_all del: of_nat_mult of_nat_Suc)
  then have lt: "a < stop" by (simp add: word_less_nat_alt)
  have fin: "stop = a + PGSIZE + of_nat (4096 * n)" by (simp add: stop_def PGSIZE_def)
  have "vrange a (Suc n) a" by (simp add: vrange_def)
  then obtain f where f: "uframe (memory s) root a = Some f" using Suc.prems(2) by blast
  then obtain q where q: "a < MAXVA" "tbl (memory s) root a 2 = Some q" "load64 (memory s) (slot q (px 0 a)) AND PTE_V \<noteq> 0"
      "load64 (memory s) (slot q (px 0 a)) AND PTE_U \<noteq> 0" "PTE2PA (load64 (memory s) (slot q (px 0 a))) = f"
    by (rule uframe_entry)
  note D = uspaceD [OF Suc.prems(1)]
  have kf: "kpage s f" "f \<notin> set ps" using D(4) [OF f] by simp_all
  obtain t where t: "kfree f s = Ok () t" using kfree_ok [OF D(2) kf] by metis
  let ?u = "t\<lparr>memory := store64 (memory t) (slot q (px 0 a)) 0\<rparr>"
  have nz: "slot q (px 0 a) \<noteq> 0" using D(2,3) slot_nonzero [of s ps q] tbl_in_tables [OF q(2)] by simp
  have step: "uvmunmap_loop root a stop True s = uvmunmap_loop root (a + PGSIZE) stop True ?u"
    using lt walk_read [OF q(1), of root s] q nz t user_not_pointer [OF q(4)]
    by (subst uvmunmap_loop.simps) simp
  note S = uspace_unmap [OF Suc.prems(1) f q(2) t refl]
  have "\<forall>v. vrange (a + PGSIZE) n v \<longrightarrow> uframe (memory ?u) root v \<noteq> None"
    using Suc.prems(2) S(3) vrange_Suc [OF q(1)] vpn_next [OF q(1)] by (auto simp: vrange_def)
  moreover have "unat (a + PGSIZE) + 4096 * n \<le> 2 ^ 38" using Suc.prems(3) unat_next_page [OF q(1)] by simp
  ultimately obtain w fs where w: "uvmunmap_loop root (a + PGSIZE) (a + PGSIZE + of_nat (4096 * n)) True ?u = Ok () w"
      "unmaps root (f # ps) (a + PGSIZE) n ?u fs w"
    using Suc.IH [OF S(1)] by blast
  have "unmaps root ps a (Suc n) s (fs @ [f]) w" by (rule unmaps_Suc [OF Suc.prems(1) f q(2) t refl w(2)])
  then show ?case using step w(1) unfolding stop_def [symmetric] fin [symmetric] by auto
qed

lemma unat_PGROUNDUP_small: "unat a \<le> 2 ^ 38 \<Longrightarrow> unat (PGROUNDUP a) = (unat a + 4095) div 4096 * 4096"
  by (rule unat_PGROUNDUP) simp

definition pages_up :: "u64 \<Rightarrow> nat" where
  "pages_up sz = (unat sz + 4095) div 4096"

lemma unat_PGROUNDUP_pages: "unat a \<le> 2 ^ 38 \<Longrightarrow> unat (PGROUNDUP a) = 4096 * pages_up a"
  by (simp add: unat_PGROUNDUP_small pages_up_def)

lemma pages_up_le: "unat a \<le> 2 ^ 38 \<Longrightarrow> pages_up a \<le> 2 ^ 26"
  unfolding pages_up_def using div_le_mono [of "unat a + 4095" "2 ^ 38 + 4095" 4096] by simp

text \<open>The page count passes through an \<^verbatim>\<open>int\<close> unharmed.\<close>

lemma int_page_count:
  assumes "n < 2 ^ 31"
  shows "(scast (ucast (of_nat n :: u64) :: u32) :: u64) = of_nat n"
proof -
  have "(ucast (of_nat n :: u64) :: u32) = of_nat n"
    by (rule bit_word_eqI) (simp add: bit_simps)
  moreover have "sint (of_nat n :: u32) = int n" using assms by (subst signed_of_nat) (simp add: signed_take_bit_int_eq_self)
  ultimately show ?thesis by (metis of_int_of_nat_eq of_int_sint)
qed

lemma uvmunmap_frees:
  assumes "uspace s root ps" and "page_aligned a" and "\<forall>v. vrange a n v \<longrightarrow> uframe (memory s) root v \<noteq> None"
    and "unat a + 4096 * n \<le> 2 ^ 38"
  shows "\<exists>t fs. uvmunmap root a (of_nat n) True s = Ok () t \<and> unmaps root ps a n s fs t"
proof -
  have "(of_nat n :: u64) * PGSIZE = of_nat (4096 * n)" by (simp add: PGSIZE_def)
  then show ?thesis using uvmunmap_loop_frees [OF assms(1,3,4)] assms(2)
    by (simp add: uvmunmap_def page_aligned_mod del: of_nat_mult)
qed

lemma uvmdealloc_frees:
  assumes U: "uspace s root ps" and sz: "newsz < oldsz" "unat oldsz \<le> 2 ^ 38"
    and n: "n = pages_up oldsz - pages_up newsz"
    and mapped: "\<forall>v. vrange (PGROUNDUP newsz) n v \<longrightarrow> uframe (memory s) root v \<noteq> None"
  shows "\<exists>t fs. uvmdealloc root oldsz newsz s = Ok newsz t \<and> unmaps root ps (PGROUNDUP newsz) n s fs t"
proof -
  have nsz: "unat newsz < unat oldsz" using sz(1) by (simp add: word_less_nat_alt)
  have nge: "\<not> oldsz \<le> newsz" using sz(1) by simp
  have le: "pages_up newsz \<le> pages_up oldsz" unfolding pages_up_def using nsz by (intro div_le_mono) simp
  have ru: "unat (PGROUNDUP newsz) = 4096 * pages_up newsz" "unat (PGROUNDUP oldsz) = 4096 * pages_up oldsz"
    using nsz sz(2) by (simp_all add: unat_PGROUNDUP_pages)
  show ?thesis
  proof (cases "n = 0")
    case True
    then have "\<not> PGROUNDUP newsz < PGROUNDUP oldsz" using n le ru by (simp add: word_less_nat_alt)
    then have "uvmdealloc root oldsz newsz s = Ok newsz s" using nge by (simp add: uvmdealloc_def)
    then show ?thesis using unmaps_0 [OF U] True by blast
  next
    case False
    then have lt: "PGROUNDUP newsz < PGROUNDUP oldsz" using n ru by (simp add: word_less_nat_alt)
    have n26: "n \<le> 2 ^ 26" using n pages_up_le [OF sz(2)] by simp
    have "unat ((PGROUNDUP oldsz - PGROUNDUP newsz) div PGSIZE) = n"
      using lt ru n by (simp add: unat_div_distrib unat_sub PGSIZE_def less_imp_le diff_mult_distrib2 [symmetric])
    then have "(PGROUNDUP oldsz - PGROUNDUP newsz) div PGSIZE = of_nat n" by (metis of_nat_unat ucast_id)
    moreover have "(scast (ucast (of_nat n :: u64) :: u32) :: u64) = of_nat n" using n26 by (intro int_page_count) simp
    moreover have "unat (PGROUNDUP newsz) + 4096 * n \<le> 2 ^ 38"
      using ru(1) n le pages_up_le [OF sz(2)] by (simp add: diff_mult_distrib2)
    then obtain t fs where "uvmunmap root (PGROUNDUP newsz) (of_nat n) True s = Ok () t" "unmaps root ps (PGROUNDUP newsz) n s fs t"
      using uvmunmap_frees [OF U page_aligned_PGROUNDUP mapped] by blast
    ultimately show ?thesis using nge lt by (auto simp: uvmdealloc_def Let_def)
  qed
qed

section \<open>Adding pages\<close>

lemma uspace_keep:
  assumes U: "uspace s root ps" and ps: "ps = us @ qs" and inv: "pt_inv t root qs" and ext: "extends root s us t"
    and tr: "\<forall>v < MAXVA. translate (memory t) root v = translate (memory s) root v"
  shows "uspace t root qs" and "uframe (memory t) root v = uframe (memory s) root v"
    and "umem (memory t) root v = umem (memory s) root v"
proof -
  note D = uspaceD [OF U]
  have uf: "uframe (memory t) root v = uframe (memory s) root v" for v using tr by (simp add: uframe_def)
  then show "uframe (memory t) root v = uframe (memory s) root v" .
  have kp: "kpage t = kpage s" using ext unfolding extends_def by (metis kpage_update)
  have tab: "tables (memory t) root \<subseteq> tables (memory s) root \<union> set us" using ext by (simp add: extends_def)
  have "kpage t f \<and> f \<notin> tables (memory t) root \<and> f \<notin> set qs" if "uframe (memory s) root v = Some f" for v f
    using D(4) [OF that] tab kp ps by auto
  then show "uspace t root qs" using inv U uf unfolding uspace_def by metis
  have "memory t (f + page_off v) = memory s (f + page_off v)" if f: "uframe (memory s) root v = Some f" for f
  proof -
    have ir: "in_range (f + page_off v) f 4096"
      using in_range_offset [of "unat v mod 4096" 4096 f] by (simp add: page_off_of_nat)
    have "\<not> in_range (f + page_off v) p 4096" if p: "p \<in> tables (memory s) root \<union> set us" for p
    proof -
      have "kpage s p" using p D(2,3) ps by (auto simp: free_pages_def)
      moreover have "f \<noteq> p" using p D(4) [OF f] ps by auto
      ultimately show ?thesis using kpages_disjoint [of s f p] D(4) [OF f] ir by blast
    qed
    then show ?thesis using ext unfolding extends_def by blast
  qed
  then show "umem (memory t) root v = umem (memory s) root v" using uf by (auto simp: umem_def split: option.split)
qed

lemma unmapped_next:
  assumes "unmapped m root a (Suc n)" and "adds_maps root m a 1 pa perm m1" and "a < MAXVA"
  shows "unmapped m1 root (a + PGSIZE) n"
  using assms(1,2) vpn_next [OF assms(3)] by (auto simp: unmapped_def adds_maps_def)

lemma unmapped_cong:
  "(\<And>v. translate m1 root v = translate m root v) \<Longrightarrow> unmapped m1 root a n = unmapped m root a n"
  by (simp add: unmapped_def)

lemma vpn_aligned: "page_aligned a \<Longrightarrow> unat a = 4096 * vpn a"
  by (auto simp: vpn_def elim!: page_alignedE)

text \<open>Undoing a partial growth from \<open>lo\<close> to \<open>a\<close>.\<close>

lemma dealloc_back:
  assumes U: "uspace s root ps" and al: "page_aligned lo" "page_aligned a" and le: "lo \<le> a" and sz: "unat a \<le> 2 ^ 38"
    and mapped: "\<forall>v. vrange lo (vpn a - vpn lo) v \<longrightarrow> uframe (memory s) root v \<noteq> None"
  shows "\<exists>r t fs. uvmdealloc root a lo s = Ok r t \<and> unmaps root ps lo (vpn a - vpn lo) s fs t"
proof (cases "lo = a")
  case True
  then show ?thesis using unmaps_0 [OF U] by (auto simp: uvmdealloc_def)
next
  case False
  then have lt: "lo < a" using le by simp
  have up: "pages_up b = vpn b" if "page_aligned b" for b
    using vpn_aligned [OF that] by (simp add: pages_up_def)
  have "unat lo \<le> 2 ^ 38" using le sz by (simp add: word_le_nat_alt)
  then have "PGROUNDUP lo = lo"
    using unat_PGROUNDUP_pages [of lo] vpn_aligned [OF al(1)] up [OF al(1)] by (simp add: word_unat_eq_iff)
  then show ?thesis using uvmdealloc_frees [OF U lt sz, of "vpn a - vpn lo"] mapped up [OF al(1)] up [OF al(2)] by auto
qed

text \<open>\<open>n\<close> pages of zeros have appeared at \<open>a\<close>.\<close>

definition grown :: "u64 \<Rightarrow> u64 \<Rightarrow> nat \<Rightarrow> 'z kmem_scheme \<Rightarrow> 'z kmem_scheme \<Rightarrow> u64 list \<Rightarrow> bool" where
  "grown root a n s t qs \<longleftrightarrow> uspace t root qs \<and> t = s\<lparr>memory := memory t, freelist := freelist t\<rparr> \<and>
     (\<forall>v. umem (memory t) root v = (if vrange a n v then Some 0 else umem (memory s) root v))"

lemma umem_uframe: "umem m root v = None \<longleftrightarrow> uframe m root v = None"
  by (simp add: umem_def split: option.split)

lemma grown_Suc:
  assumes "a < MAXVA" and "t = s\<lparr>memory := memory t, freelist := freelist t\<rparr>"
    and "\<And>v. umem (memory t) root v = (if vpn v = vpn a then Some 0 else umem (memory s) root v)"
    and "grown root (a + PGSIZE) n t u qs"
  shows "grown root a (Suc n) s u qs"
proof -
  have "u = t\<lparr>memory := memory u, freelist := freelist u\<rparr>" using assms(4) by (simp add: grown_def)
  then have "u = s\<lparr>memory := memory u, freelist := freelist u\<rparr>" by (rule kmem_only_trans [OF assms(2)])
  then show ?thesis using assms(3,4) vrange_Suc [OF assms(1), of n] by (simp add: grown_def)
qed

text \<open>
  One round of \<^verbatim>\<open>uvmalloc\<close>: the page just allocated is mapped, or everything is put back.
\<close>

lemma alloc_round:
  assumes U: "uspace s root (pg # ps)" and t: "kalloc s = Ok pg t" and u: "u = t\<lparr>memory := memset (memory t) pg 0 4096\<rparr>"
    and a: "page_aligned a" "a < MAXVA" and none: "unmapped (memory s) root a 1"
    and perm: "unat perm < 2 ^ 10" "perm AND PTE_U \<noteq> 0"
  obtains r w qs where "mappages root a PGSIZE pg perm u = Ok r w"
    "w = s\<lparr>memory := memory w, freelist := freelist w\<rparr>"
    "r = 0 \<and> uspace w root qs \<and> adds_maps root (memory s) a 1 pg perm (memory w) \<and>
       (\<forall>v. umem (memory w) root v = (if vpn v = vpn a then Some 0 else umem (memory s) root v)) \<or>
     r = -1 \<and> uspace w root [] \<and> kpage w pg \<and> pg \<notin> tables (memory w) root \<and>
       (\<forall>v. uframe (memory w) root v \<noteq> Some pg) \<and>
       (\<forall>v. umem (memory w) root v = umem (memory s) root v)"
proof -
  have m: "\<forall>x. \<not> in_range x pg 4096 \<longrightarrow> memset (memory t) pg 0 4096 x = memory t x"
    by (simp add: memset_apply)
  note A = uspace_alloc [OF U t m u]
  have "unat a + 4096 * 0 < 2 ^ 38" using a(2) by (simp add: word_less_nat_alt unat_MAXVA)
  moreover have "unmapped (memory u) root a (Suc 0)" using none unmapped_cong [of "memory u" root "memory s"] A(4) by simp
  ultimately obtain r w us qs where w: "mappages_loop root a (a + of_nat (4096 * 0)) pg perm u = Ok r w" "ps = us @ qs"
      "mapped root a (Suc 0) pg perm u us r w qs"
    using mappages_loop_maps [OF uspaceD(1) [OF A(1)], of a 0] by blast
  have mp: "mappages root a PGSIZE pg perm u = Ok r w"
    using w(1) a(1) by (simp add: mappages_def page_aligned_mod PGSIZE_def)
  have W: "pt_inv w root qs" "extends root u us w" using w(3) by (simp_all add: mapped_def)
  then have "w = u\<lparr>memory := memory w, freelist := freelist w\<rparr>" by (simp add: extends_def)
  then have ws: "w = s\<lparr>memory := memory w, freelist := freelist w\<rparr>" by (rule kmem_only_trans [OF A(9)])
  show ?thesis
  proof (cases "r = 0")
    case True
    then have am: "adds_maps root (memory u) a 1 pg perm (memory w)" using w(3) by (simp add: mapped_def)
    note M = uspace_map [OF A(1) w(2) W am a(2) A(5,6,7,8) perm]
    have z: "memory u (pg + page_off v) = 0" for v
      using in_range_offset [of "unat v mod 4096" 4096 pg] by (simp add: u memset_apply page_off_of_nat)
    have "adds_maps root (memory s) a 1 pg perm (memory w)" using am A(4) by (simp add: adds_maps_def)
    then show ?thesis using that [OF mp ws] True M z A(2) by simp
  next
    case False
    then have r: "r = -1" "qs = []" and am: "adds_maps root (memory u) a 0 pg perm (memory w)"
      using w(3) by (auto simp: mapped_def)
    have tr: "\<forall>v < MAXVA. translate (memory w) root v = translate (memory u) root v" using am by (auto simp: adds_maps_def)
    note K = uspace_keep [OF A(1) w(2) W tr]
    have "kpage w pg" using A(5) W(2) unfolding extends_def by (metis kpage_update)
    moreover have "pg \<notin> tables (memory w) root" using W(2) A(6,7) w(2) by (auto simp: extends_def)
    ultimately show ?thesis using that [OF mp ws] r K A(2,3,8) by simp
  qed
qed

lemma loop_guard:
  assumes "page_aligned a" and "pages_up sz = vpn a + n"
  shows "a < sz \<longleftrightarrow> 0 < n"
proof -
  have "unat a < unat sz \<longleftrightarrow> vpn a < (unat sz + 4095) div 4096" using vpn_aligned [OF assms(1)] by auto
  then show ?thesis using assms(2) by (simp add: pages_up_def word_less_nat_alt)
qed

lemma vrange_0 [simp]: "\<not> vrange a 0 v"
  by (simp add: vrange_def)

lemma page_aligned_next: "page_aligned a \<Longrightarrow> a < MAXVA \<Longrightarrow> page_aligned (a + PGSIZE)"
  by (simp add: page_aligned_def unat_next_page)

text \<open>The pages from \<open>lo\<close> to \<open>a\<close> have been taken away again.\<close>

definition undone :: "u64 \<Rightarrow> u64 \<Rightarrow> u64 \<Rightarrow> 'z kmem_scheme \<Rightarrow> 'z kmem_scheme \<Rightarrow> u64 list \<Rightarrow> bool" where
  "undone root lo a s t qs \<longleftrightarrow> uspace t root qs \<and> t = s\<lparr>memory := memory t, freelist := freelist t\<rparr> \<and>
     (\<forall>v. umem (memory t) root v = (if vrange lo (vpn a - vpn lo) v then None else umem (memory s) root v))"

lemma uvmdealloc_undoes:
  assumes w: "uspace w root rs" "w = s\<lparr>memory := memory w, freelist := freelist w\<rparr>"
      "\<forall>v. umem (memory w) root v = umem (memory s) root v"
    and al: "page_aligned lo" "page_aligned a" "lo \<le> a" "unat a \<le> 2 ^ 38"
    and mapped: "\<forall>v. vrange lo (vpn a - vpn lo) v \<longrightarrow> umem (memory s) root v \<noteq> None"
  shows "\<exists>t qs. obind (uvmdealloc root a lo w) (\<lambda>_ s. Ok r s) = Ok r t \<and> undone root lo a s t qs"
proof -
  have mp: "\<forall>v. vrange lo (vpn a - vpn lo) v \<longrightarrow> uframe (memory w) root v \<noteq> None"
    using mapped w(3) unfolding umem_uframe [symmetric] by simp
  obtain r t fs where t: "uvmdealloc root a lo w = Ok r t" "unmaps root rs lo (vpn a - vpn lo) w fs t"
    using dealloc_back [OF w(1) al mp] by blast
  have "t = w\<lparr>memory := memory t, freelist := freelist t\<rparr>" using t(2) by (simp add: unmaps_def)
  then have "t = s\<lparr>memory := memory t, freelist := freelist t\<rparr>" by (rule kmem_only_trans [OF w(2)])
  then show ?thesis using t w(3) by (auto simp: unmaps_def undone_def)
qed

lemma undone_Suc:
  assumes "undone root lo (a + PGSIZE) w t qs" and "w = s\<lparr>memory := memory w, freelist := freelist w\<rparr>"
    and w: "\<forall>v. umem (memory w) root v = (if vpn v = vpn a then x v else umem (memory s) root v)"
    and a: "a < MAXVA" "lo \<le> a" and none: "\<forall>v. vpn v = vpn a \<longrightarrow> umem (memory s) root v = None"
  shows "undone root lo a s t qs"
proof -
  have "vpn lo \<le> vpn a" using a(2) by (simp add: vpn_def word_le_nat_alt div_le_mono)
  then have vr: "vrange lo (vpn (a + PGSIZE) - vpn lo) v \<longleftrightarrow> vrange lo (vpn a - vpn lo) v \<or> vpn v = vpn a" for v
    by (auto simp: vrange_def vpn_next [OF a(1)])
  have "umem (memory t) root v = (if vrange lo (vpn a - vpn lo) v then None else umem (memory s) root v)" for v
    using assms(1) w none vr [of v] by (simp add: undone_def)
  then show ?thesis using assms(1) kmem_only_trans [OF assms(2), of t] by (simp add: undone_def)
qed

lemma uvmalloc_round:
  assumes U: "uspace s root ps" and lt: "a < newsz" and a: "page_aligned a" "a < MAXVA" "unat a \<le> 2 ^ 38"
    and lo: "page_aligned lo" "lo \<le> a"
    and un: "unmapped (memory s) root a 1" and perm: "unat (PTE_R OR PTE_U OR xperm) < 2 ^ 10"
    and mapped: "\<forall>v. vrange lo (vpn a - vpn lo) v \<longrightarrow> umem (memory s) root v \<noteq> None"
  shows "(\<exists>t qs. uvmalloc_loop root a lo newsz xperm s = Ok 0 t \<and> undone root lo a s t qs) \<or>
     (\<exists>w qs pg. uvmalloc_loop root a lo newsz xperm s = uvmalloc_loop root (a + PGSIZE) lo newsz xperm w \<and>
       uspace w root qs \<and> w = s\<lparr>memory := memory w, freelist := freelist w\<rparr> \<and>
       adds_maps root (memory s) a 1 pg (PTE_R OR PTE_U OR xperm) (memory w) \<and>
       (\<forall>v. umem (memory w) root v = (if vpn v = vpn a then Some 0 else umem (memory s) root v)))"
proof (cases ps)
  case Nil
  then have "kalloc s = Ok 0 s" using uspaceD(2) [OF U] by (simp add: kalloc_empty)
  then have "uvmalloc_loop root a lo newsz xperm s = obind (uvmdealloc root a lo s) (\<lambda>_ s. Ok 0 s)"
    using lt by (subst uvmalloc_loop.simps) simp
  then show ?thesis using uvmdealloc_undoes [OF U _ _ lo(1) a(1) lo(2) a(3) mapped, of 0] by auto
next
  case (Cons pg ps')
  let ?perm = "PTE_R OR PTE_U OR xperm"
  have pu: "?perm AND PTE_U \<noteq> 0"
  proof -
    have "bit (?perm AND PTE_U) 4" by (simp add: bit_simps bit_PTE_U)
    then show ?thesis by (metis bit_0_eq bot_apply bot_bool_def)
  qed
  have U: "uspace s root (pg # ps')" using U Cons by simp
  obtain t where t: "kalloc s = Ok pg t" using kalloc_cons uspaceD(2) [OF U] by metis
  have nz: "pg \<noteq> 0" using uspaceD(2) [OF U] by (simp add: free_pages_def)
  obtain r w qs where w: "mappages root a PGSIZE pg ?perm (t\<lparr>memory := memset (memory t) pg 0 4096\<rparr>) = Ok r w"
      "w = s\<lparr>memory := memory w, freelist := freelist w\<rparr>"
      "r = 0 \<and> uspace w root qs \<and> adds_maps root (memory s) a 1 pg ?perm (memory w) \<and>
         (\<forall>v. umem (memory w) root v = (if vpn v = vpn a then Some 0 else umem (memory s) root v)) \<or>
       r = -1 \<and> uspace w root [] \<and> kpage w pg \<and> pg \<notin> tables (memory w) root \<and>
         (\<forall>v. uframe (memory w) root v \<noteq> Some pg) \<and>
         (\<forall>v. umem (memory w) root v = umem (memory s) root v)"
    by (rule alloc_round [OF U t refl a(1,2) un perm pu])
  have step: "uvmalloc_loop root a lo newsz xperm s =
      (if r \<noteq> 0 then obind (kfree pg w) (\<lambda>_ s. obind (uvmdealloc root a lo s) (\<lambda>_ s. Ok 0 s))
       else uvmalloc_loop root (a + PGSIZE) lo newsz xperm w)"
    using lt t nz w(1) by (subst uvmalloc_loop.simps) (simp add: Let_def)
  show ?thesis
  proof (cases "r = 0")
    case True
    then show ?thesis using step w(2,3) by auto
  next
    case False
    then have W: "uspace w root []" "kpage w pg" "pg \<notin> tables (memory w) root" "pg \<notin> set []"
        "\<And>v. uframe (memory w) root v \<noteq> Some pg" "\<forall>v. umem (memory w) root v = umem (memory s) root v"
      using w(3) by auto
    obtain x where x: "kfree pg w = Ok () x" "uspace x root [pg]" "x = w\<lparr>memory := memory x, freelist := freelist x\<rparr>"
        "\<And>v. umem (memory x) root v = umem (memory w) root v"
      by (rule uspace_free [OF W(1-5)]) blast
    have "\<forall>v. umem (memory x) root v = umem (memory s) root v" using x(4) W(6) by simp
    from uvmdealloc_undoes [OF x(2) kmem_only_trans [OF w(2) x(3)] this lo(1) a(1) lo(2) a(3) mapped, of 0]
    show ?thesis using step False x(1) by auto
  qed
qed

lemma uvmalloc_loop_grows:
  assumes "uspace s root ps" and "page_aligned a" and "page_aligned lo" and "lo \<le> a" and "unat newsz \<le> 2 ^ 38"
    and "pages_up newsz = vpn a + n" and "unmapped (memory s) root a n"
    and "\<forall>v. vrange lo (vpn a - vpn lo) v \<longrightarrow> umem (memory s) root v \<noteq> None"
    and "unat (PTE_R OR PTE_U OR xperm) < 2 ^ 10"
  shows "\<exists>t qs. uvmalloc_loop root a lo newsz xperm s = Ok newsz t \<and> grown root a n s t qs \<or>
     uvmalloc_loop root a lo newsz xperm s = Ok 0 t \<and> undone root lo a s t qs"
  using assms
proof (induction n arbitrary: a s ps)
  case (0 a s ps)
  then have "\<not> a < newsz" using loop_guard [of a newsz 0] by simp
  then have "uvmalloc_loop root a lo newsz xperm s = Ok newsz s" by (subst uvmalloc_loop.simps) simp
  moreover have "grown root a 0 s s ps" using 0(1) by (simp add: grown_def)
  ultimately show ?case by blast
next
  case (Suc n a s ps)
  note prems = Suc.prems
  have lt: "a < newsz" using loop_guard [OF prems(2,6)] by simp
  then have a: "a < MAXVA" "unat a \<le> 2 ^ 38" using prems(5) by (simp_all add: word_less_nat_alt unat_MAXVA)
  have un: "unmapped (memory s) root a 1" using prems(7) by (simp add: unmapped_def)
  from uvmalloc_round [OF prems(1) lt prems(2) a prems(3,4) un prems(9,8)]
  consider t qs where "uvmalloc_loop root a lo newsz xperm s = Ok 0 t" "undone root lo a s t qs"
    | w qs pg where "uvmalloc_loop root a lo newsz xperm s = uvmalloc_loop root (a + PGSIZE) lo newsz xperm w"
       "uspace w root qs" "w = s\<lparr>memory := memory w, freelist := freelist w\<rparr>"
       "adds_maps root (memory s) a 1 pg (PTE_R OR PTE_U OR xperm) (memory w)"
       "\<forall>v. umem (memory w) root v = (if vpn v = vpn a then Some 0 else umem (memory s) root v)" by blast
  then show ?case
  proof cases
    case 1
    then show ?thesis by blast
  next
    case (2 w qs pg)
    have lole: "lo \<le> a + PGSIZE" using prems(4) unat_next_page [OF a(1)] by (simp add: word_le_nat_alt)
    have mp: "\<forall>v. vrange lo (vpn (a + PGSIZE) - vpn lo) v \<longrightarrow> umem (memory w) root v \<noteq> None"
      using prems(8) 2(5) by (auto simp: vrange_def vpn_next [OF a(1)] less_Suc_eq)
    have pu: "pages_up newsz = vpn (a + PGSIZE) + n" using prems(6) vpn_next [OF a(1)] by simp
    have none: "\<forall>v. vpn v = vpn a \<longrightarrow> umem (memory s) root v = None"
      using un by (auto simp: umem_uframe uframe_def unmapped_def)
    obtain y ys where "uvmalloc_loop root (a + PGSIZE) lo newsz xperm w = Ok newsz y \<and> grown root (a + PGSIZE) n w y ys \<or>
        uvmalloc_loop root (a + PGSIZE) lo newsz xperm w = Ok 0 y \<and> undone root lo (a + PGSIZE) w y ys"
      using Suc.IH [OF 2(2) page_aligned_next [OF prems(2) a(1)] prems(3) lole prems(5) pu
          unmapped_next [OF prems(7) 2(4) a(1)] mp prems(9)] by blast
    then show ?thesis
      using 2(1) grown_Suc [OF a(1) 2(3), of root n y ys] 2(5) undone_Suc [OF _ 2(3,5) a(1) prems(4) none] by metis
  qed
qed

section \<open>Growing and shrinking a process\<close>

lemma vpn_PGROUNDUP: "unat sz \<le> 2 ^ 38 \<Longrightarrow> vpn (PGROUNDUP sz) = pages_up sz"
  using unat_PGROUNDUP_pages [of sz] by (simp add: vpn_def)

text \<open>C14. \<^verbatim>\<open>uvmalloc\<close> is all or nothing. It either returns the new size and the user sees pages of
  zeros between the old and the new size, every other byte being as before; or it returns 0 because
  memory ran out, and the user sees exactly the memory it saw before. The invariant of the
  address space and of the free list holds in both cases.
\<close>

theorem uvmalloc_all_or_nothing:
  assumes "uspace s root ps" and "oldsz \<le> newsz" and "unat newsz \<le> 2 ^ 38"
    and "unmapped (memory s) root (PGROUNDUP oldsz) (pages_up newsz - pages_up oldsz)"
    and "unat (PTE_R OR PTE_U OR xperm) < 2 ^ 10"
  shows "\<exists>t qs. uvmalloc root oldsz newsz xperm s = Ok newsz t \<and>
       grown root (PGROUNDUP oldsz) (pages_up newsz - pages_up oldsz) s t qs \<or>
     uvmalloc root oldsz newsz xperm s = Ok 0 t \<and> uspace t root qs \<and>
       (\<forall>v. umem (memory t) root v = umem (memory s) root v)"
proof -
  let ?a = "PGROUNDUP oldsz" and ?n = "pages_up newsz - pages_up oldsz"
  have le: "unat oldsz \<le> unat newsz" using assms(2) by (simp add: word_le_nat_alt)
  then have "pages_up oldsz \<le> pages_up newsz" unfolding pages_up_def by (intro div_le_mono) simp
  then have pu: "pages_up newsz = vpn ?a + ?n" using vpn_PGROUNDUP [of oldsz] le assms(3) by simp
  have nl: "\<not> newsz < oldsz" using assms(2) by simp
  obtain t qs where "uvmalloc_loop root ?a ?a newsz xperm s = Ok newsz t \<and> grown root ?a ?n s t qs \<or>
      uvmalloc_loop root ?a ?a newsz xperm s = Ok 0 t \<and> undone root ?a ?a s t qs"
    using uvmalloc_loop_grows [OF assms(1) page_aligned_PGROUNDUP page_aligned_PGROUNDUP order_refl assms(3) pu assms(4) _ assms(5)]
    by auto
  then show ?thesis using nl by (intro exI [of _ t] exI [of _ qs]) (auto simp: uvmalloc_def undone_def)
qed

theorem uvmalloc_all_or_nothing_witness:
  "\<exists>t qs. uvmalloc demo_root 0 1 PTE_W demo_kmem = Ok 1 t \<and> grown demo_root 0 1 demo_kmem t qs \<or>
     uvmalloc demo_root 0 1 PTE_W demo_kmem = Ok 0 t \<and> uspace t demo_root qs \<and>
       (\<forall>v. umem (memory t) demo_root v = umem (memory demo_kmem) demo_root v)"
proof -
  have "PGROUNDUP 0 = 0" "pages_up 0 = 0" "pages_up 1 = 1" by (simp_all add: PGROUNDUP_def PGSIZE_def pages_up_def)
  moreover have "unat (PTE_R OR PTE_U OR PTE_W) < 2 ^ 10" by (simp add: PTE_R_def PTE_W_def PTE_U_def)
  ultimately show ?thesis
    using uvmalloc_all_or_nothing [OF demo_space, of 0 1 PTE_W] by (simp add: unmapped_def demo_none)
qed

text \<open>C16. \<^verbatim>\<open>uvmdealloc\<close> takes away exactly the pages between the new and the old size: the user sees
  every other byte as before, the freed frames are back on the free list, once each, and the
  page count, which the code keeps in an \<^verbatim>\<open>int\<close>, does not overflow.
\<close>

theorem uvmdealloc_shrinks:
  assumes "uspace s root ps" and "newsz < oldsz" and "unat oldsz \<le> 2 ^ 38"
    and "n = pages_up oldsz - pages_up newsz"
    and "\<forall>v. vrange (PGROUNDUP newsz) n v \<longrightarrow> umem (memory s) root v \<noteq> None"
  shows "\<exists>t fs. uvmdealloc root oldsz newsz s = Ok newsz t \<and> unmaps root ps (PGROUNDUP newsz) n s fs t"
  using uvmdealloc_frees [OF assms(1-4)] assms(5) unfolding umem_uframe by blast

theorem uvmdealloc_shrinks_witness:
  "\<exists>(s :: kmem) ps t fs. uspace s demo_root ps \<and> uvmdealloc demo_root 1 0 s = Ok 0 t \<and> unmaps demo_root ps 0 1 s fs t"
proof -
  obtain s :: kmem and ps where s: "uspace s demo_root ps" "\<And>v. vpn v = 0 \<Longrightarrow> umem (memory s) demo_root v = Some 0"
    using demo_page by blast
  have e: "PGROUNDUP 0 = 0" "pages_up 1 - pages_up 0 = 1" by (simp_all add: PGROUNDUP_def PGSIZE_def pages_up_def)
  have "vrange 0 1 v \<Longrightarrow> vpn v = 0" for v by (simp add: vrange_def vpn_def)
  then have "\<forall>v. vrange (PGROUNDUP 0) 1 v \<longrightarrow> umem (memory s) demo_root v \<noteq> None" using s(2) e by auto
  then show ?thesis using uvmdealloc_shrinks [OF s(1), of 0 1 1] s(1) e by auto
qed

end
