(* ===== verification/Proc.thy ===== *)
theory Proc
  imports Vm
begin

text \<open>
  The process table of \<^verbatim>\<open>kernel/proc.c\<close>: allocation and release of process slots,
  the user page table of a process, sleeping, waking and killing, and the copies between
  kernel and user memory. \<^verbatim>\<open>fork\<close>, \<^verbatim>\<open>exit\<close> and \<^verbatim>\<open>wait\<close>, which need
  the file layer, are in the theory \<open>Proc_Life\<close>; the scheduler is in \<open>Sched\<close>.

  A pointer into \<^verbatim>\<open>proc[]\<close> is an index, a null pointer is \<open>None\<close>. \<open>cur\<close> is
  \<^verbatim>\<open>mycpu()->proc\<close> for the CPU that executes the code. Dereferencing a null
  \<^verbatim>\<open>myproc()\<close> is a page fault in kernel mode, which \<^verbatim>\<open>kerneltrap\<close> turns into a
  panic. The critical sections under \<^verbatim>\<open>p->lock\<close>, \<^verbatim>\<open>pid_lock\<close> and
  \<^verbatim>\<open>wait_lock\<close> are atomic.
\<close>

section \<open>State\<close>

datatype procstate = UNUSED | USED | SLEEPING | RUNNABLE | RUNNING | ZOMBIE

record kcontext =
  ctx_ra :: u64
  ctx_sp :: u64
  ctx_s :: "u64 list"

record proc =
  p_state :: procstate
  p_chan :: "chan option"
  p_killed :: bool
  p_xstate :: int
  p_pid :: int
  p_parent :: "nat option"
  p_kstack :: u64
  p_sz :: u64
  p_pagetable :: u64
  p_trapframe :: u64
  p_context :: kcontext
  p_ofile :: "nat option list"
  p_cwd :: "nat option"
  p_name :: "u8 list"

text \<open>
  \<open>trampoline\<close> and \<open>forkret_pc\<close> are the addresses the linker gives to
  \<^verbatim>\<open>trampoline\<close> and \<^verbatim>\<open>forkret\<close>.
\<close>

record kproc = kmem +
  procs :: "proc list"
  cur :: "nat option"
  initproc :: "nat option"
  nextpid :: int
  trampoline :: u64
  forkret_pc :: u64

definition NOFILE :: nat where "NOFILE = 16"

text \<open>
  C gives static data the value zero; the linker and the boot code fix the other fields.
  \<open>kproc0\<close> and its extensions in the later theories are such a state, used to exercise
  the operations.
\<close>

definition proc0 :: proc where
  "proc0 = \<lparr>p_state = UNUSED, p_chan = None, p_killed = False, p_xstate = 0, p_pid = 0,
     p_parent = None, p_kstack = 0, p_sz = 0, p_pagetable = 0, p_trapframe = 0,
     p_context = \<lparr>ctx_ra = 0, ctx_sp = 0, ctx_s = replicate 12 0\<rparr>,
     p_ofile = replicate NOFILE None, p_cwd = None, p_name = replicate 16 0\<rparr>"

definition kproc0 :: kproc where
  "kproc0 = \<lparr>memory = \<lambda>_. 0, freelist = 0, kend = 0x80020000, procs = replicate NPROC proc0,
     cur = None, initproc = None, nextpid = 1, trampoline = 0x80007000, forkret_pc = 0x80001000\<rparr>"

definition upd_proc :: "nat \<Rightarrow> (proc \<Rightarrow> proc) \<Rightarrow> 'z kproc_scheme \<Rightarrow> 'z kproc_scheme" where
  "upd_proc i f s = s\<lparr>procs := (procs s)[i := f (procs s ! i)]\<rparr>"

definition myproc :: "'z kproc_scheme \<Rightarrow> nat option" where
  "myproc s = cur s"

definition with_proc ::
  "(nat \<Rightarrow> 'z kproc_scheme \<Rightarrow> ('a, 'z kproc_scheme) outcome) \<Rightarrow> 'z kproc_scheme \<Rightarrow>
   ('a, 'z kproc_scheme) outcome" where
  "with_proc f s = (case myproc s of None \<Rightarrow> Panic ''kerneltrap'' | Some p \<Rightarrow> f p s)"

definition procinit :: "'z kproc_scheme \<Rightarrow> 'z kproc_scheme" where
  "procinit s =
     s\<lparr>procs := map (\<lambda>i. (procs s ! i)\<lparr>p_state := UNUSED, p_kstack := KSTACK i\<rparr>) [0..<NPROC]\<rparr>"

section \<open>Process slots\<close>

definition allocpid :: "'z kproc_scheme \<Rightarrow> (int, 'z kproc_scheme) outcome" where
  "allocpid s = Ok (nextpid s) (s\<lparr>nextpid := nextpid s + 1\<rparr>)"

text \<open>A page table has three levels, so this is the fuel \<open>freewalk\<close> needs.\<close>

definition PT_LEVELS :: nat where "PT_LEVELS = 3"

definition proc_pagetable :: "nat \<Rightarrow> 'z kproc_scheme \<Rightarrow> (u64, 'z kproc_scheme) outcome" where
  "proc_pagetable p s =
     obind (uvmcreate s) (\<lambda>pagetable s.
     if pagetable = 0 then Ok 0 s
     else obind (mappages pagetable TRAMPOLINE PGSIZE (trampoline s) (PTE_R OR PTE_X) s) (\<lambda>r s.
     if r < 0 then obind (uvmfree PT_LEVELS pagetable 0 s) (\<lambda>_ s. Ok 0 s)
     else obind (mappages pagetable TRAPFRAME PGSIZE (p_trapframe (procs s ! p))
                   (PTE_R OR PTE_W) s) (\<lambda>r s.
     if r < 0
     then obind (uvmunmap pagetable TRAMPOLINE 1 False s) (\<lambda>_ s.
          obind (uvmfree PT_LEVELS pagetable 0 s) (\<lambda>_ s. Ok 0 s))
     else Ok pagetable s)))"

definition proc_freepagetable ::
  "u64 \<Rightarrow> u64 \<Rightarrow> 'z kmem_scheme \<Rightarrow> (unit, 'z kmem_scheme) outcome" where
  "proc_freepagetable pagetable sz s =
     obind (uvmunmap pagetable TRAMPOLINE 1 False s) (\<lambda>_ s.
     obind (uvmunmap pagetable TRAPFRAME 1 False s) (\<lambda>_ s.
     uvmfree PT_LEVELS pagetable sz s))"

definition freeproc :: "nat \<Rightarrow> 'z kproc_scheme \<Rightarrow> (unit, 'z kproc_scheme) outcome" where
  "freeproc p s =
     obind (if p_trapframe (procs s ! p) \<noteq> 0 then kfree (p_trapframe (procs s ! p)) s else Ok () s)
     (\<lambda>_ s.
     let s = upd_proc p (\<lambda>q. q\<lparr>p_trapframe := 0\<rparr>) s in
     obind (if p_pagetable (procs s ! p) \<noteq> 0
            then proc_freepagetable (p_pagetable (procs s ! p)) (p_sz (procs s ! p)) s
            else Ok () s) (\<lambda>_ s.
     Ok () (upd_proc p (\<lambda>q. q\<lparr>p_pagetable := 0, p_sz := 0, p_pid := 0, p_parent := None,
       p_name := (p_name q)[0 := 0], p_chan := None, p_killed := False, p_xstate := 0,
       p_state := UNUSED\<rparr>) s)))"

fun find_unused :: "nat list \<Rightarrow> 'z kproc_scheme \<Rightarrow> nat option" where
  "find_unused [] s = None"
| "find_unused (p # ps) s =
     (if p_state (procs s ! p) = UNUSED then Some p else find_unused ps s)"

definition allocproc :: "'z kproc_scheme \<Rightarrow> (nat option, 'z kproc_scheme) outcome" where
  "allocproc s =
     (case find_unused [0..<NPROC] s of
        None \<Rightarrow> Ok None s
      | Some p \<Rightarrow>
          obind (allocpid s) (\<lambda>pid s.
          let s = upd_proc p (\<lambda>q. q\<lparr>p_pid := pid, p_state := USED\<rparr>) s in
          obind (kalloc s) (\<lambda>tf s.
          let s = upd_proc p (\<lambda>q. q\<lparr>p_trapframe := tf\<rparr>) s in
          if tf = 0 then obind (freeproc p s) (\<lambda>_ s. Ok None s)
          else obind (proc_pagetable p s) (\<lambda>pt s.
          let s = upd_proc p (\<lambda>q. q\<lparr>p_pagetable := pt\<rparr>) s in
          if pt = 0 then obind (freeproc p s) (\<lambda>_ s. Ok None s)
          else
            Ok (Some p) (upd_proc p (\<lambda>q. q\<lparr>p_context :=
              \<lparr>ctx_ra = forkret_pc s, ctx_sp = p_kstack q + PGSIZE, ctx_s = replicate 12 0\<rparr>\<rparr>) s)))))"

definition growproc :: "int \<Rightarrow> 'z kproc_scheme \<Rightarrow> (int, 'z kproc_scheme) outcome" where
  "growproc n = with_proc (\<lambda>p s.
     let sz = p_sz (procs s ! p); pt = p_pagetable (procs s ! p) in
     if n > 0
     then obind (uvmalloc pt sz (sz + of_int n) PTE_W s) (\<lambda>sz s.
       if sz = 0 then Ok (-1) s else Ok 0 (upd_proc p (\<lambda>q. q\<lparr>p_sz := sz\<rparr>) s))
     else if n < 0
     then obind (uvmdealloc pt sz (sz + of_int n) s) (\<lambda>sz s.
       Ok 0 (upd_proc p (\<lambda>q. q\<lparr>p_sz := sz\<rparr>) s))
     else Ok 0 (upd_proc p (\<lambda>q. q\<lparr>p_sz := sz\<rparr>) s))"

section \<open>Sleeping, waking, killing\<close>

text \<open>
  \<^verbatim>\<open>sleep\<close> leaves the process SLEEPING on the channel and gives up the CPU. The code
  after its call of \<^verbatim>\<open>sched\<close> runs when the process is scheduled again
  (\<open>sleep_resume\<close>); every caller then re-tests its condition, that is, starts its loop
  again in the state it finds.
\<close>

definition sleep :: "chan \<Rightarrow> 'z kproc_scheme \<Rightarrow> ('a, 'z kproc_scheme) outcome" where
  "sleep c = with_proc (\<lambda>p s.
     Sleeps c (upd_proc p (\<lambda>q. q\<lparr>p_chan := Some c, p_state := SLEEPING\<rparr>) s))"

definition sleep_resume :: "'z kproc_scheme \<Rightarrow> (unit, 'z kproc_scheme) outcome" where
  "sleep_resume = with_proc (\<lambda>p s. Ok () (upd_proc p (\<lambda>q. q\<lparr>p_chan := None\<rparr>) s))"

fun wakeup_loop :: "nat list \<Rightarrow> chan \<Rightarrow> 'z kproc_scheme \<Rightarrow> 'z kproc_scheme" where
  "wakeup_loop [] c s = s"
| "wakeup_loop (p # ps) c s =
     wakeup_loop ps c
       (if Some p \<noteq> myproc s \<and> p_state (procs s ! p) = SLEEPING \<and> p_chan (procs s ! p) = Some c
        then upd_proc p (\<lambda>q. q\<lparr>p_state := RUNNABLE\<rparr>) s else s)"

definition wakeup :: "chan \<Rightarrow> 'z kproc_scheme \<Rightarrow> 'z kproc_scheme" where
  "wakeup c s = wakeup_loop [0..<NPROC] c s"

lemma wakeup_loop_form: "\<exists>ps. wakeup_loop is c s = s\<lparr>procs := ps\<rparr>"
proof (induction "is" arbitrary: s)
  case Nil
  have "wakeup_loop [] c s = s\<lparr>procs := procs s\<rparr>" by simp
  then show ?case by (rule exI)
next
  case (Cons i "is")
  let ?s = "if Some i \<noteq> myproc s \<and> p_state (procs s ! i) = SLEEPING \<and> p_chan (procs s ! i) = Some c
    then upd_proc i (\<lambda>q. q\<lparr>p_state := RUNNABLE\<rparr>) s else s"
  obtain ps where "wakeup_loop is c ?s = ?s\<lparr>procs := ps\<rparr>" using Cons by blast
  moreover have "?s\<lparr>procs := ps\<rparr> = s\<lparr>procs := ps\<rparr>" by (simp add: upd_proc_def)
  ultimately have "wakeup_loop (i # is) c s = s\<lparr>procs := ps\<rparr>" by simp
  then show ?case by (rule exI)
qed

definition woken :: "chan \<Rightarrow> 'z kproc_scheme \<Rightarrow> proc list" where
  "woken c s = procs (wakeup c s)"

lemma wakeup_eq: "wakeup c s = s\<lparr>procs := woken c s\<rparr>"
proof -
  obtain ps where "wakeup c s = s\<lparr>procs := ps\<rparr>"
    unfolding wakeup_def using wakeup_loop_form by blast
  then show ?thesis by (simp add: woken_def)
qed

fun kill_loop :: "nat list \<Rightarrow> int \<Rightarrow> 'z kproc_scheme \<Rightarrow> int \<times> 'z kproc_scheme" where
  "kill_loop [] pid s = (-1, s)"
| "kill_loop (p # ps) pid s =
     (if p_pid (procs s ! p) = pid
      then (0, upd_proc p (\<lambda>q. q\<lparr>p_killed := True,
              p_state := (if p_state q = SLEEPING then RUNNABLE else p_state q)\<rparr>) s)
      else kill_loop ps pid s)"

definition kill :: "int \<Rightarrow> 'z kproc_scheme \<Rightarrow> (int, 'z kproc_scheme) outcome" where
  "kill pid s = (case kill_loop [0..<NPROC] pid s of (r, s) \<Rightarrow> Ok r s)"

definition setkilled :: "nat \<Rightarrow> 'z kproc_scheme \<Rightarrow> 'z kproc_scheme" where
  "setkilled p s = upd_proc p (\<lambda>q. q\<lparr>p_killed := True\<rparr>) s"

definition killed :: "nat \<Rightarrow> 'z kproc_scheme \<Rightarrow> bool" where
  "killed p s = p_killed (procs s ! p)"

section \<open>Copies to and from either address space\<close>

text \<open>
  The C code passes a flag and a number; a kernel address is either physical memory or a
  local variable of the caller. A copy to a local variable hands the bytes back to the
  caller, a copy from one reads the bytes the caller gives.
\<close>

datatype dst = DUser u64 | DKernel u64 | DLocal
datatype src = SUser u64 | SKernel u64 | SLocal "u8 list"

fun dst_add :: "dst \<Rightarrow> nat \<Rightarrow> dst" where
  "dst_add (DUser a) n = DUser (a + of_nat n)"
| "dst_add (DKernel a) n = DKernel (a + of_nat n)"
| "dst_add DLocal n = DLocal"

fun src_add :: "src \<Rightarrow> nat \<Rightarrow> src" where
  "src_add (SUser a) n = SUser (a + of_nat n)"
| "src_add (SKernel a) n = SKernel (a + of_nat n)"
| "src_add (SLocal bs) n = SLocal (drop n bs)"

fun either_copyout ::
  "dst \<Rightarrow> u8 list \<Rightarrow> 'z kproc_scheme \<Rightarrow> (int \<times> u8 list, 'z kproc_scheme) outcome" where
  "either_copyout (DUser a) bs s =
     with_proc (\<lambda>p s. obind (copyout (p_pagetable (procs s ! p)) a bs s) (\<lambda>r s. Ok (r, []) s)) s"
| "either_copyout (DKernel a) bs s = Ok (0, []) (s\<lparr>memory := write_bytes (memory s) a bs\<rparr>)"
| "either_copyout DLocal bs s = Ok (0, bs) s"

fun either_copyin ::
  "src \<Rightarrow> nat \<Rightarrow> 'z kproc_scheme \<Rightarrow> (int \<times> u8 list, 'z kproc_scheme) outcome" where
  "either_copyin (SUser a) len s = with_proc (\<lambda>p s. copyin (p_pagetable (procs s ! p)) a len s) s"
| "either_copyin (SKernel a) len s = Ok (0, read_bytes (memory s) a len) s"
| "either_copyin (SLocal bs) len s = Ok (0, take len bs) s"

end
