(* ===== verification/Sleeplock.thy ===== *)
theory Sleeplock
  imports Proc
begin

text \<open>
  Sleep locks, \<^verbatim>\<open>kernel/sleeplock.c\<close>. A sleep lock is a field of a larger structure
  (a buffer, an inode), so each operation takes the channel that stands for the lock's
  address and the access functions of the field. The inner spin lock makes each operation
  atomic.
\<close>

record sleeplock =
  sl_locked :: bool
  sl_pid :: int

definition initsleeplock :: sleeplock where
  "initsleeplock = \<lparr>sl_locked = False, sl_pid = 0\<rparr>"

definition acquiresleep ::
  "chan \<Rightarrow> ('z kproc_scheme \<Rightarrow> sleeplock) \<Rightarrow> (sleeplock \<Rightarrow> 'z kproc_scheme \<Rightarrow> 'z kproc_scheme) \<Rightarrow>
   'z kproc_scheme \<Rightarrow> (unit, 'z kproc_scheme) outcome" where
  "acquiresleep c get put s =
     (if sl_locked (get s) then sleep c s
      else with_proc (\<lambda>p s. Ok () (put \<lparr>sl_locked = True, sl_pid = p_pid (procs s ! p)\<rparr> s)) s)"

definition releasesleep ::
  "chan \<Rightarrow> (sleeplock \<Rightarrow> 'z kproc_scheme \<Rightarrow> 'z kproc_scheme) \<Rightarrow> 'z kproc_scheme \<Rightarrow> 'z kproc_scheme"
  where
  "releasesleep c put s = wakeup c (put \<lparr>sl_locked = False, sl_pid = 0\<rparr> s)"

definition holdingsleep ::
  "('z kproc_scheme \<Rightarrow> sleeplock) \<Rightarrow> 'z kproc_scheme \<Rightarrow> (bool, 'z kproc_scheme) outcome" where
  "holdingsleep get s =
     (if \<not> sl_locked (get s) then Ok False s
      else with_proc (\<lambda>p s. Ok (sl_pid (get s) = p_pid (procs s ! p)) s) s)"

end
