(* ===== verification/Ring.thy ===== *)
theory Ring
  imports Bytes
begin

text \<open>
  Ring buffers with free-running word counters, the pattern of pipes, console input and
  serial output: the counters wrap around with the word, the array index is the counter
  modulo the size. The locale \<open>ring_buffer\<close> states what the two ends do to the fields;
  its lemmas show that the ring is a bounded first-in first-out queue, also across the
  wrap-around of the counters.
\<close>

definition fifo :: "u8 list \<Rightarrow> 'w::len word \<Rightarrow> 'w word \<Rightarrow> u8 list" where
  "fifo d r w = map (\<lambda>i. d ! (unat (r + of_nat i) mod length d)) [0..<unat (w - r)]"

definition fifo_ok :: "u8 list \<Rightarrow> 'w::len word \<Rightarrow> 'w word \<Rightarrow> bool" where
  "fifo_ok d r w \<longleftrightarrow> unat (w - r) \<le> length d"

lemma length_fifo [simp]: "length (fifo d r w) = unat (w - r)"
  by (simp add: fifo_def)

lemma fifo_empty_iff: "fifo d r w = [] \<longleftrightarrow> r = w"
  by (metis length_fifo length_0_conv unat_eq_0 eq_iff_diff_eq_0)

lemma ring_index:
  assumes "n dvd 2 ^ LENGTH('w::len)"
  shows "unat (r + of_nat i :: 'w word) mod n = (unat r + i) mod n"
proof -
  have "unat (r + of_nat i) = (unat r + i) mod 2 ^ LENGTH('w)"
    by (simp add: unat_word_ariths unat_of_nat mod_simps)
  then show ?thesis using assms by (simp add: mod_mod_cancel)
qed

lemma ring_index_neq:
  assumes "n dvd 2 ^ LENGTH('w::len)" and "i < j" and "j < n"
  shows "unat (r + of_nat i :: 'w word) mod n \<noteq> unat (r + of_nat j) mod n"
proof
  assume "unat (r + of_nat i :: 'w word) mod n = unat (r + of_nat j) mod n"
  then have "(unat r + j) mod n = (unat r + i) mod n"
    by (simp add: ring_index [OF assms(1)])
  then have "n dvd (unat r + j) - (unat r + i)"
    using assms(2) by (simp add: mod_eq_dvd_iff_nat)
  then show False using assms(2,3) by (simp add: nat_dvd_not_less)
qed

lemma unat_Suc_diff:
  fixes r w :: "'w::len word"
  assumes "unat (w - r) < n" and "n < 2 ^ LENGTH('w)"
  shows "unat (w + 1 - r) = Suc (unat (w - r))"
proof -
  have "w + 1 - r = (w - r) + 1" by simp
  moreover have "unat (w - r) + 1 < 2 ^ LENGTH('w)" using assms by simp
  then have "unat ((w - r) + 1) = unat (w - r) + 1" by (simp add: unat_word_ariths)
  ultimately show ?thesis by (simp only: Suc_eq_plus1)
qed

lemma fifo_put:
  fixes r w :: "'w::len word"
  assumes "length d dvd 2 ^ LENGTH('w)" and "length d < 2 ^ LENGTH('w)"
    and "unat (w - r) < length d"
  shows "fifo (d[unat w mod length d := c]) r (w + 1) = fifo d r w @ [c]"
proof (rule nth_equalityI)
  let ?n = "unat (w - r)"
  have n: "unat (w + 1 - r) = Suc ?n" using assms(2,3) by (intro unat_Suc_diff)
  then show "length (fifo (d[unat w mod length d := c]) r (w + 1)) = length (fifo d r w @ [c])"
    by simp
  have w: "unat w mod length d = unat (r + of_nat ?n) mod length d" by simp
  have pos: "0 < length d" using assms(3) by linarith
  fix i assume i: "i < length (fifo (d[unat w mod length d := c]) r (w + 1))"
  show "fifo (d[unat w mod length d := c]) r (w + 1) ! i = (fifo d r w @ [c]) ! i"
  proof (cases "i = ?n")
    case True
    then show ?thesis using n pos w by (simp add: fifo_def nth_append)
  next
    case False
    then have lt: "i < ?n" using i n by simp
    then have "unat (r + of_nat i) mod length d \<noteq> unat w mod length d"
      unfolding w using assms by (intro ring_index_neq)
    then show ?thesis using lt n by (simp add: fifo_def nth_append)
  qed
qed

lemma fifo_get:
  fixes r w :: "'w::len word"
  assumes "r \<noteq> w"
  shows "fifo d r w = d ! (unat r mod length d) # fifo d (r + 1) w"
proof -
  have "unat (w - r) = Suc (unat (w - (r + 1)))"
  proof -
    have "w - r \<noteq> 0" using assms by simp
    then have "unat (w - r - 1) = unat (w - r) - 1" and "0 < unat (w - r)"
      by (simp_all add: unat_minus_one unat_gt_0)
    then show ?thesis by (simp add: diff_diff_eq)
  qed
  then show ?thesis
    by (simp add: fifo_def upt_conv_Cons map_Suc_upt [symmetric] algebra_simps del: upt_Suc)
qed

lemma fifo_full_iff:
  fixes r w :: "'w::len word"
  assumes "length d < 2 ^ LENGTH('w)"
  shows "w = r + of_nat (length d) \<longleftrightarrow> length (fifo d r w) = length d"
proof
  assume "w = r + of_nat (length d)"
  then show "length (fifo d r w) = length d" using assms by (simp add: unat_of_nat)
next
  assume "length (fifo d r w) = length d"
  then have "w - r = of_nat (length d)" by (metis length_fifo word_unat_eq_iff unat_of_nat_small assms)
  then show "w = r + of_nat (length d)" by (simp add: algebra_simps)
qed

section \<open>The interface\<close>

text \<open>
  A run of the two ends: writes are dropped when the ring is full and reads do nothing when
  it is empty, as in the code that uses the ring. What has been read and what is still in
  the ring is what was there and what has been written, in order.
\<close>

fun ring_run ::
  "('s \<Rightarrow> u8 list) \<Rightarrow> ('s \<Rightarrow> 'w::len word) \<Rightarrow> ('s \<Rightarrow> 'w word) \<Rightarrow> (u8 \<Rightarrow> 's \<Rightarrow> 's) \<Rightarrow> ('s \<Rightarrow> 's) \<Rightarrow>
   nat \<Rightarrow> u8 option list \<Rightarrow> 's \<Rightarrow> u8 list \<times> u8 list \<times> 's" where
  "ring_run cells rd wr put get N [] s = ([], [], s)"
| "ring_run cells rd wr put get N (Some c # ops) s =
     (if wr s = rd s + of_nat N then ring_run cells rd wr put get N ops s
      else case ring_run cells rd wr put get N ops (put c s) of (ins, outs, t) \<Rightarrow> (c # ins, outs, t))"
| "ring_run cells rd wr put get N (None # ops) s =
     (if rd s = wr s then ring_run cells rd wr put get N ops s
      else case ring_run cells rd wr put get N ops (get s) of (ins, outs, t) \<Rightarrow>
        (ins, cells s ! (unat (rd s) mod N) # outs, t))"

text \<open>
  \<open>cells\<close>, \<open>rd\<close> and \<open>wr\<close> are the array and the two counters of a ring inside a state;
  \<open>put\<close> and \<open>get\<close> are its two ends. \<open>N\<close> is the size of the array, a power of two.
\<close>

locale ring_buffer =
  fixes cells :: "'s \<Rightarrow> u8 list" and rd wr :: "'s \<Rightarrow> 'w::len word"
    and put :: "u8 \<Rightarrow> 's \<Rightarrow> 's" and get :: "'s \<Rightarrow> 's" and N :: nat
  assumes N_dvd: "N dvd 2 ^ LENGTH('w)" and N_less: "N < 2 ^ LENGTH('w)"
    and put_cells: "length (cells s) = N \<Longrightarrow> cells (put c s) = (cells s)[unat (wr s) mod N := c]"
    and put_wr: "wr (put c s) = wr s + 1" and put_rd: "rd (put c s) = rd s"
    and get_cells: "cells (get s) = cells s"
    and get_wr: "wr (get s) = wr s" and get_rd: "rd (get s) = rd s + 1"
begin

lemma put_refines:
  assumes "length (cells s) = N" and "length (fifo (cells s) (rd s) (wr s)) < N"
  shows "fifo (cells (put c s)) (rd (put c s)) (wr (put c s)) = fifo (cells s) (rd s) (wr s) @ [c]"
    and "length (cells (put c s)) = N"
  using assms fifo_put [of "cells s" "wr s" "rd s" c] N_dvd N_less
  by (simp_all add: put_cells put_wr put_rd)

lemma get_refines:
  assumes "length (cells s) = N" and "rd s \<noteq> wr s"
  shows "fifo (cells s) (rd s) (wr s) =
      cells s ! (unat (rd s) mod N) # fifo (cells (get s)) (rd (get s)) (wr (get s))"
    and "length (cells (get s)) = N"
  using assms fifo_get [of "rd s" "wr s" "cells s"] by (simp_all add: get_cells get_wr get_rd)

lemma full_iff:
  assumes "length (cells s) = N"
  shows "wr s = rd s + of_nat N \<longleftrightarrow> length (fifo (cells s) (rd s) (wr s)) = N"
  using fifo_full_iff [of "cells s" "wr s" "rd s"] assms N_less by simp

lemma not_full:
  assumes "length (cells s) = N" and "fifo_ok (cells s) (rd s) (wr s)" and "wr s \<noteq> rd s + of_nat N"
  shows "length (fifo (cells s) (rd s) (wr s)) < N"
  using assms full_iff [OF assms(1)] by (simp add: fifo_ok_def)

lemma fifo_order:
  assumes "length (cells s) = N" and "fifo_ok (cells s) (rd s) (wr s)"
    and "ring_run cells rd wr put get N ops s = (ins, outs, t)"
  shows "outs @ fifo (cells t) (rd t) (wr t) = fifo (cells s) (rd s) (wr s) @ ins \<and>
    length (cells t) = N \<and> fifo_ok (cells t) (rd t) (wr t)"
  using assms
proof (induction ops arbitrary: s ins outs)
  case Nil
  then show ?case by simp
next
  case (Cons x ops)
  show ?case
  proof (cases x)
    case None
    show ?thesis
    proof (cases "rd s = wr s")
      case True
      then show ?thesis using Cons None by simp
    next
      case False
      obtain outs' where outs: "outs = cells s ! (unat (rd s) mod N) # outs'"
          "ring_run cells rd wr put get N ops (get s) = (ins, outs', t)"
        using Cons.prems(3) None False by (auto split: prod.splits)
      have "fifo_ok (cells (get s)) (rd (get s)) (wr (get s))"
        using arg_cong [OF get_refines(1) [OF Cons.prems(1) False], of length] Cons.prems(2)
        by (simp add: fifo_ok_def get_cells)
      then show ?thesis
        using Cons.IH [OF get_refines(2) [OF Cons.prems(1) False] _ outs(2)] outs(1)
          get_refines(1) [OF Cons.prems(1) False] by simp
    qed
  next
    case (Some c)
    show ?thesis
    proof (cases "wr s = rd s + of_nat N")
      case True
      then show ?thesis using Cons Some by simp
    next
      case False
      obtain ins' where ins: "ins = c # ins'"
          "ring_run cells rd wr put get N ops (put c s) = (ins', outs, t)"
        using Cons.prems(3) Some False by (auto split: prod.splits)
      note room = not_full [OF Cons.prems(1,2) False]
      note p = put_refines [OF Cons.prems(1) room, of c]
      have "fifo_ok (cells (put c s)) (rd (put c s)) (wr (put c s))"
        using arg_cong [OF p(1), of length] room p(2) by (simp add: fifo_ok_def)
      then show ?thesis
        using Cons.IH [OF p(2) _ ins(2)] ins(1) p(1) by simp
    qed
  qed
qed

end

end
