(* ===== verification/Uart.thy ===== *)
theory Uart
  imports Sleeplock Ring
begin

text \<open>
  The serial port driver, \<^verbatim>\<open>kernel/uart.c\<close>. The 16550 device is part of the state:
  the bytes it was given to send, the bytes waiting in its receive FIFO, and for how many
  more polls of the line status register its transmit register stays full
  (\<open>uart_delay n\<close> is the device's choice for the \<open>n\<close>-th byte). A byte written while
  the register is full is lost, so the driver has to look before it writes. Writes to the
  configuration registers are recorded in order.
\<close>

section \<open>The device\<close>

record kuart = kproc +
  uart_in :: "u8 list"
  uart_out :: "u8 list"
  uart_busy :: nat
  uart_delay :: "nat \<Rightarrow> nat"
  uart_cfg :: "(nat \<times> u8) list"
  uart_tx_buf :: "u8 list"
  uart_tx_w :: u64
  uart_tx_r :: u64
  panicked :: bool

definition kuart0 :: kuart where
  "kuart0 = kproc.extend kproc0 (kuart.fields [] [] 0 (\<lambda>_. 0) [] (replicate 32 0) 0 0 False)"

definition UART_TX_BUF_SIZE :: u64 where "UART_TX_BUF_SIZE = 32"
definition LSR_RX_READY :: u8 where "LSR_RX_READY = 1"
definition LSR_TX_IDLE :: u8 where "LSR_TX_IDLE = 32"
definition IER :: nat where "IER = 1"
definition FCR :: nat where "FCR = 2"
definition LCR :: nat where "LCR = 3"

definition read_LSR :: "'z kuart_scheme \<Rightarrow> u8 \<times> 'z kuart_scheme" where
  "read_LSR s =
     ((if uart_in s \<noteq> [] then LSR_RX_READY else 0) OR (if uart_busy s = 0 then LSR_TX_IDLE else 0),
      s\<lparr>uart_busy := uart_busy s - 1\<rparr>)"

definition sends :: "u8 \<Rightarrow> 'z kuart_scheme \<Rightarrow> 'z kuart_scheme" where
  "sends c s =
     s\<lparr>uart_out := uart_out s @ [c], uart_busy := uart_delay s (length (uart_out s))\<rparr>"

definition write_THR :: "u8 \<Rightarrow> 'z kuart_scheme \<Rightarrow> 'z kuart_scheme" where
  "write_THR c s = (if uart_busy s = 0 then sends c s else s)"

definition write_cfg :: "nat \<Rightarrow> u8 \<Rightarrow> 'z kuart_scheme \<Rightarrow> 'z kuart_scheme" where
  "write_cfg r v s = s\<lparr>uart_cfg := uart_cfg s @ [(r, v)]\<rparr>"

lemma LSR_idle [simp]: "fst (read_LSR s) AND LSR_TX_IDLE = 0 \<longleftrightarrow> uart_busy s \<noteq> 0"
  by (auto simp: read_LSR_def LSR_RX_READY_def LSR_TX_IDLE_def)

lemma LSR_ready [simp]: "fst (read_LSR s) AND LSR_RX_READY = 0 \<longleftrightarrow> uart_in s = []"
  by (auto simp: read_LSR_def LSR_RX_READY_def LSR_TX_IDLE_def)

lemma snd_read_LSR [simp]: "snd (read_LSR s) = s\<lparr>uart_busy := uart_busy s - 1\<rparr>"
  by (simp add: read_LSR_def)

section \<open>The driver\<close>

definition uartinit :: "'z kuart_scheme \<Rightarrow> 'z kuart_scheme" where
  "uartinit s =
     (let s = write_cfg IER 0x00 s;
          s = write_cfg LCR 0x80 s;
          s = write_cfg 0 0x03 s;
          s = write_cfg 1 0x00 s;
          s = write_cfg LCR 0x03 s;
          s = write_cfg FCR 0x07 s
      in write_cfg IER 0x03 s)"

function uartputc_sync :: "u8 \<Rightarrow> 'z kuart_scheme \<Rightarrow> (unit, 'z kuart_scheme) outcome" where
  "uartputc_sync c s =
     (if panicked s then Diverges
      else
        let r = read_LSR s
        in if fst r AND LSR_TX_IDLE = 0 then uartputc_sync c (snd r)
           else Ok () (write_THR c (snd r)))"
  by pat_completeness auto
termination
  by (relation "measure (\<lambda>(c, s). uart_busy s)") auto

declare uartputc_sync.simps [simp del]

text \<open>The busy wait ends: the byte is always sent, whatever the device's delay.\<close>

lemma uartputc_sync_eq:
  "uartputc_sync c s = (if panicked s then Diverges else Ok () (sends c s))"
proof (induction "uart_busy s" arbitrary: s)
  case 0
  then show ?case
    by (subst uartputc_sync.simps) (simp add: Let_def write_THR_def sends_def)
next
  case (Suc k)
  then have "uartputc_sync c (s\<lparr>uart_busy := uart_busy s - 1\<rparr>) =
      (if panicked s then Diverges else Ok () (sends c s))"
    using Suc.hyps(1) [of "s\<lparr>uart_busy := uart_busy s - 1\<rparr>"] by (simp add: sends_def)
  then show ?case
    using Suc.hyps(2) by (subst uartputc_sync.simps) (simp add: Let_def)
qed

text \<open>The two ends of the transmit ring.\<close>

definition tx_put :: "u8 \<Rightarrow> 'z kuart_scheme \<Rightarrow> 'z kuart_scheme" where
  "tx_put c s =
     (let s = s\<lparr>uart_tx_buf := (uart_tx_buf s)[unat (uart_tx_w s mod UART_TX_BUF_SIZE) := c]\<rparr>
      in s\<lparr>uart_tx_w := uart_tx_w s + 1\<rparr>)"

definition tx_get :: "'z kuart_scheme \<Rightarrow> 'z kuart_scheme" where
  "tx_get s = s\<lparr>uart_tx_r := uart_tx_r s + 1\<rparr>"

function uartstart :: "'z kuart_scheme \<Rightarrow> 'z kuart_scheme" where
  "uartstart s =
     (if uart_tx_w s = uart_tx_r s then s
      else
        let r = read_LSR s; s = snd r
        in if fst r AND LSR_TX_IDLE = 0 then s
           else
             let c = uart_tx_buf s ! unat (uart_tx_r s mod UART_TX_BUF_SIZE);
                 s = wakeup ChUart (tx_get s)
             in uartstart (write_THR c s))"
  by pat_completeness auto
termination
proof (relation "measure (\<lambda>s. unat (uart_tx_w s - uart_tx_r s))")
  fix s :: "'z kuart_scheme" and x xa c xc
  assume "uart_tx_w s \<noteq> uart_tx_r s" and "x = read_LSR s" and "xa = snd x"
    and "xc = wakeup ChUart (tx_get xa)"
  then show "(write_THR c xc, s) \<in> measure (\<lambda>s. unat (uart_tx_w s - uart_tx_r s))"
    by (simp add: wakeup_eq write_THR_def sends_def tx_get_def unat_diff_Suc)
qed simp

declare uartstart.simps [simp del]

definition uartputc :: "u8 \<Rightarrow> 'z kuart_scheme \<Rightarrow> (unit, 'z kuart_scheme) outcome" where
  "uartputc c s =
     (if panicked s then Diverges
      else if uart_tx_w s = uart_tx_r s + UART_TX_BUF_SIZE then sleep ChUart s
      else Ok () (uartstart (tx_put c s)))"

definition uartgetc :: "'z kuart_scheme \<Rightarrow> u8 option \<times> 'z kuart_scheme" where
  "uartgetc s =
     (let r = read_LSR s; s = snd r
      in if fst r AND LSR_RX_READY \<noteq> 0 then (Some (hd (uart_in s)), s\<lparr>uart_in := tl (uart_in s)\<rparr>)
         else (None, s))"

section \<open>Output is sent in order\<close>

interpretation txring: ring_buffer uart_tx_buf uart_tx_r uart_tx_w tx_put tx_get 32
  by unfold_locales
    (simp_all add: tx_put_def tx_get_def UART_TX_BUF_SIZE_def unat_mod_distrib Let_def)

abbreviation tx_bytes :: "'z kuart_scheme \<Rightarrow> u8 list" where
  "tx_bytes s \<equiv> fifo (uart_tx_buf s) (uart_tx_r s) (uart_tx_w s)"

definition tx_ok :: "'z kuart_scheme \<Rightarrow> bool" where
  "tx_ok s \<longleftrightarrow> length (uart_tx_buf s) = 32 \<and> fifo_ok (uart_tx_buf s) (uart_tx_r s) (uart_tx_w s)"

lemma tx_get_ok:
  assumes "tx_ok s" and "uart_tx_r s \<noteq> uart_tx_w s"
  shows "tx_ok (tx_get s)"
    and "tx_bytes s = uart_tx_buf s ! unat (uart_tx_r s mod UART_TX_BUF_SIZE) # tx_bytes (tx_get s)"
proof -
  have l: "length (uart_tx_buf s) = 32" using assms(1) by (simp add: tx_ok_def)
  note p = txring.get_refines [OF l assms(2)]
  show "tx_bytes s = uart_tx_buf s ! unat (uart_tx_r s mod UART_TX_BUF_SIZE) # tx_bytes (tx_get s)"
    using p(1) by (simp add: UART_TX_BUF_SIZE_def unat_mod_distrib)
  have "length (tx_bytes s) = Suc (length (tx_bytes (tx_get s)))" by (subst p(1)) simp
  then show "tx_ok (tx_get s)" using p(2) assms(1) by (simp add: tx_ok_def fifo_ok_def)
qed

lemma tx_put_ok:
  assumes "tx_ok s" and "uart_tx_w s \<noteq> uart_tx_r s + UART_TX_BUF_SIZE"
  shows "tx_ok (tx_put c s)" and "tx_bytes (tx_put c s) = tx_bytes s @ [c]"
proof -
  have l: "length (uart_tx_buf s) = 32" and f: "length (tx_bytes s) < 32"
    using assms txring.not_full [of s] by (auto simp: tx_ok_def UART_TX_BUF_SIZE_def)
  note p = txring.put_refines [OF l f, of c]
  show "tx_bytes (tx_put c s) = tx_bytes s @ [c]" by (rule p(1))
  have "length (tx_bytes (tx_put c s)) = Suc (length (tx_bytes s))" by (subst p(1)) simp
  then show "tx_ok (tx_put c s)" using p(2) f by (simp add: tx_ok_def fifo_ok_def)
qed

lemma uartstart_order:
  assumes "tx_ok s"
  shows "\<exists>xs. uart_out (uartstart s) = uart_out s @ xs \<and> tx_bytes s = xs @ tx_bytes (uartstart s) \<and>
    tx_ok (uartstart s) \<and> (uart_busy s = 0 \<and> tx_bytes s \<noteq> [] \<longrightarrow> xs \<noteq> [])"
  using assms
proof (induction s rule: uartstart.induct)
  case (1 s)
  let ?s = "snd (read_LSR s)"
  show ?case
  proof (cases "uart_tx_w s = uart_tx_r s")
    case True
    then have "uartstart s = s" by (subst uartstart.simps) simp
    then show ?thesis using "1.prems" True by (intro exI [of _ "[]"]) (simp add: fifo_empty_iff)
  next
    case ne: False
    show ?thesis
    proof (cases "uart_busy s = 0")
      case False
      then have "uartstart s = ?s" using ne by (subst uartstart.simps) (simp add: Let_def)
      then show ?thesis using "1.prems" False by (intro exI [of _ "[]"]) (simp add: tx_ok_def)
    next
      case True
      let ?c = "uart_tx_buf s ! unat (uart_tx_r s mod UART_TX_BUF_SIZE)"
      let ?t = "write_THR ?c (wakeup ChUart (tx_get ?s))"
      have eq: "uartstart s = uartstart ?t"
        using ne True by (subst uartstart.simps) (simp add: Let_def)
      note g = tx_get_ok [OF "1.prems" ne [symmetric]]
      have t: "tx_ok ?t" "tx_bytes ?t = tx_bytes (tx_get s)" "uart_out ?t = uart_out s @ [?c]"
        using g(1) True by (simp_all add: tx_ok_def write_THR_def sends_def wakeup_eq tx_get_def)
      obtain xs where "uart_out (uartstart ?t) = uart_out ?t @ xs"
          "tx_bytes ?t = xs @ tx_bytes (uartstart ?t)" "tx_ok (uartstart ?t)"
        using "1.IH" [OF ne refl refl _ refl refl] True t(1) by auto
      then show ?thesis
        unfolding eq using t(2,3) g(2) by (intro exI [of _ "?c # xs"]) simp
    qed
  qed
qed

text \<open>C26. Writing a byte to the serial port loses and reorders nothing: what has been sent followed
  by what waits in the transmit ring is what it was before, followed by the new byte. The
  call sleeps only when all 32 slots are taken, and when the port is idle it sends at least
  one byte at once. No byte is written to the device while its transmit register is full, where
  it would be lost.
\<close>

theorem uartputc_in_order:
  assumes "tx_ok s" and "\<not> panicked s" and "cur s = Some p"
  shows "if length (tx_bytes s) = 32 then \<exists>t. uartputc c s = Sleeps ChUart t
    else \<exists>t xs. uartputc c s = Ok () t \<and> tx_ok t \<and>
      uart_out t = uart_out s @ xs \<and> tx_bytes s @ [c] = xs @ tx_bytes t \<and>
      (uart_busy s = 0 \<longrightarrow> xs \<noteq> [])"
proof -
  have full: "uart_tx_w s = uart_tx_r s + UART_TX_BUF_SIZE \<longleftrightarrow> length (tx_bytes s) = 32"
    using assms(1) txring.full_iff [of s] by (simp add: tx_ok_def UART_TX_BUF_SIZE_def)
  show ?thesis
  proof (cases "length (tx_bytes s) = 32")
    case True
    then show ?thesis
      using full assms(2,3) by (simp add: uartputc_def sleep_def with_proc_def myproc_def)
  next
    case False
    then have nf: "uart_tx_w s \<noteq> uart_tx_r s + UART_TX_BUF_SIZE" using full by simp
    note p = tx_put_ok [OF assms(1) nf, of c]
    have same: "uart_out (tx_put c s) = uart_out s" "uart_busy (tx_put c s) = uart_busy s"
      by (simp_all add: tx_put_def Let_def)
    show ?thesis
      using uartstart_order [OF p(1)] p(2) same False nf assms(2) by (auto simp: uartputc_def)
  qed
qed

theorem uartputc_in_order_witness:
  "let s = kuart0\<lparr>cur := Some 1\<rparr> in
     tx_ok s \<and> \<not> panicked s \<and> cur s = Some 1 \<and>
     (\<exists>t xs. uartputc 65 s = Ok () t \<and> uart_out t = uart_out s @ xs \<and>
        tx_bytes s @ [65] = xs @ tx_bytes t \<and> xs \<noteq> [])"
proof -
  let ?s = "kuart0\<lparr>cur := Some 1\<rparr>"
  have s: "tx_ok ?s" "\<not> panicked ?s" "cur ?s = Some 1" "uart_busy ?s = 0" "length (tx_bytes ?s) = 0"
    by (simp_all add: kuart0_def kproc0_def kproc.defs kuart.defs tx_ok_def fifo_ok_def)
  then show ?thesis using uartputc_in_order [OF s(1-3), of 65]
    unfolding Let_def by auto
qed

end
