(* ===== verification/Console.thy ===== *)
theory Console
  imports Uart Usermem
begin

text \<open>
  Formatted output and the console: \<^verbatim>\<open>kernel/printf.c\<close>,
  \<^verbatim>\<open>kernel/console.c\<close>, the interrupt half of \<^verbatim>\<open>kernel/uart.c\<close> and
  \<^verbatim>\<open>procdump\<close> of \<^verbatim>\<open>kernel/proc.c\<close>. Variadic arguments are a list of tagged
  values; a missing argument or one of another type is undefined behaviour in C and
  \<open>Undef\<close> here.
\<close>

section \<open>State\<close>

definition INPUT_BUF_SIZE :: u32 where "INPUT_BUF_SIZE = 128"
definition NDEV :: nat where "NDEV = 10"
definition CONSOLE :: nat where "CONSOLE = 1"

text \<open>
  \<open>devsw\<close> tells for each major number whether its entry of \<^verbatim>\<open>devsw[]\<close> holds the
  console's read and write functions, the only ones the kernel installs.
\<close>

record kcons = kuart +
  cons_buf :: "u8 list"
  cons_r :: u32
  cons_w :: u32
  cons_e :: u32
  pr_locking :: bool
  devsw :: "bool list"

definition kcons0 :: kcons where
  "kcons0 = kuart.extend kuart0 (kcons.fields (replicate 128 0) 0 0 0 False (replicate NDEV False))"

definition str :: "string \<Rightarrow> u8 list" where
  "str cs = map of_char cs"

definition ctrl :: "char \<Rightarrow> u8" where
  "ctrl c = of_char c - of_char CHR ''@''"

definition newline :: u8 where "newline = 10"

section \<open>Output\<close>

datatype outc = Byte u8 | BACKSPACE

fun consputc :: "outc \<Rightarrow> 'z kcons_scheme \<Rightarrow> (unit, 'z kcons_scheme) outcome" where
  "consputc BACKSPACE s =
     obind (uartputc_sync 8 s) (\<lambda>_ s.
     obind (uartputc_sync (of_char CHR '' '') s) (\<lambda>_ s.
     uartputc_sync 8 s))"
| "consputc (Byte c) s = uartputc_sync c s"

fun consputs :: "u8 list \<Rightarrow> 'z kcons_scheme \<Rightarrow> (unit, 'z kcons_scheme) outcome" where
  "consputs [] s = Ok () s"
| "consputs (c # cs) s = obind (consputc (Byte c) s) (\<lambda>_ s. consputs cs s)"

definition digits :: "u8 list" where
  "digits = str ''0123456789abcdef''"

text \<open>The do-while loop that fills \<^verbatim>\<open>buf\<close>, least significant digit first.\<close>

function printint_digits :: "u32 \<Rightarrow> u32 \<Rightarrow> u8 list" where
  "printint_digits x base =
     digits ! unat (x mod base) #
     (if base < 2 \<or> x div base = 0 then [] else printint_digits (x div base) base)"
  by pat_completeness auto
termination
proof (relation "measure (\<lambda>(x, base). unat x)")
  fix x base :: u32
  assume a: "\<not> (base < 2 \<or> x div base = 0)"
  have "unat (base :: u32) \<ge> 2"
    using a by (simp add: word_less_nat_alt)
  moreover have "unat x \<noteq> 0" using a by (auto simp: unat_eq_0)
  ultimately show "((x div base, base), x, base) \<in> measure (\<lambda>(x, base). unat x)"
    by (simp add: unat_div_distrib div_less_dividend)
qed simp

declare printint_digits.simps [simp del]

definition printint_chars :: "int \<Rightarrow> u32 \<Rightarrow> bool \<Rightarrow> u8 list" where
  "printint_chars xx base sign =
     (let neg = sign \<and> xx < 0;
          x = (if neg then of_int (- xx) else of_int xx) :: u32;
          buf = printint_digits x base;
          buf = (if neg then buf @ [of_char CHR ''-''] else buf)
      in rev buf)"

definition printint ::
  "int \<Rightarrow> u32 \<Rightarrow> bool \<Rightarrow> 'z kcons_scheme \<Rightarrow> (unit, 'z kcons_scheme) outcome" where
  "printint xx base sign s = consputs (printint_chars xx base sign) s"

fun printptr_digits :: "nat \<Rightarrow> u64 \<Rightarrow> u8 list" where
  "printptr_digits 0 x = []"
| "printptr_digits (Suc n) x = digits ! unat (drop_bit 60 x) # printptr_digits n (push_bit 4 x)"

definition printptr :: "u64 \<Rightarrow> 'z kcons_scheme \<Rightarrow> (unit, 'z kcons_scheme) outcome" where
  "printptr x s = consputs (str ''0x'' @ printptr_digits 16 x) s"

datatype parg = AInt int | APtr u64 | AStr "u8 list option"

fun cstring :: "u8 list \<Rightarrow> u8 list" where
  "cstring [] = []"
| "cstring (c # cs) = (if c = 0 then [] else c # cstring cs)"

fun printf_loop :: "u8 list \<Rightarrow> parg list \<Rightarrow> 'z kcons_scheme \<Rightarrow> (unit, 'z kcons_scheme) outcome" where
  "printf_loop [] args s = Ok () s"
| "printf_loop (c # fmt) args s =
     (if c = 0 then Ok () s
      else if c \<noteq> of_char CHR ''%'' then obind (consputc (Byte c) s) (\<lambda>_ s. printf_loop fmt args s)
      else
        (case fmt of
           [] \<Rightarrow> Ok () s
         | d # fmt \<Rightarrow>
             if d = 0 then Ok () s
             else if d = of_char CHR ''d'' then
               (case args of
                  AInt x # args \<Rightarrow> obind (printint x 10 True s) (\<lambda>_ s. printf_loop fmt args s)
                | _ \<Rightarrow> Undef)
             else if d = of_char CHR ''x'' then
               (case args of
                  AInt x # args \<Rightarrow> obind (printint x 16 True s) (\<lambda>_ s. printf_loop fmt args s)
                | _ \<Rightarrow> Undef)
             else if d = of_char CHR ''p'' then
               (case args of
                  APtr x # args \<Rightarrow> obind (printptr x s) (\<lambda>_ s. printf_loop fmt args s)
                | _ \<Rightarrow> Undef)
             else if d = of_char CHR ''s'' then
               (case args of
                  AStr t # args \<Rightarrow>
                    obind (consputs (case t of None \<Rightarrow> str ''(null)'' | Some t \<Rightarrow> cstring t) s)
                      (\<lambda>_ s. printf_loop fmt args s)
                | _ \<Rightarrow> Undef)
             else if d = of_char CHR ''%'' then
               obind (consputc (Byte d) s) (\<lambda>_ s. printf_loop fmt args s)
             else
               obind (consputc (Byte (of_char CHR ''%'')) s) (\<lambda>_ s.
               obind (consputc (Byte d) s) (\<lambda>_ s. printf_loop fmt args s))))"

definition printf :: "string \<Rightarrow> parg list \<Rightarrow> 'z kcons_scheme \<Rightarrow> (unit, 'z kcons_scheme) outcome" where
  "printf fmt args s = printf_loop (str fmt) args s"

definition printfinit :: "'z kcons_scheme \<Rightarrow> 'z kcons_scheme" where
  "printfinit s = s\<lparr>pr_locking := True\<rparr>"

fun state_name :: "procstate \<Rightarrow> u8 list" where
  "state_name UNUSED = str ''unused''"
| "state_name USED = str ''used''"
| "state_name SLEEPING = str ''sleep ''"
| "state_name RUNNABLE = str ''runble''"
| "state_name RUNNING = str ''run   ''"
| "state_name ZOMBIE = str ''zombie''"

text \<open>\<open>nl\<close> is the format string of a line feed alone.\<close>

definition nl :: string where "nl = [CHR 0x0A]"

fun procdump_loop :: "nat list \<Rightarrow> 'z kcons_scheme \<Rightarrow> (unit, 'z kcons_scheme) outcome" where
  "procdump_loop [] s = Ok () s"
| "procdump_loop (p # ps) s =
     (let q = procs s ! p
      in if p_state q = UNUSED then procdump_loop ps s
         else
           obind (printf ''%d %s %s''
                    [AInt (p_pid q), AStr (Some (state_name (p_state q))), AStr (Some (p_name q))] s)
           (\<lambda>_ s. obind (printf nl [] s) (\<lambda>_ s. procdump_loop ps s)))"

definition procdump :: "'z kcons_scheme \<Rightarrow> (unit, 'z kcons_scheme) outcome" where
  "procdump s = obind (printf nl [] s) (\<lambda>_ s. procdump_loop [0..<NPROC] s)"

section \<open>Console input and output\<close>

text \<open>
  \<^verbatim>\<open>consolewrite\<close> sleeps in \<^verbatim>\<open>uartputc\<close> when the transmit buffer is full; the
  loop then goes on at the byte it could not send.
\<close>

fun consolewrite_loop ::
  "nat \<Rightarrow> src \<Rightarrow> nat \<Rightarrow> 'z kcons_scheme \<Rightarrow> (int, 'z kcons_scheme) outcome" where
  "consolewrite_loop i src 0 s = Ok (int i) s"
| "consolewrite_loop i src (Suc k) s =
     obind (either_copyin (src_add src i) 1 s) (\<lambda>(r, bs) s.
       if r = -1 then Ok (int i) s
       else obind (uartputc (byte_at bs) s) (\<lambda>_ s. consolewrite_loop (Suc i) src k s))"

definition consolewrite :: "src \<Rightarrow> int \<Rightarrow> 'z kcons_scheme \<Rightarrow> (int, 'z kcons_scheme) outcome" where
  "consolewrite src n s = consolewrite_loop 0 src (nat n) s"

text \<open>The two ends of the input ring.\<close>

definition cons_put :: "u8 \<Rightarrow> 'z kcons_scheme \<Rightarrow> 'z kcons_scheme" where
  "cons_put c s =
     (let s = s\<lparr>cons_buf := (cons_buf s)[unat (cons_e s mod INPUT_BUF_SIZE) := c]\<rparr>
      in s\<lparr>cons_e := cons_e s + 1\<rparr>)"

definition cons_get :: "'z kcons_scheme \<Rightarrow> 'z kcons_scheme" where
  "cons_get s = s\<lparr>cons_r := cons_r s + 1\<rparr>"

text \<open>
  \<open>consoleread_loop n target dst s\<close> is the outer loop with \<open>n\<close> bytes still wanted; a
  sleep leaves it at the same \<open>n\<close>. The bytes handed to a local destination are returned.
\<close>

fun consoleread_loop ::
  "nat \<Rightarrow> nat \<Rightarrow> dst \<Rightarrow> u8 list \<Rightarrow> 'z kcons_scheme \<Rightarrow> (int \<times> u8 list, 'z kcons_scheme) outcome" where
  "consoleread_loop 0 target dst acc s = Ok (int target, acc) s"
| "consoleread_loop (Suc n) target dst acc s =
     (if cons_r s = cons_w s
      then with_proc (\<lambda>p s. if killed p s then Ok (-1, acc) s else sleep ChCons s) s
      else
        let c = cons_buf s ! unat (cons_r s mod INPUT_BUF_SIZE);
            s = cons_get s
        in if c = ctrl (CHR ''D'')
           then Ok (int (target - Suc n), acc)
                  (if Suc n < target then s\<lparr>cons_r := cons_r s - 1\<rparr> else s)
           else obind (either_copyout dst [c] s) (\<lambda>(r, out) s.
             if r = -1 then Ok (int (target - Suc n), acc) s
             else if c = newline then Ok (int (target - n), acc @ out) s
             else consoleread_loop n target (dst_add dst 1) (acc @ out) s))"

definition consoleread ::
  "dst \<Rightarrow> int \<Rightarrow> 'z kcons_scheme \<Rightarrow> (int \<times> u8 list, 'z kcons_scheme) outcome" where
  "consoleread dst n s = (if n > 0 then consoleread_loop (nat n) (nat n) dst [] s else Ok (0, []) s)"

function kill_line :: "'z kcons_scheme \<Rightarrow> (unit, 'z kcons_scheme) outcome" where
  "kill_line s =
     (if cons_e s \<noteq> cons_w s \<and> cons_buf s ! unat ((cons_e s - 1) mod INPUT_BUF_SIZE) \<noteq> newline
      then obind (consputc BACKSPACE (s\<lparr>cons_e := cons_e s - 1\<rparr>)) (\<lambda>_ s. kill_line s)
      else Ok () s)"
  by pat_completeness auto
termination
proof (relation "measure (\<lambda>s. unat (cons_e s - cons_w s))")
  fix s :: "'z kcons_scheme" and u t
  assume a: "cons_e s \<noteq> cons_w s \<and> cons_buf s ! unat ((cons_e s - 1) mod INPUT_BUF_SIZE) \<noteq> newline"
    and b: "consputc BACKSPACE (s\<lparr>cons_e := cons_e s - 1\<rparr>) = Ok u t"
  have "cons_e t = cons_e s - 1" and "cons_w t = cons_w s"
    using b by (auto simp: uartputc_sync_eq sends_def outcome_simps split: if_splits)
  moreover have "unat (cons_e s - 1 - cons_w s) < unat (cons_e s - cons_w s)"
  proof -
    have "cons_e s - cons_w s \<noteq> 0" using a by simp
    then have "unat (cons_e s - cons_w s - 1) < unat (cons_e s - cons_w s)"
      by (simp add: unat_minus_one unat_gt_0)
    then show ?thesis by (simp add: algebra_simps)
  qed
  ultimately show "(t, s) \<in> measure (\<lambda>s. unat (cons_e s - cons_w s))" by simp
qed simp

declare kill_line.simps [simp del]

definition consoleintr :: "u8 \<Rightarrow> 'z kcons_scheme \<Rightarrow> (unit, 'z kcons_scheme) outcome" where
  "consoleintr c s =
     (if c = ctrl (CHR ''P'') then procdump s
      else if c = ctrl (CHR ''U'') then kill_line s
      else if c = ctrl (CHR ''H'') \<or> c = 0x7f
      then (if cons_e s \<noteq> cons_w s then consputc BACKSPACE (s\<lparr>cons_e := cons_e s - 1\<rparr>) else Ok () s)
      else if c \<noteq> 0 \<and> cons_e s - cons_r s < INPUT_BUF_SIZE
      then
        let c = (if c = 13 then newline else c) in
        obind (consputc (Byte c) s) (\<lambda>_ s.
        let s = cons_put c s
        in if c = newline \<or> c = ctrl (CHR ''D'') \<or> cons_e s - cons_r s = INPUT_BUF_SIZE
           then Ok () (wakeup ChCons (s\<lparr>cons_w := cons_e s\<rparr>))
           else Ok () s)
      else Ok () s)"

definition consoleinit :: "'z kcons_scheme \<Rightarrow> 'z kcons_scheme" where
  "consoleinit s = (let s = uartinit s in s\<lparr>devsw := (devsw s)[CONSOLE := True]\<rparr>)"

text \<open>
  The loop of the interrupt handler runs over the bytes in the receive FIFO.
\<close>

fun uartintr_loop :: "nat \<Rightarrow> 'z kcons_scheme \<Rightarrow> (unit, 'z kcons_scheme) outcome" where
  "uartintr_loop 0 s = Diverges"
| "uartintr_loop (Suc fuel) s =
     (case uartgetc s of
        (None, s) \<Rightarrow> Ok () s
      | (Some c, s) \<Rightarrow> obind (consoleintr c s) (\<lambda>_ s. uartintr_loop fuel s))"

definition uartintr :: "'z kcons_scheme \<Rightarrow> (unit, 'z kcons_scheme) outcome" where
  "uartintr s =
     obind (uartintr_loop (Suc (length (uart_in s))) s) (\<lambda>_ s. Ok () (uartstart s))"

section \<open>Output\<close>

definition emit :: "u8 list \<Rightarrow> 'z kuart_scheme \<Rightarrow> 'z kuart_scheme" where
  "emit cs s = fold sends cs s"

lemma emit_simps [simp]: "emit [] s = s" "emit (c # cs) s = emit cs (sends c s)"
  by (simp_all add: emit_def)

lemma emit_append: "emit (xs @ ys) s = emit ys (emit xs s)"
  by (simp add: emit_def)

lemma emit_form: "\<exists>b. emit cs s = s\<lparr>uart_out := uart_out s @ cs, uart_busy := b\<rparr>"
proof (induction cs arbitrary: s)
  case Nil
  have "emit [] s = s\<lparr>uart_out := uart_out s @ [], uart_busy := uart_busy s\<rparr>" by simp
  then show ?case by (rule exI)
next
  case (Cons c cs)
  obtain b where "emit cs (sends c s) =
      (sends c s)\<lparr>uart_out := uart_out (sends c s) @ cs, uart_busy := b\<rparr>"
    using Cons by blast
  then have "emit (c # cs) s = s\<lparr>uart_out := uart_out s @ (c # cs), uart_busy := b\<rparr>"
    by (simp add: sends_def)
  then show ?case by (rule exI)
qed

lemma emit_panicked [simp]: "panicked (emit cs s) = panicked s"
  using emit_form [of cs s] by auto

lemma consputc_eq:
  "\<not> panicked s \<Longrightarrow> consputc (Byte c) s = Ok () (emit [c] s)"
  "\<not> panicked s \<Longrightarrow> consputc BACKSPACE s = Ok () (emit [8, of_char CHR '' '', 8] s)"
  by (simp_all add: uartputc_sync_eq sends_def)

lemma consputs_eq: "\<not> panicked s \<Longrightarrow> consputs cs s = Ok () (emit cs s)"
  by (induction cs arbitrary: s) (simp_all add: consputc_eq del: consputc.simps, simp add: sends_def)

lemma printf_dump:
  assumes "\<not> panicked s"
  shows "\<exists>cs. printf ''%d %s %s'' [AInt a, AStr (Some b), AStr (Some c)] s = Ok () (emit cs s)"
proof -
  have "printf ''%d %s %s'' [AInt a, AStr (Some b), AStr (Some c)] s =
    Ok () (emit (printint_chars a 10 True @ [32] @ cstring b @ [32] @ cstring c) s)"
    using assms
    by (simp add: printf_def str_def consputc_eq consputs_eq printint_def emit_append sends_def
        del: consputc.simps)
  then show ?thesis by blast
qed

lemma printf_nl: "\<not> panicked s \<Longrightarrow> printf nl [] s = Ok () (emit [10] s)"
  by (simp add: printf_def nl_def str_def consputc_eq del: consputc.simps)

lemma procdump_loop_emits: "\<not> panicked s \<Longrightarrow> \<exists>cs. procdump_loop ps s = Ok () (emit cs s)"
proof (induction ps arbitrary: s)
  case Nil
  have "procdump_loop [] s = Ok () (emit [] s)" by simp
  then show ?case by blast
next
  case (Cons p ps)
  let ?q = "procs s ! p"
  obtain cs where cs: "printf ''%d %s %s''
      [AInt (p_pid ?q), AStr (Some (state_name (p_state ?q))), AStr (Some (p_name ?q))] s = Ok () (emit cs s)"
    using printf_dump [OF Cons.prems] by blast
  obtain ds where ds: "procdump_loop ps (emit [10] (emit cs s)) = Ok () (emit ds (emit [10] (emit cs s)))"
    using Cons.IH [of "emit [10] (emit cs s)"] Cons.prems by (auto simp del: emit_simps)
  obtain es where es: "procdump_loop ps s = Ok () (emit es s)" using Cons by blast
  have "procdump_loop (p # ps) s =
      Ok () (emit (if p_state ?q = UNUSED then es else cs @ [10] @ ds) s)"
    using Cons.prems by (simp add: Let_def cs ds es printf_nl emit_append del: emit_simps append.simps)
  then show ?case by blast
qed

lemma procdump_emits: "\<not> panicked s \<Longrightarrow> \<exists>cs. procdump s = Ok () (emit cs s)"
  using procdump_loop_emits [of "emit [10] s" "[0..<NPROC]"]
  by (auto simp: procdump_def printf_nl emit_append [symmetric] simp del: emit_simps)

section \<open>The line discipline\<close>

interpretation cring: ring_buffer cons_buf cons_r cons_e cons_put cons_get 128
  by unfold_locales
    (simp_all add: cons_put_def cons_get_def INPUT_BUF_SIZE_def Let_def unat_mod_distrib)

text \<open>
  The three counters stay in the order read, committed, edited, and the ring never holds
  more than its size.
\<close>

definition cons_ok :: "'z kcons_scheme \<Rightarrow> bool" where
  "cons_ok s \<longleftrightarrow> length (cons_buf s) = 128 \<and> unat (cons_e s - cons_r s) \<le> 128 \<and>
     unat (cons_w s - cons_r s) \<le> unat (cons_e s - cons_r s)"

text \<open>The bytes of complete lines not yet read, and the line being edited.\<close>

definition typed :: "'z kcons_scheme \<Rightarrow> u8 list" where
  "typed s = fifo (cons_buf s) (cons_r s) (cons_e s)"

definition lines_of :: "'z kcons_scheme \<Rightarrow> u8 list" where
  "lines_of s = take (unat (cons_w s - cons_r s)) (typed s)"

definition editing :: "'z kcons_scheme \<Rightarrow> u8 list" where
  "editing s = drop (unat (cons_w s - cons_r s)) (typed s)"

lemma length_typed: "length (typed s) = unat (cons_e s - cons_r s)"
  by (simp add: typed_def)

lemma typed_split: "typed s = lines_of s @ editing s"
  by (simp add: lines_of_def editing_def)

lemma length_lines: "cons_ok s \<Longrightarrow> length (lines_of s) \<le> 128"
  by (simp add: lines_of_def cons_ok_def length_typed)

lemma editing_Nil: "cons_e s = cons_w s \<Longrightarrow> editing s = []"
  by (simp add: editing_def length_typed)

text \<open>What a key does to the pending lines and the line being edited.\<close>

fun edit_line :: "u8 \<Rightarrow> u8 list \<times> u8 list \<Rightarrow> u8 list \<times> u8 list" where
  "edit_line c (ls, l) =
     (if c = ctrl (CHR ''P'') then (ls, l)
      else if c = ctrl (CHR ''U'') then (ls, rev (dropWhile (\<lambda>x. x \<noteq> newline) (rev l)))
      else if c = ctrl (CHR ''H'') \<or> c = 0x7f then (ls, butlast l)
      else if c = 0 \<or> length ls + length l \<ge> 128 then (ls, l)
      else
        let c = (if c = 13 then newline else c)
        in if c = newline \<or> c = ctrl (CHR ''D'') \<or> Suc (length ls + length l) = 128
           then (ls @ l @ [c], []) else (ls, l @ [c]))"

definition line_view :: "'z kcons_scheme \<Rightarrow> u8 list \<times> u8 list" where
  "line_view s = (lines_of s, editing s)"

lemma emit_view [simp]:
  "cons_ok (emit cs s) = cons_ok s" "line_view (emit cs s) = line_view s"
  "lines_of (emit cs s) = lines_of s" "editing (emit cs s) = editing s"
  "cons_buf (emit cs s) = cons_buf s" "cons_r (emit cs s) = cons_r s"
  "cons_w (emit cs s) = cons_w s" "cons_e (emit cs s) = cons_e s"
  using emit_form [of cs s]
  by (auto simp: cons_ok_def line_view_def lines_of_def editing_def typed_def)

lemma wakeup_view [simp]:
  "cons_ok (wakeup ch s) = cons_ok s" "line_view (wakeup ch s) = line_view s"
  by (auto simp: cons_ok_def line_view_def lines_of_def editing_def typed_def wakeup_eq)

text \<open>Taking back the last byte of the line being edited.\<close>

lemma backspace_view:
  assumes ok: "cons_ok s" and ne: "cons_e s \<noteq> cons_w s"
  shows "cons_ok (s\<lparr>cons_e := cons_e s - 1\<rparr>)"
    and "lines_of (s\<lparr>cons_e := cons_e s - 1\<rparr>) = lines_of s"
    and "editing (s\<lparr>cons_e := cons_e s - 1\<rparr>) = butlast (editing s)"
    and "editing s \<noteq> []"
    and "last (editing s) = cons_buf s ! unat ((cons_e s - 1) mod INPUT_BUF_SIZE)"
proof -
  let ?w = "unat (cons_w s - cons_r s)" and ?n = "unat (cons_e s - cons_r s)"
  have lt: "?w < ?n"
    using ok ne unfolding cons_ok_def
    by (metis diff_add_cancel le_neq_implies_less word_unat_eq_iff)
  then have nz: "cons_e s - cons_r s \<noteq> 0" by (metis not_less0 unat_0)
  then have "unat (cons_e s - cons_r s - 1) = ?n - 1" by (rule unat_minus_one)
  then have p: "unat (cons_e s - 1 - cons_r s) = ?n - 1" by (simp add: algebra_simps)
  show "cons_ok (s\<lparr>cons_e := cons_e s - 1\<rparr>)"
    using ok lt p unfolding cons_ok_def by simp linarith
  have t: "typed (s\<lparr>cons_e := cons_e s - 1\<rparr>) = butlast (typed s)"
    by (simp add: typed_def fifo_def p butlast_conv_take take_map)
  then show "lines_of (s\<lparr>cons_e := cons_e s - 1\<rparr>) = lines_of s"
    using lt by (simp add: lines_of_def take_butlast length_typed)
  show "editing (s\<lparr>cons_e := cons_e s - 1\<rparr>) = butlast (editing s)"
    using t by (simp add: editing_def butlast_drop)
  show ne': "editing s \<noteq> []" using lt by (simp add: editing_def length_typed)
  have "last (editing s) = typed s ! (?n - 1)"
    using lt by (simp add: editing_def length_typed last_drop last_conv_nth)
  also have "\<dots> = cons_buf s ! (unat (cons_r s + of_nat (?n - 1)) mod 128)"
    using lt ok by (simp add: typed_def fifo_def cons_ok_def)
  also have "cons_r s + of_nat (?n - 1) = cons_e s - 1"
    unfolding p [symmetric] by simp
  finally show "last (editing s) = cons_buf s ! unat ((cons_e s - 1) mod INPUT_BUF_SIZE)"
    by (simp add: INPUT_BUF_SIZE_def unat_mod_distrib)
qed

lemma kill_line_view:
  assumes "\<not> panicked s" and "cons_ok s"
  shows "\<exists>t. kill_line s = Ok () t \<and> cons_ok t \<and> lines_of t = lines_of s \<and>
    editing t = rev (dropWhile (\<lambda>x. x \<noteq> newline) (rev (editing s)))"
  using assms
proof (induction s rule: kill_line.induct)
  case (1 s)
  show ?case
  proof (cases "cons_e s \<noteq> cons_w s \<and> cons_buf s ! unat ((cons_e s - 1) mod INPUT_BUF_SIZE) \<noteq> newline")
    case True
    let ?s = "s\<lparr>cons_e := cons_e s - 1\<rparr>"
    let ?t = "emit [8, of_char CHR '' '', 8] ?s"
    note b = backspace_view [OF "1.prems"(2), OF conjunct1 [OF True]]
    have k: "consputc BACKSPACE ?s = Ok () ?t" using "1.prems"(1) by (intro consputc_eq(2)) simp
    have v: "lines_of ?t = lines_of ?s" "editing ?t = editing ?s"
      using emit_view(2) [of "[8, of_char CHR '' '', 8]" ?s] unfolding line_view_def by blast+
    obtain u where u: "kill_line ?t = Ok () u" "cons_ok u" "lines_of u = lines_of ?t"
        "editing u = rev (dropWhile (\<lambda>x. x \<noteq> newline) (rev (editing ?t)))"
      using "1.IH" [OF True k] "1.prems" b(1) by (auto simp del: emit_simps)
    obtain ys where ys: "editing s = ys @ [last (editing s)]"
      using b(4) by (metis append_butlast_last_id)
    have "rev (dropWhile (\<lambda>x. x \<noteq> newline) (rev (editing s))) =
        rev (dropWhile (\<lambda>x. x \<noteq> newline) (rev (butlast (editing s))))"
      using b(5) True by (subst (1 2) ys) (simp del: append_butlast_last_id)
    moreover have "kill_line s = Ok () u"
      using True u(1) k by (subst kill_line.simps) simp
    ultimately show ?thesis using u v b(2,3) by simp
  next
    case False
    have "rev (dropWhile (\<lambda>x. x \<noteq> newline) (rev (editing s))) = editing s"
    proof (cases "cons_e s = cons_w s")
      case True
      then show ?thesis by (simp add: editing_Nil)
    next
      case ne: False
      note b = backspace_view [OF "1.prems"(2) ne]
      obtain ys where "editing s = ys @ [newline]"
        using b(4,5) False ne by (metis append_butlast_last_id)
      then show ?thesis by simp
    qed
    moreover have "kill_line s = Ok () s"
      unfolding kill_line.simps [of s] by (rule if_not_P [OF False])
    ultimately show ?thesis using "1.prems" by simp
  qed
qed

lemma cons_put_view:
  assumes ok: "cons_ok s" and room: "cons_e s - cons_r s < INPUT_BUF_SIZE"
  shows "cons_ok (cons_put c s)" and "lines_of (cons_put c s) = lines_of s"
    and "editing (cons_put c s) = editing s @ [c]"
    and "cons_r (cons_put c s) = cons_r s" and "cons_w (cons_put c s) = cons_w s"
    and "unat (cons_e (cons_put c s) - cons_r s) = Suc (unat (cons_e s - cons_r s))"
proof -
  have n: "unat (cons_e s - cons_r s) < 128"
    using room by (simp add: word_less_nat_alt INPUT_BUF_SIZE_def)
  note p = cring.put_refines [of s c] 
  have len: "length (cons_buf s) = 128" and w: "unat (cons_w s - cons_r s) \<le> unat (cons_e s - cons_r s)"
    using ok by (simp_all add: cons_ok_def)
  have t: "typed (cons_put c s) = typed s @ [c]" and l: "length (cons_buf (cons_put c s)) = 128"
    using cring.put_refines [of s c] len n by (simp_all add: typed_def)
  show rd: "cons_r (cons_put c s) = cons_r s" and wd: "cons_w (cons_put c s) = cons_w s"
    by (simp_all add: cons_put_def)
  show e: "unat (cons_e (cons_put c s) - cons_r s) = Suc (unat (cons_e s - cons_r s))"
    using arg_cong [OF t, of length] by (simp add: length_typed rd)
  show "cons_ok (cons_put c s)" using l n w e by (simp add: cons_ok_def rd wd)
  show "lines_of (cons_put c s) = lines_of s" "editing (cons_put c s) = editing s @ [c]"
    using w by (simp_all add: lines_of_def editing_def t rd wd length_typed)
qed

lemma commit_view:
  assumes "cons_ok s"
  shows "cons_ok (s\<lparr>cons_w := cons_e s\<rparr>)"
    and "line_view (s\<lparr>cons_w := cons_e s\<rparr>) = (lines_of s @ editing s, [])"
proof -
  show "cons_ok (s\<lparr>cons_w := cons_e s\<rparr>)" using assms by (simp add: cons_ok_def)
  have "typed (s\<lparr>cons_w := cons_e s\<rparr>) = typed s" by (simp add: typed_def)
  then show "line_view (s\<lparr>cons_w := cons_e s\<rparr>) = (lines_of s @ editing s, [])"
    unfolding typed_split [symmetric] line_view_def lines_of_def editing_def
    by (simp add: length_typed)
qed

text \<open>C24. The console interrupt handler implements line editing: in every state in which the
  kernel has not panicked and the counters are in order it returns, keeps them in order,
  and changes the pending lines and the line being edited as the abstract editor does:
  Control-U erases the line, Control-H and DEL one byte, a line feed, a Control-D or a full
  buffer commits the line to the readers, every other byte is appended, and a byte that
  finds the buffer full is dropped.
\<close>

theorem consoleintr_edits_line:
  assumes "\<not> panicked s" and "cons_ok s"
  shows "\<exists>t. consoleintr c s = Ok () t \<and> cons_ok t \<and> line_view t = edit_line c (line_view s)"
proof -
  have len: "length (lines_of s) + length (editing s) = unat (cons_e s - cons_r s)"
    by (metis length_append length_typed typed_split)
  have full: "cons_e s - cons_r s < INPUT_BUF_SIZE \<longleftrightarrow> \<not> 128 \<le> unat (cons_e s - cons_r s)"
    by (simp add: INPUT_BUF_SIZE_def word_less_nat_alt not_le)
  consider (dumped) "c = ctrl (CHR ''P'')" | (killed_line) "c \<noteq> ctrl (CHR ''P'')" "c = ctrl (CHR ''U'')"
    | (erase) "c \<noteq> ctrl (CHR ''P'')" "c \<noteq> ctrl (CHR ''U'')" "c = ctrl (CHR ''H'') \<or> c = 0x7f"
    | (dropped) "c \<noteq> ctrl (CHR ''P'')" "c \<noteq> ctrl (CHR ''U'')" "\<not> (c = ctrl (CHR ''H'') \<or> c = 0x7f)"
        "\<not> (c \<noteq> 0 \<and> cons_e s - cons_r s < INPUT_BUF_SIZE)"
    | (store) "c \<noteq> ctrl (CHR ''P'')" "c \<noteq> ctrl (CHR ''U'')" "\<not> (c = ctrl (CHR ''H'') \<or> c = 0x7f)"
        "c \<noteq> 0" "cons_e s - cons_r s < INPUT_BUF_SIZE" by blast
  then show ?thesis
  proof cases
    case dumped
    then show ?thesis
      using procdump_emits [OF assms(1)] assms(2)
      by (cases "line_view s") (auto simp: consoleintr_def)
  next
    case killed_line
    then show ?thesis
      using kill_line_view [OF assms] by (simp add: consoleintr_def line_view_def)
  next
    case erase
    then show ?thesis
      using backspace_view [OF assms(2)] consputc_eq(2) [of "s\<lparr>cons_e := cons_e s - 1\<rparr>"] assms
        editing_Nil [of s]
      by (auto simp: consoleintr_def line_view_def simp del: consputc.simps emit_simps)
  next
    case dropped
    then show ?thesis
      using assms full len by (auto simp: consoleintr_def line_view_def)
  next
    case store
    define d where "d = (if c = 13 then newline else c)"
    let ?s = "emit [d] s"
    let ?t = "cons_put d ?s"
    have ok: "cons_ok ?s" and room: "cons_e ?s - cons_r ?s < INPUT_BUF_SIZE"
      and vs: "lines_of ?s = lines_of s" "editing ?s = editing s"
      using assms(2) store(5) emit_view(2) [of "[d]" s]
      by (simp_all add: line_view_def del: emit_simps)
    note p = cons_put_view [OF ok room, of d]
    note q = commit_view [OF p(1)]
    have e: "cons_e ?t - cons_r ?t = INPUT_BUF_SIZE \<longleftrightarrow> Suc (length (lines_of s) + length (editing s)) = 128"
      unfolding p(4) word_unat_eq_iff using p(6) len by (simp add: INPUT_BUF_SIZE_def del: emit_simps)
    have r: "consoleintr c s =
        (if d = newline \<or> d = ctrl (CHR ''D'') \<or> cons_e ?t - cons_r ?t = INPUT_BUF_SIZE
         then Ok () (wakeup ChCons (?t\<lparr>cons_w := cons_e ?t\<rparr>)) else Ok () ?t)"
      using store assms(1)
      by (simp add: consoleintr_def Let_def consputc_eq(1) d_def [symmetric]
          del: consputc.simps emit_simps)
    have x: "edit_line c (line_view s) =
        (if d = newline \<or> d = ctrl (CHR ''D'') \<or> Suc (length (lines_of s) + length (editing s)) = 128
         then (lines_of s @ editing s @ [d], []) else (lines_of s, editing s @ [d]))"
      using store full len by (simp add: line_view_def Let_def d_def [symmetric])
    show ?thesis
      unfolding r x e using p(1-3) q vs by (auto simp: line_view_def [of ?t] simp del: emit_simps)
  qed
qed

lemmas kcons0_defs = kcons0_def kuart0_def kproc0_def kproc.defs kuart.defs kcons.defs

theorem consoleintr_edits_line_witness:
  "let s = kcons0\<lparr>cons_r := 0xFFFFFFFF, cons_w := 0xFFFFFFFF, cons_e := 1\<rparr> in
   \<exists>t. consoleintr 13 s = Ok () t \<and> cons_ok t \<and> line_view t = ([0, 0, newline], [])"
proof -
  let ?s = "kcons0\<lparr>cons_r := 0xFFFFFFFF, cons_w := 0xFFFFFFFF, cons_e := 1\<rparr>"
  have "\<not> panicked ?s" "cons_ok ?s" "line_view ?s = ([], [0, 0])"
    by (simp_all add: kcons0_defs cons_ok_def line_view_def lines_of_def
        editing_def typed_def fifo_def upt_rec)
  then show ?thesis
    using consoleintr_edits_line [of ?s 13] by (simp add: ctrl_def newline_def Let_def)
qed

lemma either_copyout_form:
  assumes "either_copyout dst bs s = Ok (r, out) t"
  shows "\<exists>m. t = s\<lparr>memory := m\<rparr>" and "dst = DLocal \<Longrightarrow> out = bs \<and> r = 0"
proof -
  show "\<exists>m. t = s\<lparr>memory := m\<rparr>"
  proof (cases dst)
    case (DUser a)
    obtain p where p: "myproc s = Some p"
      using assms DUser by (auto simp: with_proc_def split: option.splits)
    then show ?thesis
      using copyout_form [of "p_pagetable (procs s ! p)" a bs s] assms DUser
      by (auto simp: with_proc_def)
  next
    case (DKernel a)
    then show ?thesis using assms by auto
  next
    case DLocal
    then have "t = s\<lparr>memory := memory s\<rparr>" using assms by simp
    then show ?thesis by blast
  qed
  show "dst = DLocal \<Longrightarrow> out = bs \<and> r = 0" using assms by simp
qed

lemma memory_view [simp]:
  "cons_ok (s\<lparr>memory := m\<rparr>) = cons_ok s" "lines_of (s\<lparr>memory := m\<rparr>) = lines_of s"
  "editing (s\<lparr>memory := m\<rparr>) = editing s"
  by (simp_all add: cons_ok_def lines_of_def editing_def typed_def)

lemma cons_get_view:
  assumes ok: "cons_ok s" and ne: "cons_r s \<noteq> cons_w s"
  shows "cons_ok (cons_get s)" and "editing (cons_get s) = editing s"
    and "lines_of s = cons_buf s ! unat (cons_r s mod INPUT_BUF_SIZE) # lines_of (cons_get s)"
proof -
  let ?w = "unat (cons_w s - cons_r s)" and ?e = "unat (cons_e s - cons_r s)"
  have len: "length (cons_buf s) = 128" and we: "?w \<le> ?e" and e: "?e \<le> 128"
    using ok by (simp_all add: cons_ok_def)
  have w0: "cons_w s - cons_r s \<noteq> 0" using ne by simp
  then have wpos: "0 < ?w" by (simp add: unat_gt_0)
  then have e0: "cons_e s - cons_r s \<noteq> 0" using we by (metis leD unat_0)
  have re: "cons_r s \<noteq> cons_e s" using e0 by auto
  have sub: "unat (x - (r + 1)) = unat (x - r) - 1" if "x - r \<noteq> 0" for x r :: u32
    using unat_minus_one [OF that] by (simp add: diff_diff_eq)
  have t: "typed s = cons_buf s ! unat (cons_r s mod INPUT_BUF_SIZE) # typed (cons_get s)"
    using cring.get_refines(1) [OF len re] by (simp add: typed_def INPUT_BUF_SIZE_def unat_mod_distrib)
  have g: "cons_w (cons_get s) = cons_w s" "cons_r (cons_get s) = cons_r s + 1"
      "cons_e (cons_get s) = cons_e s" "cons_buf (cons_get s) = cons_buf s"
    by (simp_all add: cons_get_def)
  show "cons_ok (cons_get s)"
    using ok sub [OF w0] sub [OF e0] we e unfolding cons_ok_def g by (simp, linarith)
  show "editing (cons_get s) = editing s"
    using sub [OF w0] wpos by (simp add: editing_def t g drop_Cons' )
  show "lines_of s = cons_buf s ! unat (cons_r s mod INPUT_BUF_SIZE) # lines_of (cons_get s)"
    using sub [OF w0] wpos by (simp add: lines_of_def t g take_Cons')
qed

text \<open>
  What the caller has been given. Of the bytes \<open>ys\<close>, handed over one by one, the first \<open>k\<close>
  arrived: in user memory from the address on, in kernel memory, or in the caller's variable.
  Only a copy to user memory can fail.
\<close>

fun handed :: "dst \<Rightarrow> u8 list \<Rightarrow> nat \<Rightarrow> u8 list \<Rightarrow> 'z kproc_scheme \<Rightarrow> 'z kproc_scheme \<Rightarrow> bool" where
  "handed (DUser a) ys k out s t \<longleftrightarrow> out = [] \<and>
     (\<forall>p. cur s = Some p \<longrightarrow> delivered s (p_pagetable (procs s ! p)) a ys k (memory t))"
| "handed (DKernel a) ys k out s t \<longleftrightarrow>
     out = [] \<and> k = length ys \<and> memory t = write_bytes (memory s) a ys"
| "handed DLocal ys k out s t \<longleftrightarrow> out = ys \<and> k = length ys \<and> memory t = memory s"

lemma handed_none: "memory t = memory s \<Longrightarrow> handed dst [] 0 [] s t"
  by (cases dst) (simp_all add: delivered_none)

lemma handed_fault:
  assumes "either_copyout dst [c] s = Ok (-1, out) t"
  shows "handed dst [c] 0 [] s t"
proof (cases dst)
  case (DUser a)
  obtain p where p: "cur s = Some p"
    using assms DUser by (auto simp: with_proc_def myproc_def split: option.splits)
  then have "copyout (p_pagetable (procs s ! p)) a [c] s = Ok (-1) t"
    using assms DUser by (simp add: with_proc_def myproc_def outcome_simps)
  moreover obtain m where "t = s\<lparr>memory := m\<rparr>" using either_copyout_form(1) [OF assms] by blast
  ultimately show ?thesis using DUser p delivered_fault [of _ a c s m] by simp
qed (use assms in simp_all)

lemma handed_Cons:
  assumes "either_copyout dst [c] s = Ok (r, out) u" and "r \<noteq> -1"
    and "handed (dst_add dst 1) ys k out' u t" and "length ys < 2 ^ 64 - 1" and "k \<le> length ys"
  shows "handed dst (c # ys) (Suc k) (out @ out') s t"
proof (cases dst)
  case (DUser a)
  obtain p where p: "cur s = Some p"
    using assms(1) DUser by (auto simp: with_proc_def myproc_def split: option.splits)
  let ?pt = "p_pagetable (procs s ! p)"
  have c: "copyout ?pt a [c] s = Ok r u" and out: "out = []"
    using assms(1) DUser p by (simp_all add: with_proc_def myproc_def outcome_simps)
  obtain m where m: "u = s\<lparr>memory := m\<rparr>" "r = 0"
    using copyout_form [of ?pt a "[c]" s] c assms(2) by auto
  then have "delivered u ?pt (a + 1) ys k (memory t)" "out' = []"
    using assms(3) DUser p by simp_all
  then have "delivered s ?pt a (c # ys) (Suc k) (memory t)"
    using c m assms(4,5) by (intro delivered_Cons [where m' = m]) simp_all
  then show ?thesis using DUser p out \<open>out' = []\<close> by simp
next
  case (DKernel a)
  then show ?thesis using assms(1,3) write_bytes_append [of "memory s" a "[c]" ys] by auto
next
  case DLocal
  then show ?thesis using assms(1,3) by auto
qed

text \<open>
  A read with \<open>n\<close> bytes still wanted and \<open>d\<close> delivered before returns for one of four reasons: it has
  all it wants, a whole line, or all that stands before an end-of-file key; the end-of-file key
  is the first thing it finds; a byte could not be copied; or the caller was killed while it
  waited for more. \<open>ls\<close> are the committed lines before and \<open>ls'\<close> after.
\<close>

definition read_ends ::
  "nat \<Rightarrow> nat \<Rightarrow> bool \<Rightarrow> u8 list \<Rightarrow> u8 list \<Rightarrow> nat \<Rightarrow> int \<Rightarrow> u8 list \<Rightarrow> bool" where
  "read_ends n d dead ls ys k r ls' \<longleftrightarrow>
     length ys \<le> n \<and> newline \<notin> set (butlast ys) \<and> ctrl (CHR ''D'') \<notin> set ys \<and>
     (r = int (d + k) \<and> k = length ys \<and> ls = ys @ ls' \<and>
        (k = n \<or> ys \<noteq> [] \<and> last ys = newline \<or> 0 < d + k \<and> ls' \<noteq> [] \<and> hd ls' = ctrl (CHR ''D'')) \<or>
      r = 0 \<and> d = 0 \<and> k = 0 \<and> ys = [] \<and> ls = ctrl (CHR ''D'') # ls' \<or>
      r = int (d + k) \<and> Suc k = length ys \<and> ls = ys @ ls' \<or>
      r = -1 \<and> dead \<and> k = length ys \<and> k < n \<and> newline \<notin> set ys \<and> ls = ys \<and> ls' = [])"

lemma read_ends_Cons:
  assumes "read_ends n (Suc d) dead ls ys k r ls'" and "c \<noteq> newline" and "c \<noteq> ctrl (CHR ''D'')"
  shows "read_ends (Suc n) d dead (c # ls) (c # ys) (Suc k) r ls'"
  using assms unfolding read_ends_def by (cases "ys = []") auto

definition reader_killed :: "'z kproc_scheme \<Rightarrow> bool" where
  "reader_killed s \<longleftrightarrow> (\<exists>p. cur s = Some p \<and> killed p s)"

lemma cons_get_same:
  "memory (cons_get s) = memory s" "cur (cons_get s) = cur s" "procs (cons_get s) = procs s"
  "freelist (cons_get s) = freelist s" "kend (cons_get s) = kend s"
  by (simp_all add: cons_get_def)

lemma handed_get: "handed dst ys k out (cons_get s) t = handed dst ys k out s t"
  using delivered_cong [OF cons_get_same(1,4,5) [of s]] by (cases dst) (simp_all add: cons_get_same)

lemma consoleread_loop_eof:
  assumes ok: "cons_ok s" and ne: "cons_r s \<noteq> cons_w s"
    and c: "cons_buf s ! unat (cons_r s mod INPUT_BUF_SIZE) = ctrl (CHR ''D'')"
    and n: "Suc n \<le> target" and run: "consoleread_loop (Suc n) target dst acc s = Ok (r, bs) t"
  shows "bs = acc @ [] \<and> handed dst [] 0 [] s t \<and> editing t = editing s \<and> cons_ok t \<and>
    read_ends (Suc n) (target - Suc n) (reader_killed s) (lines_of s) [] 0 r (lines_of t)"
proof -
  note g = cons_get_view [OF ok ne]
  have s: "(cons_get s)\<lparr>cons_r := cons_r (cons_get s) - 1\<rparr> = s" by (simp add: cons_get_def)
  have e: "r = int (target - Suc n)" "bs = acc" "t = (if Suc n < target then s else cons_get s)"
    using run c ne s by (auto simp: Let_def split: if_splits)
  show ?thesis
  proof (cases "Suc n < target")
    case True
    then show ?thesis using ok e g(3) c by (simp add: read_ends_def handed_none)
  next
    case False
    then show ?thesis using n e g c by (simp add: read_ends_def handed_none cons_get_same)
  qed
qed

lemma consoleread_loop_line:
  assumes "cons_ok s" and "n \<le> target" and "consoleread_loop n target dst acc s = Ok (r, bs) t"
  shows "\<exists>ys k out. bs = acc @ out \<and> handed dst ys k out s t \<and> editing t = editing s \<and> cons_ok t \<and>
    read_ends n (target - n) (reader_killed s) (lines_of s) ys k r (lines_of t)"
  using assms
proof (induction n arbitrary: s dst acc)
  case 0
  then show ?case
    by (intro exI [of _ "[]"] exI [of _ 0]) (auto simp: read_ends_def handed_none)
next
  case (Suc n)
  show ?case
  proof (cases "cons_r s = cons_w s")
    case True
    then have "lines_of s = []" by (simp add: lines_of_def)
    then show ?thesis
      using Suc.prems True by (intro exI [of _ "[]"] exI [of _ 0])
        (auto simp: read_ends_def handed_none reader_killed_def with_proc_def myproc_def sleep_def
          split: option.splits if_splits)
  next
    case False
    let ?c = "cons_buf s ! unat (cons_r s mod INPUT_BUF_SIZE)"
    note g = cons_get_view [OF Suc.prems(1) False]
    show ?thesis
    proof (cases "?c = ctrl (CHR ''D'')")
      case True
      then show ?thesis using consoleread_loop_eof [OF Suc.prems(1) False True Suc.prems(2,3)] by blast
    next
      case nd: False
      obtain r' out u where u: "either_copyout dst [?c] (cons_get s) = Ok (r', out) u"
        using Suc.prems(3) False nd
        by (cases "either_copyout dst [?c] (cons_get s)") (auto simp: Let_def)
      obtain m where m: "u = (cons_get s)\<lparr>memory := m\<rparr>" using either_copyout_form(1) [OF u] by blast
      consider (fail) "r' = -1" | (line) "r' \<noteq> -1" "?c = newline" | (more) "r' \<noteq> -1" "?c \<noteq> newline" by blast
      then show ?thesis
      proof cases
        case fail
        then show ?thesis
          using Suc.prems False nd u g m handed_fault [of dst ?c "cons_get s" out u]
          by (intro exI [of _ "[?c]"] exI [of _ 0] exI [of _ "[]"]) (auto simp: read_ends_def Let_def handed_get)
      next
        case line
        have "handed dst [?c] 1 (out @ []) (cons_get s) u"
          using handed_Cons [OF u line(1) handed_none [OF refl]] by simp
        then show ?thesis
          using Suc.prems False nd u g m line
          by (intro exI [of _ "[?c]"] exI [of _ 1] exI [of _ out]) (auto simp: read_ends_def Let_def handed_get Suc_diff_le)
      next
        case more
        have rest: "consoleread_loop n target (dst_add dst 1) (acc @ out) u = Ok (r, bs) t"
          using Suc.prems(3) False nd u more by (simp add: Let_def)
        obtain ys k out' where ys: "bs = (acc @ out) @ out'" "handed (dst_add dst 1) ys k out' u t"
            "editing t = editing u" "cons_ok t"
            "read_ends n (target - n) (reader_killed u) (lines_of u) ys k r (lines_of t)"
          using Suc.IH [OF _ _ rest] g(1) m Suc.prems(2) by auto
        have d: "target - n = Suc (target - Suc n)" using Suc.prems(2) by simp
        have k: "k \<le> length ys" "length ys \<le> 128"
          using ys(5) length_lines [of u] g(1) m by (auto simp: read_ends_def)
        have "handed dst (?c # ys) (Suc k) (out @ out') (cons_get s) t"
          using handed_Cons [OF u more(1) ys(2)] k by simp
        moreover have "reader_killed u = reader_killed s" by (simp add: m reader_killed_def killed_def cons_get_same)
        ultimately show ?thesis
          using ys(1,3,4) read_ends_Cons [OF ys(5) [unfolded d] more(2) nd] g(2,3) m
          by (intro exI [of _ "?c # ys"] exI [of _ "Suc k"] exI [of _ "out @ out'"]) (simp add: handed_get)
      qed
    qed
  qed
qed

text \<open>C25. A read of the console, at its start or resumed after a sleep, that returns takes what it
  delivers from the front of the committed lines, in order, and leaves the rest of them and
  the line being edited in place. Every byte taken is stored at the next address of the
  destination, with two exceptions: the end-of-file key at the very start of the read is
  taken and 0 returned, and a byte that could not be copied is lost. An end-of-file key met
  later stays for the next read, and no byte beyond a newline is taken. The count
  returned is that of the bytes stored; -1 is returned only to a killed reader who has
  used up the committed lines.
\<close>

theorem consoleread_takes_line:
  assumes "cons_ok s" and "n \<le> target" and "consoleread_loop n target dst acc s = Ok (r, bs) t"
  shows "\<exists>ys k out. bs = acc @ out \<and> handed dst ys k out s t \<and> editing t = editing s \<and> cons_ok t \<and>
    length ys \<le> n \<and> newline \<notin> set (butlast ys) \<and> ctrl (CHR ''D'') \<notin> set ys \<and>
    (r = int (target - n + k) \<and> k = length ys \<and> lines_of s = ys @ lines_of t \<and>
       (k = n \<or> ys \<noteq> [] \<and> last ys = newline \<or>
        0 < target - n + k \<and> lines_of t \<noteq> [] \<and> hd (lines_of t) = ctrl (CHR ''D'')) \<or>
     r = 0 \<and> n = target \<and> k = 0 \<and> ys = [] \<and> lines_of s = ctrl (CHR ''D'') # lines_of t \<or>
     r = int (target - n + k) \<and> Suc k = length ys \<and> lines_of s = ys @ lines_of t \<or>
     r = -1 \<and> reader_killed s \<and> k = length ys \<and> k < n \<and> newline \<notin> set ys \<and>
       lines_of s = ys \<and> lines_of t = [])"
proof -
  obtain ys k out where y: "bs = acc @ out" "handed dst ys k out s t" "editing t = editing s" "cons_ok t"
      "read_ends n (target - n) (reader_killed s) (lines_of s) ys k r (lines_of t)"
    using consoleread_loop_line [OF assms] by blast
  show ?thesis
    using y(1-4) y(5) [unfolded read_ends_def] assms(2) by (intro exI [of _ ys] exI [of _ k] exI [of _ out]) auto
qed

text \<open>A read of five bytes that finds two and an end-of-file key.\<close>

theorem consoleread_takes_line_witness:
  "let s = kcons0\<lparr>cons_buf := [104, 105, 4, 106] @ replicate 124 0, cons_w := 4, cons_e := 5\<rparr> in
   \<exists>t. consoleread DLocal 5 s = Ok (2, [104, 105]) t \<and> lines_of s = [104, 105] @ lines_of t \<and>
     hd (lines_of t) = 4"
proof -
  let ?s = "kcons0\<lparr>cons_buf := [104, 105, 4, 106] @ replicate 124 0, cons_w := 4, cons_e := 5\<rparr>"
  have ok: "cons_ok ?s" by (simp add: cons_ok_def kcons0_defs)
  have n: "nat 5 = Suc (Suc (Suc (Suc (Suc 0))))" by simp
  have "\<exists>t. consoleread DLocal 5 ?s = Ok (2, [104, 105]) t"
    unfolding consoleread_def n
    by (simp add: cons_get_def kcons0_defs INPUT_BUF_SIZE_def ctrl_def newline_def)
  then obtain t where t: "consoleread DLocal 5 ?s = Ok (2, [104, 105]) t" ..
  then have l: "consoleread_loop 5 5 DLocal [] ?s = Ok (2, [104, 105]) t" by (simp add: consoleread_def)
  have "lines_of ?s = [104, 105] @ lines_of t \<and> hd (lines_of t) = 4"
    using consoleread_takes_line [OF ok order_refl l] by (auto simp: ctrl_def newline_def)
  then show ?thesis using t unfolding Let_def by blast
qed

end
