(* ===== verification/Virtio.thy ===== *)
theory Virtio
  imports Console
begin

text \<open>
  The disk driver, \<^verbatim>\<open>kernel/virtio_disk.c\<close>, with the buffers it transfers
  (\<^verbatim>\<open>kernel/buf.h\<close>). The descriptor table and the two rings live in pages the driver
  allocates and shares with the device; the model keeps them as typed tables. A descriptor's
  address is symbolic: a command header, the data of a buffer, or a status byte. The device
  registers are a register file; a write to the status register drops the
  \<^verbatim>\<open>FEATURES_OK\<close> bit when the device does not accept the features.

  \<^verbatim>\<open>virtio_disk_rw\<close> submits a request and sleeps until the interrupt handler clears
  \<^verbatim>\<open>b->disk\<close>; the part before the sleep and the part after it
  are separate definitions.
\<close>

section \<open>State\<close>

datatype daddr = DNull | DOps nat | DData nat | DStatus nat

record vdesc =
  d_addr :: daddr
  d_len :: u32
  d_flags :: u16
  d_next :: u16

record vdisk =
  vd_pages :: "u64 list"
  vd_desc :: "vdesc list"
  vd_avail_idx :: u16
  vd_avail :: "u16 list"
  vd_used_dev :: u16
  vd_used :: "u32 list"
  vd_free :: "bool list"
  vd_used_idx :: u16
  vd_info_b :: "nat option list"
  vd_info_status :: "u8 list"
  vd_op_type :: "u32 list"
  vd_op_sector :: "u64 list"
  vd_regs :: "u32 \<Rightarrow> u32"
  vd_accepts :: "u32 \<Rightarrow> bool"

definition NUM :: nat where "NUM = 8"
definition NBUF :: nat where "NBUF = 30"
definition HEAD :: nat where "HEAD = 30"
definition BSIZE :: nat where "BSIZE = 1024"

record buf =
  b_valid :: bool
  b_disk :: bool
  b_dev :: u32
  b_blockno :: u32
  b_lock :: sleeplock
  b_refcnt :: u32
  b_prev :: nat
  b_next :: nat
  b_data :: "u8 list"

record kbio = kcons +
  bcache :: "buf list"
  disk :: "u32 \<Rightarrow> u8 list"
  writes :: "(u32 \<times> u8 list) list"
  vd :: vdisk

definition buf0 :: buf where
  "buf0 = \<lparr>b_valid = False, b_disk = False, b_dev = 0, b_blockno = 0, b_lock = initsleeplock,
     b_refcnt = 0, b_prev = 0, b_next = 0, b_data = replicate BSIZE 0\<rparr>"

definition vdisk0 :: vdisk where
  "vdisk0 = \<lparr>vd_pages = [0, 0, 0],
     vd_desc = replicate NUM \<lparr>d_addr = DNull, d_len = 0, d_flags = 0, d_next = 0\<rparr>,
     vd_avail_idx = 0, vd_avail = replicate NUM 0, vd_used_dev = 0, vd_used = replicate NUM 0,
     vd_free = replicate NUM False, vd_used_idx = 0, vd_info_b = replicate NUM None,
     vd_info_status = replicate NUM 0, vd_op_type = replicate NUM 0, vd_op_sector = replicate NUM 0,
     vd_regs = \<lambda>_. 0, vd_accepts = \<lambda>_. True\<rparr>"

definition kbio0 :: kbio where
  "kbio0 = kcons.extend kcons0
     (kbio.fields (replicate (NBUF + 1) buf0) (\<lambda>_. replicate BSIZE 0) [] vdisk0)"

definition upd_buf :: "nat \<Rightarrow> (buf \<Rightarrow> buf) \<Rightarrow> 'z kbio_scheme \<Rightarrow> 'z kbio_scheme" where
  "upd_buf i f s = s\<lparr>bcache := (bcache s)[i := f (bcache s ! i)]\<rparr>"

abbreviation buf_lock :: "nat \<Rightarrow> 'z kbio_scheme \<Rightarrow> sleeplock" where
  "buf_lock i s \<equiv> b_lock (bcache s ! i)"

abbreviation set_buf_lock :: "nat \<Rightarrow> sleeplock \<Rightarrow> 'z kbio_scheme \<Rightarrow> 'z kbio_scheme" where
  "set_buf_lock i l s \<equiv> upd_buf i (\<lambda>b. b\<lparr>b_lock := l\<rparr>) s"

definition upd_vd :: "(vdisk \<Rightarrow> vdisk) \<Rightarrow> 'z kbio_scheme \<Rightarrow> 'z kbio_scheme" where
  "upd_vd f s = s\<lparr>vd := f (vd s)\<rparr>"

definition MMIO_MAGIC :: u32 where "MMIO_MAGIC = 0x000"
definition MMIO_VERSION :: u32 where "MMIO_VERSION = 0x004"
definition MMIO_DEVICE_ID :: u32 where "MMIO_DEVICE_ID = 0x008"
definition MMIO_VENDOR_ID :: u32 where "MMIO_VENDOR_ID = 0x00c"
definition MMIO_DEVICE_FEATURES :: u32 where "MMIO_DEVICE_FEATURES = 0x010"
definition MMIO_DRIVER_FEATURES :: u32 where "MMIO_DRIVER_FEATURES = 0x020"
definition MMIO_QUEUE_SEL :: u32 where "MMIO_QUEUE_SEL = 0x030"
definition MMIO_QUEUE_NUM_MAX :: u32 where "MMIO_QUEUE_NUM_MAX = 0x034"
definition MMIO_QUEUE_NUM :: u32 where "MMIO_QUEUE_NUM = 0x038"
definition MMIO_QUEUE_READY :: u32 where "MMIO_QUEUE_READY = 0x044"
definition MMIO_QUEUE_NOTIFY :: u32 where "MMIO_QUEUE_NOTIFY = 0x050"
definition MMIO_INTERRUPT_STATUS :: u32 where "MMIO_INTERRUPT_STATUS = 0x060"
definition MMIO_INTERRUPT_ACK :: u32 where "MMIO_INTERRUPT_ACK = 0x064"
definition MMIO_STATUS :: u32 where "MMIO_STATUS = 0x070"
definition S_ACKNOWLEDGE :: u32 where "S_ACKNOWLEDGE = 1"
definition S_DRIVER :: u32 where "S_DRIVER = 2"
definition S_DRIVER_OK :: u32 where "S_DRIVER_OK = 4"
definition S_FEATURES_OK :: u32 where "S_FEATURES_OK = 8"
definition VRING_DESC_F_NEXT :: u16 where "VRING_DESC_F_NEXT = 1"
definition VRING_DESC_F_WRITE :: u16 where "VRING_DESC_F_WRITE = 2"
definition VIRTIO_BLK_T_IN :: u32 where "VIRTIO_BLK_T_IN = 0"
definition VIRTIO_BLK_T_OUT :: u32 where "VIRTIO_BLK_T_OUT = 1"

definition mmio_read :: "u32 \<Rightarrow> 'z kbio_scheme \<Rightarrow> u32" where
  "mmio_read r s = vd_regs (vd s) r"

definition mmio_write :: "u32 \<Rightarrow> u32 \<Rightarrow> 'z kbio_scheme \<Rightarrow> 'z kbio_scheme" where
  "mmio_write r v s =
     upd_vd (\<lambda>d. d\<lparr>vd_regs := (vd_regs d)(r :=
       if r = MMIO_STATUS \<and> \<not> vd_accepts d (vd_regs d MMIO_DRIVER_FEATURES)
       then v AND NOT S_FEATURES_OK else v)\<rparr>) s"

section \<open>Initialisation\<close>

definition zero_desc :: vdesc where
  "zero_desc = \<lparr>d_addr = DNull, d_len = 0, d_flags = 0, d_next = 0\<rparr>"

text \<open>The features the driver does not want: bits 5, 7, 11, 12, 27, 28 and 29.\<close>

definition clear_bits :: "nat list \<Rightarrow> u32 \<Rightarrow> u32" where
  "clear_bits bs v = fold (\<lambda>b v. v AND NOT (push_bit b 1)) bs v"

definition virtio_queue_init :: "u32 \<Rightarrow> 'z kbio_scheme \<Rightarrow> (unit, 'z kbio_scheme) outcome" where
  "virtio_queue_init status s =
     obind (kalloc s) (\<lambda>desc s.
     obind (kalloc s) (\<lambda>avail s.
     obind (kalloc s) (\<lambda>used s.
     if desc = 0 \<or> avail = 0 \<or> used = 0 then Panic ''virtio disk kalloc''
     else
       let s = s\<lparr>memory := memset (memory s) desc 0 4096\<rparr>;
           s = s\<lparr>memory := memset (memory s) avail 0 4096\<rparr>;
           s = s\<lparr>memory := memset (memory s) used 0 4096\<rparr>;
           s = upd_vd (\<lambda>d. d\<lparr>vd_pages := [desc, avail, used], vd_desc := replicate NUM zero_desc,
                 vd_avail_idx := 0, vd_avail := replicate NUM 0,
                 vd_used_dev := 0, vd_used := replicate NUM 0\<rparr>) s;
           s = mmio_write MMIO_QUEUE_NUM (of_nat NUM) s;
           s = mmio_write 0x080 (ucast desc) s;
           s = mmio_write 0x084 (ucast (drop_bit 32 desc)) s;
           s = mmio_write 0x090 (ucast avail) s;
           s = mmio_write 0x094 (ucast (drop_bit 32 avail)) s;
           s = mmio_write 0x0a0 (ucast used) s;
           s = mmio_write 0x0a4 (ucast (drop_bit 32 used)) s;
           s = mmio_write MMIO_QUEUE_READY 1 s;
           s = upd_vd (\<lambda>d. d\<lparr>vd_free := replicate NUM True\<rparr>) s
       in Ok () (mmio_write MMIO_STATUS (status OR S_DRIVER_OK) s))))"

definition virtio_disk_init :: "'z kbio_scheme \<Rightarrow> (unit, 'z kbio_scheme) outcome" where
  "virtio_disk_init s =
     (if mmio_read MMIO_MAGIC s \<noteq> 0x74726976 \<or> mmio_read MMIO_VERSION s \<noteq> 2 \<or>
         mmio_read MMIO_DEVICE_ID s \<noteq> 2 \<or> mmio_read MMIO_VENDOR_ID s \<noteq> 0x554d4551
      then Panic ''could not find virtio disk''
      else
        let s = mmio_write MMIO_STATUS 0 s;
            s = mmio_write MMIO_STATUS S_ACKNOWLEDGE s;
            status = S_ACKNOWLEDGE OR S_DRIVER;
            s = mmio_write MMIO_STATUS status s;
            features = clear_bits [5, 7, 11, 12, 27, 29, 28] (mmio_read MMIO_DEVICE_FEATURES s);
            s = mmio_write MMIO_DRIVER_FEATURES features s;
            s = mmio_write MMIO_STATUS (status OR S_FEATURES_OK) s;
            status = mmio_read MMIO_STATUS s
        in if status AND S_FEATURES_OK = 0 then Panic ''virtio disk FEATURES_OK unset''
           else
             let s = mmio_write MMIO_QUEUE_SEL 0 s in
             if mmio_read MMIO_QUEUE_READY s \<noteq> 0 then Panic ''virtio disk should not be ready''
             else if mmio_read MMIO_QUEUE_NUM_MAX s = 0 then Panic ''virtio disk has no queue 0''
             else if mmio_read MMIO_QUEUE_NUM_MAX s < of_nat NUM
             then Panic ''virtio disk max queue too short''
             else virtio_queue_init status s)"

section \<open>Descriptors\<close>

fun alloc_desc_scan :: "nat list \<Rightarrow> bool list \<Rightarrow> nat option" where
  "alloc_desc_scan [] fr = None"
| "alloc_desc_scan (i # is) fr = (if fr ! i then Some i else alloc_desc_scan is fr)"

definition alloc_desc :: "'z kbio_scheme \<Rightarrow> nat option \<times> 'z kbio_scheme" where
  "alloc_desc s =
     (case alloc_desc_scan [0..<NUM] (vd_free (vd s)) of
        None \<Rightarrow> (None, s)
      | Some i \<Rightarrow> (Some i, upd_vd (\<lambda>d. d\<lparr>vd_free := (vd_free d)[i := False]\<rparr>) s))"

definition free_desc :: "nat \<Rightarrow> 'z kbio_scheme \<Rightarrow> (unit, 'z kbio_scheme) outcome" where
  "free_desc i s =
     (if i \<ge> NUM then Panic ''free_desc 1''
      else if vd_free (vd s) ! i then Panic ''free_desc 2''
      else Ok () (wakeup ChDiskFree (upd_vd (\<lambda>d. d\<lparr>vd_desc := (vd_desc d)[i := zero_desc],
                                              vd_free := (vd_free d)[i := True]\<rparr>) s)))"

text \<open>Every round frees a descriptor that was in use, so \<open>NUM\<close> rounds and one more are enough.\<close>

fun free_chain_loop :: "nat \<Rightarrow> nat \<Rightarrow> 'z kbio_scheme \<Rightarrow> (unit, 'z kbio_scheme) outcome" where
  "free_chain_loop 0 i s = Diverges"
| "free_chain_loop (Suc fuel) i s =
     (let flag = d_flags (vd_desc (vd s) ! i); nxt = unat (d_next (vd_desc (vd s) ! i)) in
      obind (free_desc i s) (\<lambda>_ s.
      if flag AND VRING_DESC_F_NEXT \<noteq> 0 then free_chain_loop fuel nxt s else Ok () s))"

definition free_chain :: "nat \<Rightarrow> 'z kbio_scheme \<Rightarrow> (unit, 'z kbio_scheme) outcome" where
  "free_chain i s = free_chain_loop (NUM + 1) i s"

fun free_descs :: "nat list \<Rightarrow> 'z kbio_scheme \<Rightarrow> (unit, 'z kbio_scheme) outcome" where
  "free_descs [] s = Ok () s"
| "free_descs (i # is) s = obind (free_desc i s) (\<lambda>_ s. free_descs is s)"

text \<open>\<open>alloc3_loop k idx\<close> allocates \<open>k\<close> more descriptors after \<open>idx\<close>, or gives them all back.\<close>

fun alloc3_loop :: "nat \<Rightarrow> nat list \<Rightarrow> 'z kbio_scheme \<Rightarrow> (nat list option, 'z kbio_scheme) outcome" where
  "alloc3_loop 0 idx s = Ok (Some idx) s"
| "alloc3_loop (Suc k) idx s =
     (case alloc_desc s of
        (None, s) \<Rightarrow> obind (free_descs idx s) (\<lambda>_ s. Ok None s)
      | (Some i, s) \<Rightarrow> alloc3_loop k (idx @ [i]) s)"

definition alloc3_desc :: "'z kbio_scheme \<Rightarrow> (nat list option, 'z kbio_scheme) outcome" where
  "alloc3_desc s = alloc3_loop 3 [] s"

section \<open>Requests and completions\<close>

definition set_desc :: "nat \<Rightarrow> vdesc \<Rightarrow> 'z kbio_scheme \<Rightarrow> 'z kbio_scheme" where
  "set_desc i x s = upd_vd (\<lambda>d. d\<lparr>vd_desc := (vd_desc d)[i := x]\<rparr>) s"

definition format_request :: "nat list \<Rightarrow> nat \<Rightarrow> bool \<Rightarrow> 'z kbio_scheme \<Rightarrow> 'z kbio_scheme" where
  "format_request idx b write s =
     (let sector = ucast (b_blockno (bcache s ! b) * 2) :: u64;
          i0 = idx ! 0; i1 = idx ! 1; i2 = idx ! 2;
          s = upd_vd (\<lambda>d. d\<lparr>
                vd_op_type := (vd_op_type d)[i0 := if write then VIRTIO_BLK_T_OUT else VIRTIO_BLK_T_IN],
                vd_op_sector := (vd_op_sector d)[i0 := sector]\<rparr>) s;
          s = set_desc i0 \<lparr>d_addr = DOps i0, d_len = 16, d_flags = VRING_DESC_F_NEXT,
                d_next = of_nat i1\<rparr> s;
          s = set_desc i1 \<lparr>d_addr = DData b, d_len = of_nat BSIZE,
                d_flags = (if write then 0 else VRING_DESC_F_WRITE) OR VRING_DESC_F_NEXT,
                d_next = of_nat i2\<rparr> s;
          s = upd_vd (\<lambda>d. d\<lparr>vd_info_status := (vd_info_status d)[i0 := 0xff]\<rparr>) s
      in set_desc i2 \<lparr>d_addr = DStatus i0, d_len = 1, d_flags = VRING_DESC_F_WRITE, d_next = 0\<rparr> s)"

definition virtio_submit :: "nat \<Rightarrow> bool \<Rightarrow> 'z kbio_scheme \<Rightarrow> (nat list, 'z kbio_scheme) outcome" where
  "virtio_submit b write s =
     obind (alloc3_desc s) (\<lambda>r s.
     case r of
       None \<Rightarrow> sleep ChDiskFree s
     | Some idx \<Rightarrow>
         let s = format_request idx b write s;
             s = upd_buf b (\<lambda>x. x\<lparr>b_disk := True\<rparr>) s;
             s = upd_vd (\<lambda>d. d\<lparr>vd_info_b := (vd_info_b d)[idx ! 0 := Some b]\<rparr>) s;
             s = upd_vd (\<lambda>d. d\<lparr>vd_avail :=
                   (vd_avail d)[unat (vd_avail_idx d mod of_nat NUM) := of_nat (idx ! 0)]\<rparr>) s;
             s = upd_vd (\<lambda>d. d\<lparr>vd_avail_idx := vd_avail_idx d + 1\<rparr>) s
         in Ok idx (mmio_write MMIO_QUEUE_NOTIFY 0 s))"

definition virtio_wait :: "nat list \<Rightarrow> nat \<Rightarrow> 'z kbio_scheme \<Rightarrow> (unit, 'z kbio_scheme) outcome" where
  "virtio_wait idx b s =
     (if b_disk (bcache s ! b) then sleep (ChBuf b) s
      else free_chain (idx ! 0) (upd_vd (\<lambda>d. d\<lparr>vd_info_b := (vd_info_b d)[idx ! 0 := None]\<rparr>) s))"

definition virtio_disk_rw :: "nat \<Rightarrow> bool \<Rightarrow> 'z kbio_scheme \<Rightarrow> (unit, 'z kbio_scheme) outcome" where
  "virtio_disk_rw b write s = obind (virtio_submit b write s) (\<lambda>idx s. virtio_wait idx b s)"

text \<open>
  The loop of the interrupt handler counts \<^verbatim>\<open>used_idx\<close> up to the device's index, a
  16-bit difference.
\<close>

function virtio_intr_loop :: "'z kbio_scheme \<Rightarrow> (unit, 'z kbio_scheme) outcome" where
  "virtio_intr_loop s =
     (if vd_used_idx (vd s) \<noteq> vd_used_dev (vd s)
      then
        let id = unat (vd_used (vd s) ! unat (vd_used_idx (vd s) mod of_nat NUM)) in
        if vd_info_status (vd s) ! id \<noteq> 0 then Panic ''virtio_disk_intr status''
        else
          case vd_info_b (vd s) ! id of
            None \<Rightarrow> Panic ''kerneltrap''
          | Some b \<Rightarrow>
              let s = wakeup (ChBuf b) (upd_buf b (\<lambda>x. x\<lparr>b_disk := False\<rparr>) s)
              in virtio_intr_loop (upd_vd (\<lambda>d. d\<lparr>vd_used_idx := vd_used_idx d + 1\<rparr>) s)
      else Ok () s)"
  by pat_completeness auto
termination
proof (relation "measure (\<lambda>s. unat (vd_used_dev (vd s) - vd_used_idx (vd s)))")
  fix s :: "'z kbio_scheme" and x b t
  assume ne: "vd_used_idx (vd s) \<noteq> vd_used_dev (vd s)"
    and t: "t = wakeup (ChBuf b) (upd_buf b (\<lambda>x. x\<lparr>b_disk := False\<rparr>) s)"
  have "vd_used_dev (vd s) - vd_used_idx (vd s) \<noteq> 0" using ne by simp
  then have "unat (vd_used_dev (vd s) - vd_used_idx (vd s) - 1) <
      unat (vd_used_dev (vd s) - vd_used_idx (vd s))"
    by (simp add: unat_minus_one unat_gt_0)
  then show "(upd_vd (\<lambda>d. d\<lparr>vd_used_idx := vd_used_idx d + 1\<rparr>) t, s)
      \<in> measure (\<lambda>s. unat (vd_used_dev (vd s) - vd_used_idx (vd s)))"
    unfolding t by (simp add: wakeup_eq upd_buf_def upd_vd_def algebra_simps)
qed simp

declare virtio_intr_loop.simps [simp del]

definition virtio_disk_intr :: "'z kbio_scheme \<Rightarrow> (unit, 'z kbio_scheme) outcome" where
  "virtio_disk_intr s =
     virtio_intr_loop (mmio_write MMIO_INTERRUPT_ACK (mmio_read MMIO_INTERRUPT_STATUS s AND 3) s)"

end
