(* ===== verification/Bio.thy ===== *)
theory Bio
  imports Virtio
begin

text \<open>
  The buffer cache, \<^verbatim>\<open>kernel/bio.c\<close>. The cache is a list of \<open>NBUF\<close> buffers and
  the list head, which is the buffer at index \<open>HEAD\<close>; \<^verbatim>\<open>prev\<close> and
  \<^verbatim>\<open>next\<close> are indices. A traversal of the list takes fuel; \<open>NBUF + 1\<close> is enough
  on the lists the code builds. The disk is the map from block numbers to contents together
  with the order in which blocks were written to it.
\<close>

section \<open>State and operations\<close>

text \<open>
  A transfer of one block, taken whole: the effect a completed request is assumed to have. The
  theory \<open>Virtio\<close> models how the driver makes a request; that a request has this effect is not
  proved.
\<close>

definition disk_rw :: "nat \<Rightarrow> bool \<Rightarrow> 'z kbio_scheme \<Rightarrow> 'z kbio_scheme" where
  "disk_rw i write s =
     (let b = bcache s ! i in
      if write then s\<lparr>disk := (disk s)(b_blockno b := b_data b),
                      writes := writes s @ [(b_blockno b, b_data b)]\<rparr>
      else upd_buf i (\<lambda>b. b\<lparr>b_data := disk s (b_blockno b)\<rparr>) s)"

definition link_first :: "nat \<Rightarrow> 'z kbio_scheme \<Rightarrow> 'z kbio_scheme" where
  "link_first b s =
     (let s = upd_buf b (\<lambda>x. x\<lparr>b_next := b_next (bcache s ! HEAD)\<rparr>) s;
          s = upd_buf b (\<lambda>x. x\<lparr>b_prev := HEAD\<rparr>) s;
          s = upd_buf (b_next (bcache s ! HEAD)) (\<lambda>x. x\<lparr>b_prev := b\<rparr>) s
      in upd_buf HEAD (\<lambda>x. x\<lparr>b_next := b\<rparr>) s)"

definition unlink :: "nat \<Rightarrow> 'z kbio_scheme \<Rightarrow> 'z kbio_scheme" where
  "unlink b s =
     (let s = upd_buf (b_next (bcache s ! b)) (\<lambda>x. x\<lparr>b_prev := b_prev (bcache s ! b)\<rparr>) s
      in upd_buf (b_prev (bcache s ! b)) (\<lambda>x. x\<lparr>b_next := b_next (bcache s ! b)\<rparr>) s)"

fun binit_loop :: "nat list \<Rightarrow> 'z kbio_scheme \<Rightarrow> 'z kbio_scheme" where
  "binit_loop [] s = s"
| "binit_loop (b # bs) s =
     binit_loop bs (link_first b (upd_buf b (\<lambda>x. x\<lparr>b_lock := initsleeplock\<rparr>) s))"

definition binit :: "'z kbio_scheme \<Rightarrow> 'z kbio_scheme" where
  "binit s =
     binit_loop [0..<NBUF] (upd_buf HEAD (\<lambda>x. x\<lparr>b_prev := HEAD, b_next := HEAD\<rparr>) s)"

fun bget_cached :: "nat \<Rightarrow> nat \<Rightarrow> u32 \<Rightarrow> u32 \<Rightarrow> buf list \<Rightarrow> nat option option" where
  "bget_cached 0 b dev blockno bs = None"
| "bget_cached (Suc fuel) b dev blockno bs =
     (if b = HEAD then Some None
      else if b_dev (bs ! b) = dev \<and> b_blockno (bs ! b) = blockno then Some (Some b)
      else bget_cached fuel (b_next (bs ! b)) dev blockno bs)"

fun bget_unused :: "nat \<Rightarrow> nat \<Rightarrow> buf list \<Rightarrow> nat option option" where
  "bget_unused 0 b bs = None"
| "bget_unused (Suc fuel) b bs =
     (if b = HEAD then Some None
      else if b_refcnt (bs ! b) = 0 then Some (Some b)
      else bget_unused fuel (b_prev (bs ! b)) bs)"

definition bget :: "u32 \<Rightarrow> u32 \<Rightarrow> 'z kbio_scheme \<Rightarrow> (nat, 'z kbio_scheme) outcome" where
  "bget dev blockno s =
     (case bget_cached (NBUF + 1) (b_next (bcache s ! HEAD)) dev blockno (bcache s) of
        None \<Rightarrow> Diverges
      | Some (Some b) \<Rightarrow>
          obind (acquiresleep (ChBufLock b) (buf_lock b) (set_buf_lock b)
                   (upd_buf b (\<lambda>x. x\<lparr>b_refcnt := b_refcnt x + 1\<rparr>) s)) (\<lambda>_ s. Ok b s)
      | Some None \<Rightarrow>
          (case bget_unused (NBUF + 1) (b_prev (bcache s ! HEAD)) (bcache s) of
             None \<Rightarrow> Diverges
           | Some (Some b) \<Rightarrow>
               obind (acquiresleep (ChBufLock b) (buf_lock b) (set_buf_lock b)
                        (upd_buf b (\<lambda>x. x\<lparr>b_dev := dev, b_blockno := blockno, b_valid := False,
                                         b_refcnt := 1\<rparr>) s)) (\<lambda>_ s. Ok b s)
           | Some None \<Rightarrow> Panic ''bget: no buffers''))"

definition bread :: "u32 \<Rightarrow> u32 \<Rightarrow> 'z kbio_scheme \<Rightarrow> (nat, 'z kbio_scheme) outcome" where
  "bread dev blockno s =
     obind (bget dev blockno s) (\<lambda>b s.
       if \<not> b_valid (bcache s ! b)
       then Ok b (upd_buf b (\<lambda>x. x\<lparr>b_valid := True\<rparr>) (disk_rw b False s))
       else Ok b s)"

definition bwrite :: "nat \<Rightarrow> 'z kbio_scheme \<Rightarrow> (unit, 'z kbio_scheme) outcome" where
  "bwrite b s =
     obind (holdingsleep (buf_lock b) s) (\<lambda>h s.
       if \<not> h then Panic ''bwrite'' else Ok () (disk_rw b True s))"

definition brelse :: "nat \<Rightarrow> 'z kbio_scheme \<Rightarrow> (unit, 'z kbio_scheme) outcome" where
  "brelse b s =
     obind (holdingsleep (buf_lock b) s) (\<lambda>h s.
     if \<not> h then Panic ''brelse''
     else
       let s = releasesleep (ChBufLock b) (set_buf_lock b) s;
           s = upd_buf b (\<lambda>x. x\<lparr>b_refcnt := b_refcnt x - 1\<rparr>) s
       in if b_refcnt (bcache s ! b) = 0
          then Ok () (link_first b (unlink b s))
          else Ok () s)"

definition bpin :: "nat \<Rightarrow> 'z kbio_scheme \<Rightarrow> 'z kbio_scheme" where
  "bpin b s = upd_buf b (\<lambda>x. x\<lparr>b_refcnt := b_refcnt x + 1\<rparr>) s"

definition bunpin :: "nat \<Rightarrow> 'z kbio_scheme \<Rightarrow> 'z kbio_scheme" where
  "bunpin b s = upd_buf b (\<lambda>x. x\<lparr>b_refcnt := b_refcnt x - 1\<rparr>) s"

section \<open>The recency list\<close>

text \<open>
  \<open>links bs a l\<close>: from buffer \<open>a\<close> the forward links visit \<open>l\<close>, and the backward links
  lead back. The list of the cache is a cycle through the head.
\<close>

fun links :: "buf list \<Rightarrow> nat \<Rightarrow> nat list \<Rightarrow> bool" where
  "links bs a [] = True"
| "links bs a (b # l) = (b_next (bs ! a) = b \<and> b_prev (bs ! b) = a \<and> links bs b l)"

definition linked :: "buf list \<Rightarrow> nat list \<Rightarrow> bool" where
  "linked bs ns \<longleftrightarrow> links bs HEAD (ns @ [HEAD])"

lemma links_append: "links bs a (xs @ ys) \<longleftrightarrow> links bs a xs \<and> links bs (last (a # xs)) ys"
  by (induction xs arbitrary: a) auto

lemma links_cong:
  assumes "links bs a l" and "\<forall>x \<in> set (butlast (a # l)). b_next (bs' ! x) = b_next (bs ! x)"
    and "\<forall>x \<in> set l. b_prev (bs' ! x) = b_prev (bs ! x)"
  shows "links bs' a l"
  using assms by (induction l arbitrary: a) auto

lemma nth_upd_buf:
  "bcache (upd_buf i f s) ! j = (if j = i \<and> i < length (bcache s) then f (bcache s ! i) else bcache s ! j)"
  by (cases "i < length (bcache s)") (auto simp: upd_buf_def list_update_beyond)

lemma length_upd_buf [simp]: "length (bcache (upd_buf i f s)) = length (bcache s)"
  by (simp add: upd_buf_def)

lemma unlink_chain:
  assumes "linked (bcache s) (xs @ b # ys)" and "distinct (xs @ b # ys)"
    and "set (xs @ b # ys) \<subseteq> {0..<NBUF}" and "length (bcache s) = NBUF + 1"
  shows "linked (bcache (unlink b s)) (xs @ ys)"
proof -
  obtain v zs where v: "ys @ [HEAD] = v # zs" by (cases ys) auto
  define u where "u = last (HEAD # xs)"
  have u: "u = HEAD \<or> u \<in> set xs" by (simp add: u_def)
  have c: "links (bcache s) HEAD xs" "b_next (bcache s ! u) = b" "b_prev (bcache s ! b) = u"
      "b_next (bcache s ! b) = v" "b_prev (bcache s ! v) = b" "links (bcache s) v zs"
    using assms(1) v by (simp_all add: linked_def links_append u_def)
  have dist: "distinct (v # zs)" "distinct (HEAD # xs)" "v \<notin> set xs" "u \<notin> set ys" "v \<noteq> b" "u \<noteq> b"
    using assms(2,3) v u by (auto simp: HEAD_def NBUF_def append_eq_Cons_conv)
  have lt: "u < length (bcache s)" "v < length (bcache s)"
    using assms(3,4) v u by (auto simp: HEAD_def NBUF_def append_eq_Cons_conv)
  let ?bs = "bcache (unlink b s)"
  have nx: "b_next (?bs ! j) = (if j = u then v else b_next (bcache s ! j))"
    and pv: "b_prev (?bs ! j) = (if j = v then u else b_prev (bcache s ! j))" for j
    using c(2-5) lt dist(5,6) by (auto simp: unlink_def Let_def nth_upd_buf)
  have u1: "u \<notin> set (butlast (HEAD # xs))"
    using dist(2) unfolding u_def by (metis append_butlast_last_id distinct_append
        disjoint_iff list.distinct(1) list.set_intros(1))
  have zs: "set (butlast (v # zs)) = set ys" by (simp flip: v)
  have "links ?bs HEAD xs"
    using c(1) u1 dist(3) by (rule_tac links_cong) (auto simp: nx pv)
  moreover have "links ?bs v zs"
    using c(6) dist(1,4) zs by (rule_tac links_cong) (auto simp: nx pv)
  ultimately show ?thesis by (simp add: linked_def links_append v nx pv u_def)
qed

lemma link_first_chain:
  assumes "linked (bcache s) ns" and "distinct (b # ns)"
    and "set (b # ns) \<subseteq> {0..<NBUF}" and "length (bcache s) = NBUF + 1"
  shows "linked (bcache (link_first b s)) (b # ns)"
proof -
  obtain v zs where v: "ns @ [HEAD] = v # zs" by (cases ns) auto
  have c: "b_next (bcache s ! HEAD) = v" "b_prev (bcache s ! v) = HEAD" "links (bcache s) v zs"
    using assms(1) v by (simp_all add: linked_def)
  have dist: "distinct (v # zs)" "b \<noteq> HEAD" "v \<noteq> b" "b \<notin> set zs" "HEAD \<notin> set ns"
    using assms(2,3) v by (auto simp: HEAD_def NBUF_def append_eq_Cons_conv)
  have lt: "b < length (bcache s)" "v < length (bcache s)" "HEAD < length (bcache s)"
    using assms(3,4) v by (auto simp: HEAD_def NBUF_def append_eq_Cons_conv)
  let ?bs = "bcache (link_first b s)"
  have nx: "b_next (?bs ! j) = (if j = HEAD then b else if j = b then v else b_next (bcache s ! j))"
    and pv: "b_prev (?bs ! j) = (if j = v then b else if j = b then HEAD else b_prev (bcache s ! j))" for j
    using c(1) lt dist(2,3) by (auto simp: link_first_def Let_def nth_upd_buf)
  have zs: "set (butlast (v # zs)) = set ns" by (simp flip: v)
  have "links ?bs v zs"
    using c(3) dist zs assms(2) by (rule_tac links_cong) (auto simp: nx pv)
  then show ?thesis using dist by (simp add: linked_def v nx pv)
qed

text \<open>Traversals follow the links, so they search the list.\<close>

lemma bget_cached_find:
  assumes "links bs a (ys @ [HEAD])" and "HEAD \<notin> set ys" and "length ys < fuel"
  shows "bget_cached fuel (hd (ys @ [HEAD])) dev x bs =
    Some (find (\<lambda>i. b_dev (bs ! i) = dev \<and> b_blockno (bs ! i) = x) ys)"
  using assms
proof (induction ys arbitrary: a fuel)
  case Nil
  then show ?case by (cases fuel) simp_all
next
  case (Cons y ys)
  obtain f where f: "fuel = Suc f" using Cons.prems(3) by (cases fuel) auto
  have "b_next (bs ! y) = hd (ys @ [HEAD])" using Cons.prems(1) by (cases ys) auto
  then show ?case using Cons.IH [of y f] Cons.prems f by auto
qed

lemma bget_unused_find:
  assumes "links bs HEAD ys" and "HEAD \<notin> set ys" and "length ys < fuel"
  shows "bget_unused fuel (last (HEAD # ys)) bs = Some (find (\<lambda>i. b_refcnt (bs ! i) = 0) (rev ys))"
  using assms
proof (induction ys arbitrary: fuel rule: rev_induct)
  case Nil
  then show ?case by (cases fuel) simp_all
next
  case (snoc y ys)
  obtain f where f: "fuel = Suc f" using snoc.prems(3) by (cases fuel) auto
  have p: "b_prev (bs ! y) = last (HEAD # ys)" and c: "links bs HEAD ys"
    using snoc.prems(1) unfolding links_append links.simps by blast+
  have IH: "bget_unused f (last (HEAD # ys)) bs = Some (find (\<lambda>i. b_refcnt (bs ! i) = 0) (rev ys))"
    using snoc.IH [OF c] snoc.prems(2,3) f by simp
  show ?case using snoc.prems(2) IH p unfolding f by (cases "ys = []") simp_all
qed

lemma find_SomeD: "find P xs = Some x \<Longrightarrow> x \<in> set xs \<and> P x"
  by (auto simp: find_Some_iff)

lemma find_unique:
  assumes "i \<in> set xs" and "P i" and "\<And>j. j \<in> set xs \<Longrightarrow> P j \<Longrightarrow> j = i"
  shows "find P xs = Some i"
proof -
  have "find P xs \<noteq> None" using assms(1,2) by (auto simp: find_None_iff)
  then obtain j where j: "find P xs = Some j" by auto
  then have "j \<in> set xs" "P j" by (auto simp: find_Some_iff)
  with j assms(3) show ?thesis by simp
qed

section \<open>The cache as a map from block numbers\<close>

text \<open>
  What the cache promises is about blocks, not buffers: the contents a block has for the
  kernel, the number of references that keep it in the cache, and the process that holds it.
\<close>

record ablk =
  a_data :: "u8 list"
  a_refs :: nat
  a_owner :: "int option"

definition blk_of :: "buf \<Rightarrow> (u32 \<Rightarrow> u8 list) \<Rightarrow> ablk" where
  "blk_of b D = \<lparr>a_data = (if b_valid b then b_data b else D (b_blockno b)), a_refs = unat (b_refcnt b),
     a_owner = (if sl_locked (b_lock b) then Some (sl_pid (b_lock b)) else None)\<rparr>"

definition buf_of :: "u32 \<Rightarrow> 'z kbio_scheme \<Rightarrow> u32 \<Rightarrow> nat option" where
  "buf_of d s x = find (\<lambda>i. b_dev (bcache s ! i) = d \<and> b_blockno (bcache s ! i) = x) [0..<NBUF]"

definition blk :: "u32 \<Rightarrow> 'z kbio_scheme \<Rightarrow> u32 \<Rightarrow> ablk" where
  "blk d s x =
     (case buf_of d s x of
        None \<Rightarrow> \<lparr>a_data = disk s x, a_refs = 0, a_owner = None\<rparr>
      | Some i \<Rightarrow> blk_of (bcache s ! i) (disk s))"

definition buf_ok :: "u32 \<Rightarrow> (u32 \<Rightarrow> u8 list) \<Rightarrow> buf \<Rightarrow> bool" where
  "buf_ok d D b \<longleftrightarrow>
     (b_dev b = 0 \<or> b_dev b = d) \<and> (b_refcnt b \<noteq> 0 \<longrightarrow> b_dev b = d) \<and> (b_valid b \<longrightarrow> b_dev b = d) \<and>
     (sl_locked (b_lock b) \<longrightarrow> b_refcnt b \<noteq> 0) \<and>
     (b_refcnt b = 0 \<and> b_valid b \<longrightarrow> b_data b = D (b_blockno b)) \<and> length (b_data b) = BSIZE"

definition lru_ok :: "'z kbio_scheme \<Rightarrow> bool" where
  "lru_ok s \<longleftrightarrow> length (bcache s) = NBUF + 1 \<and>
     (\<exists>ns. distinct ns \<and> set ns = {0..<NBUF} \<and> linked (bcache s) ns)"

definition uniq :: "u32 \<Rightarrow> 'z kbio_scheme \<Rightarrow> bool" where
  "uniq d s \<longleftrightarrow> (\<forall>i < NBUF. \<forall>j < NBUF. b_dev (bcache s ! i) = d \<and> b_dev (bcache s ! j) = d \<and>
     b_blockno (bcache s ! i) = b_blockno (bcache s ! j) \<longrightarrow> i = j)"

text \<open>
  The invariant for a kernel whose only block device is \<open>d\<close>: the recency list is a cycle
  through all buffers, no block has two buffers, a buffer that is not referenced is not
  locked and has the contents of the disk.
\<close>

definition bc_inv :: "u32 \<Rightarrow> 'z kbio_scheme \<Rightarrow> bool" where
  "bc_inv d s \<longleftrightarrow> d \<noteq> 0 \<and> lru_ok s \<and> uniq d s \<and>
     (\<forall>i < NBUF. buf_ok d (disk s) (bcache s ! i)) \<and> (\<forall>x. length (disk s x) = BSIZE)"

definition holds :: "u32 \<Rightarrow> nat \<Rightarrow> u32 \<Rightarrow> 'z kbio_scheme \<Rightarrow> bool" where
  "holds d b x s \<longleftrightarrow> buf_of d s x = Some b \<and> b_valid (bcache s ! b)"

definition bio_frame :: "'z kbio_scheme \<Rightarrow> 'z kbio_scheme \<Rightarrow> bool" where
  "bio_frame s t \<longleftrightarrow> (\<exists>b p D w. t = s\<lparr>bcache := b, procs := p, disk := D, writes := w\<rparr>)"

definition mypid :: "'z kproc_scheme \<Rightarrow> int option" where
  "mypid s = map_option (\<lambda>p. p_pid (procs s ! p)) (myproc s)"

definition core :: "buf \<Rightarrow> buf" where
  "core b = b\<lparr>b_prev := 0, b_next := 0\<rparr>"

lemma core_eqD:
  assumes "core x = core y"
  shows "b_dev x = b_dev y" "b_blockno x = b_blockno y" "b_valid x = b_valid y" "b_refcnt x = b_refcnt y"
    "b_lock x = b_lock y" "b_data x = b_data y"
  using assms unfolding core_def by (cases x, cases y, simp)+

lemma buf_of_Some:
  assumes "uniq d s"
  shows "buf_of d s x = Some i \<longleftrightarrow> i < NBUF \<and> b_dev (bcache s ! i) = d \<and> b_blockno (bcache s ! i) = x"
proof
  assume "buf_of d s x = Some i"
  then show "i < NBUF \<and> b_dev (bcache s ! i) = d \<and> b_blockno (bcache s ! i) = x"
    by (auto simp: buf_of_def find_Some_iff)
next
  assume a: "i < NBUF \<and> b_dev (bcache s ! i) = d \<and> b_blockno (bcache s ! i) = x"
  then show "buf_of d s x = Some i"
    using assms unfolding buf_of_def uniq_def by (intro find_unique) auto
qed

lemma buf_of_None:
  "buf_of d s x = None \<longleftrightarrow> (\<forall>i < NBUF. \<not> (b_dev (bcache s ! i) = d \<and> b_blockno (bcache s ! i) = x))"
  by (auto simp: buf_of_def find_None_iff)

lemma uniq_cong:
  assumes "uniq d s" and "\<And>i. i < NBUF \<Longrightarrow> b_dev (bcache t ! i) = b_dev (bcache s ! i) \<and>
      b_blockno (bcache t ! i) = b_blockno (bcache s ! i)"
  shows "uniq d t" and "buf_of d t = buf_of d s"
proof -
  show "uniq d t" using assms unfolding uniq_def by metis
  show "buf_of d t = buf_of d s"
    unfolding buf_of_def fun_eq_iff
    by (intro allI find_cong) (use assms(2) in auto)
qed

lemma blk_of_core: "core b = core c \<Longrightarrow> blk_of b D = blk_of c D"
  using core_eqD [of b c] by (simp add: blk_of_def)

lemma buf_ok_core: "core b = core c \<Longrightarrow> buf_ok d D b = buf_ok d D c"
  using core_eqD [of b c] by (simp add: buf_ok_def)

text \<open>
  Whatever changes only the buffer of block \<open>x\<close>, keeps which block it is for, and changes
  the disk only at \<open>x\<close>, changes the map at \<open>x\<close> only.
\<close>

lemma one_block:
  assumes inv: "bc_inv d s" and b: "buf_of d s x = Some b" and lru: "lru_ok t"
    and others: "\<And>i. i < NBUF \<Longrightarrow> i \<noteq> b \<Longrightarrow> core (bcache t ! i) = core (bcache s ! i)"
    and key: "b_dev (bcache t ! b) = b_dev (bcache s ! b)" "b_blockno (bcache t ! b) = b_blockno (bcache s ! b)"
    and ok: "buf_ok d (disk t) (bcache t ! b)"
    and dsk: "\<And>y. y \<noteq> x \<Longrightarrow> disk t y = disk s y" "length (disk t x) = BSIZE"
  shows "bc_inv d t" and "blk d t = (blk d s)(x := blk_of (bcache t ! b) (disk t))"
    and "buf_of d t = buf_of d s"
proof -
  have u: "uniq d s" using inv by (simp add: bc_inv_def)
  have keys: "b_dev (bcache t ! i) = b_dev (bcache s ! i) \<and> b_blockno (bcache t ! i) = b_blockno (bcache s ! i)"
    if i: "i < NBUF" for i
  proof (cases "i = b")
    case False
    then show ?thesis using core_eqD(1,2) [OF others [OF i False]] by simp
  qed (simp add: key)
  note cong = uniq_cong [OF u keys]
  show "buf_of d t = buf_of d s" by (rule cong(2))
  have bx: "b < NBUF" "b_dev (bcache s ! b) = d" "b_blockno (bcache s ! b) = x"
    using b buf_of_Some [OF u] by auto
  have ne: "b_dev (bcache s ! i) = d \<Longrightarrow> b_blockno (bcache s ! i) \<noteq> x" if "i < NBUF" "i \<noteq> b" for i
    using u bx that unfolding uniq_def by metis
  have "buf_ok d (disk t) (bcache t ! i)" if i: "i < NBUF" for i
  proof (cases "i = b")
    case False
    have "buf_ok d (disk s) (bcache s ! i)" using inv i by (simp add: bc_inv_def)
    then have "buf_ok d (disk t) (bcache s ! i)"
      using ne [OF i False] dsk(1) by (auto simp: buf_ok_def)
    then show ?thesis using buf_ok_core [OF others [OF i False]] by simp
  qed (use ok in simp)
  moreover have "length (disk t y) = BSIZE" for y
    using inv dsk by (cases "y = x") (auto simp: bc_inv_def)
  ultimately show "bc_inv d t" using inv lru cong(1) by (simp add: bc_inv_def)
  show "blk d t = (blk d s)(x := blk_of (bcache t ! b) (disk t))"
  proof
    fix y
    show "blk d t y = ((blk d s)(x := blk_of (bcache t ! b) (disk t))) y"
    proof (cases "y = x")
      case True
      then show ?thesis using b by (simp add: blk_def cong(2))
    next
      case False
      show ?thesis
      proof (cases "buf_of d s y")
        case None
        then show ?thesis using False dsk(1) by (simp add: blk_def cong(2))
      next
        case (Some i)
        then have i: "i < NBUF" "b_blockno (bcache s ! i) = y" using buf_of_Some [OF u] by auto
        then have "i \<noteq> b" using bx False by auto
        then have "blk_of (bcache t ! i) (disk t) = blk_of (bcache s ! i) (disk t)"
          using others [OF i(1)] by (intro blk_of_core)
        then show ?thesis using Some False i(2) dsk(1) by (simp add: blk_def cong(2) blk_of_def)
      qed
    qed
  qed
qed

lemma bio_frame_refl [intro, simp]: "bio_frame s s"
proof -
  have "s = s\<lparr>bcache := bcache s, procs := procs s, disk := disk s, writes := writes s\<rparr>" by simp
  then show ?thesis unfolding bio_frame_def by blast
qed

lemma bio_frame_trans [trans]: "bio_frame s t \<Longrightarrow> bio_frame t u \<Longrightarrow> bio_frame s u"
  unfolding bio_frame_def by fastforce

lemma bio_frame_upd [simp]: "bio_frame s (upd_buf i f s)"
proof -
  have "upd_buf i f s = s\<lparr>bcache := bcache (upd_buf i f s), procs := procs s, disk := disk s, writes := writes s\<rparr>"
    by (simp add: upd_buf_def)
  then show ?thesis unfolding bio_frame_def by blast
qed

lemma upd_buf_frame [simp]:
  "disk (upd_buf i f s) = disk s" "writes (upd_buf i f s) = writes s" "procs (upd_buf i f s) = procs s"
  "cur (upd_buf i f s) = cur s"
  by (simp_all add: upd_buf_def)

lemma mypid_upd_buf [simp]: "mypid (upd_buf i f s) = mypid s"
  by (simp add: mypid_def myproc_def)

lemma lru_cong:
  assumes "lru_ok s" and "length (bcache t) = length (bcache s)"
    and "\<And>i. b_next (bcache t ! i) = b_next (bcache s ! i) \<and> b_prev (bcache t ! i) = b_prev (bcache s ! i)"
  shows "lru_ok t"
  using assms links_cong [of "bcache s" HEAD _ "bcache t"] unfolding lru_ok_def linked_def by metis

text \<open>The buffers seen as records: which fields an update may touch.\<close>

definition keeps_links :: "(buf \<Rightarrow> buf) \<Rightarrow> bool" where
  "keeps_links f \<longleftrightarrow> (\<forall>b. b_next (f b) = b_next b \<and> b_prev (f b) = b_prev b)"

definition keeps_key :: "(buf \<Rightarrow> buf) \<Rightarrow> bool" where
  "keeps_key f \<longleftrightarrow> keeps_links f \<and> (\<forall>b. b_dev (f b) = b_dev b \<and> b_blockno (f b) = b_blockno b)"

lemma keeps_key_simps [simp]:
  "keeps_key (\<lambda>y. y\<lparr>b_lock := l\<rparr>)" "keeps_key (\<lambda>y. y\<lparr>b_refcnt := r y\<rparr>)"
  "keeps_key (\<lambda>y. y\<lparr>b_data := a y\<rparr>)" "keeps_key (\<lambda>y. y\<lparr>b_valid := v\<rparr>)"
  by (simp_all add: keeps_key_def keeps_links_def)

lemma lru_upd_buf: "lru_ok s \<Longrightarrow> keeps_links f \<Longrightarrow> lru_ok (upd_buf i f s)"
  by (rule lru_cong [of s]) (auto simp: nth_upd_buf keeps_links_def)

lemma bc_invD:
  assumes "bc_inv d s"
  shows "lru_ok s" "uniq d s" "length (bcache s) = NBUF + 1" "\<And>x. length (disk s x) = BSIZE" "d \<noteq> 0"
    "\<And>i. i < NBUF \<Longrightarrow> buf_ok d (disk s) (bcache s ! i)"
  using assms by (simp_all add: bc_inv_def lru_ok_def)

lemma buf_ofD:
  assumes "bc_inv d s" and "buf_of d s x = Some b"
  shows "b < NBUF" "b < length (bcache s)" "b_dev (bcache s ! b) = d" "b_blockno (bcache s ! b) = x"
    "buf_ok d (disk s) (bcache s ! b)" "blk d s x = blk_of (bcache s ! b) (disk s)"
  using assms buf_of_Some [OF bc_invD(2) [OF assms(1)], of x b] bc_invD(3,6) [OF assms(1)]
  by (simp_all add: blk_def)

lemma upd_buf_law:
  assumes inv: "bc_inv d s" and b: "buf_of d s x = Some b" and f: "keeps_key f"
    and ok: "buf_ok d (disk s) (f (bcache s ! b))"
  shows "bc_inv d (upd_buf b f s)"
    and "blk d (upd_buf b f s) = (blk d s)(x := blk_of (f (bcache s ! b)) (disk s))"
    and "buf_of d (upd_buf b f s) = buf_of d s"
proof -
  let ?t = "upd_buf b f s"
  note B = buf_ofD [OF inv b]
  have t: "bcache ?t ! b = f (bcache s ! b)" using B(2) by (simp add: nth_upd_buf)
  have lru: "lru_ok ?t" using bc_invD(1) [OF inv] f by (intro lru_upd_buf) (auto simp: keeps_key_def)
  have others: "core (bcache ?t ! i) = core (bcache s ! i)" if "i \<noteq> b" for i
    using that by (simp add: nth_upd_buf)
  note one = one_block [OF inv b lru others, unfolded t]
  show "bc_inv d ?t" "blk d ?t = (blk d s)(x := blk_of (f (bcache s ! b)) (disk s))"
    "buf_of d ?t = buf_of d s"
    using one f ok bc_invD(4) [OF inv] by (simp_all add: keeps_key_def)
qed

lemma holds_stable:
  assumes "buf_of d t = buf_of d s" and "\<And>c. c \<noteq> b \<Longrightarrow> b_valid (bcache t ! c) = b_valid (bcache s ! c)"
    and "b_valid (bcache t ! b) \<or> \<not> b_valid (bcache s ! b)" and "holds d c y s"
  shows "holds d c y t"
  using assms by (cases "c = b") (auto simp: holds_def)

text \<open>Some buffer is free when fewer blocks are referenced than there are buffers.\<close>

definition spare_buf :: "u32 \<Rightarrow> 'z kbio_scheme \<Rightarrow> bool" where
  "spare_buf d s \<longleftrightarrow> card {y. a_refs (blk d s y) \<noteq> 0} < NBUF"

lemma finite_refs: "bc_inv d s \<Longrightarrow> finite {y. a_refs (blk d s y) \<noteq> 0}"
proof -
  assume inv: "bc_inv d s"
  have "{y. a_refs (blk d s y) \<noteq> 0} \<subseteq> (\<lambda>i. b_blockno (bcache s ! i)) ` {0..<NBUF}"
    using buf_of_Some [OF bc_invD(2) [OF inv]] by (fastforce simp: blk_def split: option.splits)
  then show ?thesis by (rule finite_subset) simp
qed

lemma spare_free:
  assumes inv: "bc_inv d s" and "spare_buf d s"
  shows "\<exists>i < NBUF. b_refcnt (bcache s ! i) = 0"
proof (rule ccontr)
  assume "\<not> ?thesis"
  then have r: "b_refcnt (bcache s ! i) \<noteq> 0" if "i < NBUF" for i using that by blast
  have dev: "b_dev (bcache s ! i) = d" if "i < NBUF" for i
    using bc_invD(6) [OF inv that] r [OF that] by (simp add: buf_ok_def)
  have "inj_on (\<lambda>i. b_blockno (bcache s ! i)) {0..<NBUF}"
    using bc_invD(2) [OF inv] dev unfolding uniq_def inj_on_def by auto
  then have card: "card ((\<lambda>i. b_blockno (bcache s ! i)) ` {0..<NBUF}) = NBUF" by (simp add: card_image)
  have sub: "(\<lambda>i. b_blockno (bcache s ! i)) ` {0..<NBUF} \<subseteq> {y. a_refs (blk d s y) \<noteq> 0}"
  proof (rule image_subsetI)
    fix i assume "i \<in> {0..<NBUF}"
    then have i: "i < NBUF" by simp
    then have "buf_of d s (b_blockno (bcache s ! i)) = Some i"
      using buf_of_Some [OF bc_invD(2) [OF inv]] dev by simp
    then show "b_blockno (bcache s ! i) \<in> {y. a_refs (blk d s y) \<noteq> 0}"
      using r [OF i] by (simp add: blk_def blk_of_def unat_gt_0)
  qed
  show False
    using assms(2) card card_mono [OF finite_refs [OF inv] sub] unfolding spare_buf_def by linarith
qed

lemma acquire_law:
  assumes inv: "bc_inv d s" and b: "buf_of d s x = Some b" and "a_owner (blk d s x) = None"
    and "a_refs (blk d s x) \<noteq> 0" and "mypid s = Some p"
  shows "\<exists>t. acquiresleep (ChBufLock b) (buf_lock b) (set_buf_lock b) s = Ok () t \<and> bc_inv d t \<and>
    blk d t = (blk d s)(x := (blk d s x)\<lparr>a_owner := Some p\<rparr>) \<and> buf_of d t = buf_of d s \<and>
    (\<exists>l. t = set_buf_lock b l s)"
proof -
  note B = buf_ofD [OF inv b]
  let ?l = "\<lparr>sl_locked = True, sl_pid = p\<rparr>"
  have nl: "\<not> sl_locked (buf_lock b s)" "b_refcnt (bcache s ! b) \<noteq> 0"
    using assms(3,4) B(6) by (auto simp: blk_of_def unat_eq_0 split: if_splits)
  have "acquiresleep (ChBufLock b) (buf_lock b) (set_buf_lock b) s = Ok () (set_buf_lock b ?l s)"
    using nl assms(5) by (auto simp: acquiresleep_def with_proc_def mypid_def split: option.splits)
  moreover have "buf_ok d (disk s) ((bcache s ! b)\<lparr>b_lock := ?l\<rparr>)"
    using B(5) nl(2) by (simp add: buf_ok_def)
  note L = upd_buf_law [OF inv b keeps_key_simps(1) this]
  moreover have "blk_of ((bcache s ! b)\<lparr>b_lock := ?l\<rparr>) (disk s) = (blk d s x)\<lparr>a_owner := Some p\<rparr>"
    using B(6) by (simp add: blk_of_def)
  ultimately show ?thesis using L by auto
qed

lemma find_slot:
  assumes inv: "bc_inv d s"
  shows "bget_cached (NBUF + 1) (b_next (bcache s ! HEAD)) d x (bcache s) = Some (buf_of d s x)"
    and "\<exists>r. bget_unused (NBUF + 1) (b_prev (bcache s ! HEAD)) (bcache s) = Some r \<and>
      (case r of None \<Rightarrow> \<forall>i < NBUF. b_refcnt (bcache s ! i) \<noteq> 0
       | Some b \<Rightarrow> b < NBUF \<and> b_refcnt (bcache s ! b) = 0)"
proof -
  obtain ns where ns: "distinct ns" "set ns = {0..<NBUF}" "links (bcache s) HEAD (ns @ [HEAD])"
    using bc_invD(1) [OF inv] by (auto simp: lru_ok_def linked_def)
  have len: "length ns < NBUF + 1" using ns(1,2) distinct_card [of ns] by simp
  have h: "HEAD \<notin> set ns" using ns(2) by (simp add: HEAD_def NBUF_def)
  let ?P = "\<lambda>i. b_dev (bcache s ! i) = d \<and> b_blockno (bcache s ! i) = x"
  have "find ?P ns = buf_of d s x"
  proof (cases "buf_of d s x")
    case None
    then have "find ?P ns = None" using ns(2) by (auto simp: buf_of_None find_None_iff)
    then show ?thesis using None by simp
  next
    case (Some i)
    then have "i < NBUF \<and> ?P i" using buf_of_Some [OF bc_invD(2) [OF inv]] by simp
    then have "find ?P ns = Some i"
      using ns(2) bc_invD(2) [OF inv] unfolding uniq_def by (intro find_unique) auto
    then show ?thesis using Some by simp
  qed
  moreover have "b_next (bcache s ! HEAD) = hd (ns @ [HEAD])"
    using ns(3) by (cases ns) auto
  ultimately show "bget_cached (NBUF + 1) (b_next (bcache s ! HEAD)) d x (bcache s) = Some (buf_of d s x)"
    using bget_cached_find [OF ns(3) h len] by simp
  have c: "links (bcache s) HEAD ns" and pv: "b_prev (bcache s ! HEAD) = last (HEAD # ns)"
    using ns(3) unfolding links_append links.simps by blast+
  let ?r = "find (\<lambda>i. b_refcnt (bcache s ! i) = 0) (rev ns)"
  have "case ?r of None \<Rightarrow> \<forall>i < NBUF. b_refcnt (bcache s ! i) \<noteq> 0
       | Some b \<Rightarrow> b < NBUF \<and> b_refcnt (bcache s ! b) = 0"
  proof (cases ?r)
    case None
    then have "\<forall>i < NBUF. b_refcnt (bcache s ! i) \<noteq> 0" using ns(2) by (simp add: find_None_iff)
    then show ?thesis using None by simp
  next
    case (Some b)
    note find_SomeD [OF Some]
    then show ?thesis using Some ns(2) by simp
  qed
  then show "\<exists>r. bget_unused (NBUF + 1) (b_prev (bcache s ! HEAD)) (bcache s) = Some r \<and>
      (case r of None \<Rightarrow> \<forall>i < NBUF. b_refcnt (bcache s ! i) \<noteq> 0
       | Some b \<Rightarrow> b < NBUF \<and> b_refcnt (bcache s ! b) = 0)"
    using bget_unused_find [OF c h len] pv by auto
qed

lemma recycle_law:
  assumes inv: "bc_inv d s" and x: "buf_of d s x = None" and b: "b < NBUF" "b_refcnt (bcache s ! b) = 0"
  defines "f \<equiv> (\<lambda>y. y\<lparr>b_dev := d, b_blockno := x, b_valid := False, b_refcnt := 1\<rparr>)"
  shows "bc_inv d (upd_buf b f s)"
    and "blk d (upd_buf b f s) = (blk d s)(x := \<lparr>a_data = disk s x, a_refs = 1, a_owner = None\<rparr>)"
    and "buf_of d (upd_buf b f s) x = Some b"
    and "y \<noteq> x \<Longrightarrow> a_refs (blk d s y) \<noteq> 0 \<Longrightarrow> holds d c y s \<Longrightarrow> holds d c y (upd_buf b f s)"
proof -
  let ?t = "upd_buf b f s"
  note u = bc_invD(2) [OF inv]
  have fb: "b_dev (f y) = d" "b_blockno (f y) = x" "\<not> b_valid (f y)" "b_refcnt (f y) = 1"
      "b_lock (f y) = b_lock y" "b_data (f y) = b_data y" for y
    by (simp_all add: f_def)
  have lt: "b < length (bcache s)" using b bc_invD(3) [OF inv] by simp
  have t: "bcache ?t ! i = (if i = b then f (bcache s ! b) else bcache s ! i)" for i
    using lt by (simp add: nth_upd_buf)
  have old: "buf_ok d (disk s) (bcache s ! b)" using bc_invD(6) [OF inv b(1)] .
  have nx: "\<not> (b_dev (bcache s ! i) = d \<and> b_blockno (bcache s ! i) = x)" if "i < NBUF" for i
    using x that by (simp add: buf_of_None)
  have ut: "uniq d ?t"
    unfolding uniq_def
  proof (intro allI impI)
    fix i j
    assume i: "i < NBUF" and j: "j < NBUF" and eq: "b_dev (bcache ?t ! i) = d \<and> b_dev (bcache ?t ! j) = d \<and>
      b_blockno (bcache ?t ! i) = b_blockno (bcache ?t ! j)"
    show "i = j"
    proof (cases "i = b"; cases "j = b")
      assume "i = b" "j \<noteq> b"
      then show ?thesis using eq nx [OF j] by (simp add: t fb)
    next
      assume "i \<noteq> b" "j = b"
      then show ?thesis using eq nx [OF i] by (simp add: t fb)
    next
      assume "i \<noteq> b" "j \<noteq> b"
      then show ?thesis using eq i j u by (simp add: t uniq_def)
    qed simp
  qed
  have "buf_ok d (disk ?t) (bcache ?t ! i)" if "i < NBUF" for i
    using bc_invD(6) [OF inv that] old b(2) bc_invD(5) [OF inv] by (auto simp: t fb buf_ok_def)
  moreover have "lru_ok ?t"
    using bc_invD(1) [OF inv] by (rule lru_upd_buf) (simp add: keeps_links_def f_def)
  ultimately show "bc_inv d ?t" using ut inv by (simp add: bc_inv_def)
  show bx: "buf_of d ?t x = Some b" unfolding buf_of_Some [OF ut] using b by (simp add: t fb)
  have other: "buf_of d ?t y = (if buf_of d s y = Some b then None else buf_of d s y)" if "y \<noteq> x" for y
  proof (cases "buf_of d s y")
    case None
    then have "buf_of d ?t y = None" using that by (auto simp: buf_of_None t fb)
    then show ?thesis using None by simp
  next
    case (Some i)
    then have i: "i < NBUF" "b_dev (bcache s ! i) = d" "b_blockno (bcache s ! i) = y"
      using buf_of_Some [OF u] by auto
    show ?thesis
    proof (cases "i = b")
      case True
      have "buf_of d ?t y = None"
        unfolding buf_of_None using u i True that by (auto simp: t fb uniq_def)
      then show ?thesis using Some True by simp
    next
      case False
      then have "buf_of d ?t y = Some i" unfolding buf_of_Some [OF ut] using i by (simp add: t)
      then show ?thesis using Some False by simp
    qed
  qed
  show "blk d ?t = (blk d s)(x := \<lparr>a_data = disk s x, a_refs = 1, a_owner = None\<rparr>)"
  proof
    fix y
    show "blk d ?t y = ((blk d s)(x := \<lparr>a_data = disk s x, a_refs = 1, a_owner = None\<rparr>)) y"
    proof (cases "y = x")
      case True
      have "\<not> sl_locked (buf_lock b s)" using old b(2) by (simp add: buf_ok_def)
      then show ?thesis using bx True by (simp add: blk_def t fb blk_of_def)
    next
      case False
      show ?thesis
      proof (cases "buf_of d s y = Some b")
        case True
        then have "b_blockno (bcache s ! b) = y" using buf_of_Some [OF u] by simp
        then show ?thesis
          using False True old b(2) by (auto simp: blk_def other blk_of_def buf_ok_def)
      next
        case ne: False
        then show ?thesis using False by (auto simp: blk_def other t split: option.splits)
      qed
    qed
  qed
  show "holds d c y ?t" if "y \<noteq> x" "a_refs (blk d s y) \<noteq> 0" "holds d c y s"
    using that other [OF that(1)] b(2) by (auto simp: holds_def t blk_def blk_of_def split: if_splits)
qed

text \<open>
  What \<^verbatim>\<open>bget\<close> promises: it finds or recycles a buffer, references it and locks it; to
  the map from blocks nothing else happens.
\<close>

lemma bget_law:
  assumes inv: "bc_inv d s" and me: "mypid s = Some p" and own: "a_owner (blk d s x) = None"
    and few: "a_refs (blk d s x) < 2 ^ 32 - 1" and room: "a_refs (blk d s x) \<noteq> 0 \<or> spare_buf d s"
  shows "\<exists>b t. bget d x s = Ok b t \<and> bc_inv d t \<and>
    blk d t = (blk d s)(x := (blk d s x)\<lparr>a_refs := Suc (a_refs (blk d s x)), a_owner := Some p\<rparr>) \<and>
    buf_of d t x = Some b \<and> disk t = disk s \<and> writes t = writes s \<and> procs t = procs s \<and> bio_frame s t \<and>
    (\<forall>y c. a_refs (blk d s y) \<noteq> 0 \<longrightarrow> holds d c y s \<longrightarrow> holds d c y t)"
proof (cases "buf_of d s x")
  case (Some b)
  note B = buf_ofD [OF inv Some]
  let ?f = "\<lambda>y. y\<lparr>b_refcnt := b_refcnt y + 1\<rparr>"
  let ?s = "upd_buf b ?f s"
  have r: "unat (b_refcnt (bcache s ! b)) < 2 ^ 32 - 1" using few B(6) by (simp add: blk_of_def)
  then have r1: "unat (b_refcnt (bcache s ! b) + 1) = Suc (unat (b_refcnt (bcache s ! b)))"
    by (simp add: unat_word_ariths)
  have "buf_ok d (disk s) (?f (bcache s ! b))"
    using B(3,5) r1 by (auto simp: buf_ok_def)
  note L = upd_buf_law [OF inv Some keeps_key_simps(2) [of "\<lambda>y. b_refcnt y + 1"] this]
  have bs: "blk d ?s = (blk d s)(x := (blk d s x)\<lparr>a_refs := Suc (a_refs (blk d s x))\<rparr>)"
    using L(2) B(6) r1 by (simp add: blk_of_def)
  obtain t l where t: "acquiresleep (ChBufLock b) (buf_lock b) (set_buf_lock b) ?s = Ok () t" "bc_inv d t"
      "blk d t = (blk d ?s)(x := (blk d ?s x)\<lparr>a_owner := Some p\<rparr>)" "buf_of d t = buf_of d ?s"
      "t = set_buf_lock b l ?s"
    using acquire_law [OF L(1), of x b p] L(3) bs own me Some by auto
  have "bget d x s = Ok b t"
    using find_slot(1) [OF inv, of x] Some t(1) by (simp add: bget_def)
  moreover have "holds d c y t" if "holds d c y s" for c y
    using t(5) L(3) t(4) that by (auto simp: holds_def nth_upd_buf)
  moreover have "bio_frame s t" using t(5) bio_frame_trans [OF bio_frame_upd bio_frame_upd] by blast
  ultimately show ?thesis
    using t bs L(3) Some by (intro exI [of _ b] exI [of _ t]) simp
next
  case None
  obtain b where b: "bget_unused (NBUF + 1) (b_prev (bcache s ! HEAD)) (bcache s) = Some (Some b)"
      "b < NBUF" "b_refcnt (bcache s ! b) = 0"
    using find_slot(2) [OF inv] spare_free [OF inv] room None
    by (auto simp: blk_def split: option.splits)
  note R = recycle_law [OF inv None b(2,3)]
  let ?s = "upd_buf b (\<lambda>y. y\<lparr>b_dev := d, b_blockno := x, b_valid := False, b_refcnt := 1\<rparr>) s"
  obtain t l where t: "acquiresleep (ChBufLock b) (buf_lock b) (set_buf_lock b) ?s = Ok () t" "bc_inv d t"
      "blk d t = (blk d ?s)(x := (blk d ?s x)\<lparr>a_owner := Some p\<rparr>)" "buf_of d t = buf_of d ?s"
      "t = set_buf_lock b l ?s"
    using acquire_law [OF R(1), of x b p] R(2,3) me by auto
  have "bget d x s = Ok b t"
    using find_slot(1) [OF inv, of x] None b(1) t(1) by (simp add: bget_def)
  moreover have "holds d c y t" if "a_refs (blk d s y) \<noteq> 0" "holds d c y s" for c y
  proof -
    have "y \<noteq> x" using that(1) None by (auto simp: blk_def)
    then show ?thesis using R(4) [OF _ that] t(4,5) by (auto simp: holds_def nth_upd_buf)
  qed
  moreover have "bio_frame s t" using t(5) bio_frame_trans [OF bio_frame_upd bio_frame_upd] by blast
  moreover have "blk d s x = \<lparr>a_data = disk s x, a_refs = 0, a_owner = None\<rparr>" using None by (simp add: blk_def)
  ultimately show ?thesis
    using t R(2,3) by (intro exI [of _ b] exI [of _ t]) simp
qed

section \<open>What the operations promise\<close>

text \<open>
  \<open>bstep d x v ws s t\<close>: from \<open>s\<close> to \<open>t\<close> the entry of block \<open>x\<close> becomes \<open>v\<close>, the blocks
  \<open>ws\<close> are written to the disk in that order, and a referenced block stays in its buffer.
\<close>

definition apply_writes :: "(u32 \<times> u8 list) list \<Rightarrow> (u32 \<Rightarrow> u8 list) \<Rightarrow> u32 \<Rightarrow> u8 list" where
  "apply_writes ws D = fold (\<lambda>(x, v) D. D(x := v)) ws D"

definition bstep ::
  "u32 \<Rightarrow> u32 \<Rightarrow> ablk \<Rightarrow> (u32 \<times> u8 list) list \<Rightarrow> 'z kbio_scheme \<Rightarrow> 'z kbio_scheme \<Rightarrow> bool" where
  "bstep d x v ws s t \<longleftrightarrow>
     bc_inv d t \<and> blk d t = (blk d s)(x := v) \<and> disk t = apply_writes ws (disk s) \<and>
     writes t = writes s @ ws \<and> mypid t = mypid s \<and> bio_frame s t \<and>
     (\<forall>y c. a_refs (blk d s y) \<noteq> 0 \<longrightarrow> holds d c y s \<longrightarrow> holds d c y t)"

lemma mypid_procs: "procs t = procs s \<Longrightarrow> cur t = cur s \<Longrightarrow> mypid t = mypid s"
  by (simp add: mypid_def myproc_def)

lemma bio_frame_cur: "bio_frame s t \<Longrightarrow> cur t = cur s"
  by (auto simp: bio_frame_def)

lemma upd_buf_step:
  assumes inv: "bc_inv d s" and b: "buf_of d s x = Some b" and f: "keeps_key f"
    and ok: "buf_ok d (disk s) (f (bcache s ! b))"
    and v: "b_valid (f (bcache s ! b)) \<or> \<not> b_valid (bcache s ! b)"
    and e: "blk_of (f (bcache s ! b)) (disk s) = e"
  shows "bstep d x e [] s (upd_buf b f s)"
  using upd_buf_law [OF inv b f ok] v e
  by (auto simp: bstep_def apply_writes_def holds_def nth_upd_buf)

lemma bstep_trans:
  assumes "bstep d x u ws s t" and "bstep d x v vs t r" and "a_refs u \<noteq> 0 \<or> a_refs (blk d s x) = 0"
  shows "bstep d x v (ws @ vs) s r"
proof -
  have "a_refs (blk d s y) \<noteq> 0 \<Longrightarrow> a_refs (blk d t y) \<noteq> 0" for y
    using assms(1,3) by (auto simp: bstep_def)
  then show ?thesis
    using assms(1,2) bio_frame_trans by (auto simp: bstep_def apply_writes_def)
qed

lemma holdsD: "holds d b x s \<Longrightarrow> buf_of d s x = Some b" "holds d b x s \<Longrightarrow> b_valid (bcache s ! b)"
  by (simp_all add: holds_def)

lemma bread_law:
  assumes inv: "bc_inv d s" and me: "mypid s = Some p" and own: "a_owner (blk d s x) = None"
    and few: "a_refs (blk d s x) < 2 ^ 32 - 1" and room: "a_refs (blk d s x) \<noteq> 0 \<or> spare_buf d s"
  shows "\<exists>b t. bread d x s = Ok b t \<and> holds d b x t \<and>
    bstep d x ((blk d s x)\<lparr>a_refs := Suc (a_refs (blk d s x)), a_owner := Some p\<rparr>) [] s t"
proof -
  let ?e = "(blk d s x)\<lparr>a_refs := Suc (a_refs (blk d s x)), a_owner := Some p\<rparr>"
  obtain b t where t: "bget d x s = Ok b t" "bc_inv d t" "blk d t = (blk d s)(x := ?e)"
      "buf_of d t x = Some b" "disk t = disk s" "writes t = writes s" "procs t = procs s" "bio_frame s t"
      "\<forall>y c. a_refs (blk d s y) \<noteq> 0 \<longrightarrow> holds d c y s \<longrightarrow> holds d c y t"
    using bget_law [OF assms] by blast
  note B = buf_ofD [OF t(2,4)]
  have e: "blk_of (bcache t ! b) (disk t) = ?e" using B(6) t(3) by simp
  let ?g = "\<lambda>y. (y\<lparr>b_data := disk t x\<rparr>)\<lparr>b_valid := True\<rparr>"
  have k: "keeps_key ?g" by (simp add: keeps_key_def keeps_links_def)
  define u where "u = (if b_valid (bcache t ! b) then t else upd_buf b ?g t)"
  have "bread d x s = Ok b u"
    using t(1) B(2,4) by (simp add: bread_def u_def disk_rw_def Let_def upd_buf_def)
  moreover have u: "bstep d x ?e [] t u" "holds d b x u"
  proof -
    show "bstep d x ?e [] t u"
    proof (cases "b_valid (bcache t ! b)")
      case True
      then show ?thesis using t(2,3) by (simp add: u_def bstep_def apply_writes_def)
    next
      case False
      have "buf_ok d (disk t) (?g (bcache t ! b))"
        using B(3-5) bc_invD(4) [OF t(2)] by (simp add: buf_ok_def)
      moreover have "blk_of (?g (bcache t ! b)) (disk t) = ?e"
        unfolding e [symmetric] using False B(4) by (simp add: blk_of_def)
      ultimately show ?thesis
        using upd_buf_step [OF t(2,4) k] False by (simp add: u_def)
    qed
    then have "buf_of d u x = Some b"
      using t(4) upd_buf_law(3) [OF t(2,4) k] B(3-5) bc_invD(4) [OF t(2)]
      by (auto simp: u_def buf_ok_def)
    then show "holds d b x u" using B(2) by (simp add: holds_def u_def nth_upd_buf)
  qed
  moreover have "bstep d x ?e [] s u"
    using u(1) t bio_frame_trans [OF t(8)] mypid_procs [OF t(7) bio_frame_cur [OF t(8)]]
    by (auto simp: bstep_def)
  ultimately show ?thesis by blast
qed

lemma set_data_law:
  assumes "bc_inv d s" and h: "holds d b x s" and "a_refs (blk d s x) \<noteq> 0" and "length v = BSIZE"
  shows "bstep d x ((blk d s x)\<lparr>a_data := v\<rparr>) [] s (upd_buf b (\<lambda>y. y\<lparr>b_data := v\<rparr>) s)"
proof -
  note B = buf_ofD [OF assms(1) holdsD(1) [OF h]]
  show ?thesis
    using assms B(3,5,6) holdsD(2) [OF h]
    by (intro upd_buf_step [OF assms(1) holdsD(1) [OF h]]) (auto simp: buf_ok_def blk_of_def)
qed

lemma bwrite_law:
  assumes inv: "bc_inv d s" and h: "holds d b x s" and own: "a_owner (blk d s x) = mypid s"
    and me: "mypid s = Some p"
  shows "\<exists>t. bwrite b s = Ok () t \<and> bstep d x (blk d s x) [(x, a_data (blk d s x))] s t"
proof -
  note B = buf_ofD [OF inv holdsD(1) [OF h]]
  note v = holdsD(2) [OF h]
  let ?t = "disk_rw b True s"
  have hold: "holdingsleep (buf_lock b) s = Ok True s"
    using B(6) own me
    by (auto simp: holdingsleep_def with_proc_def mypid_def blk_of_def split: if_splits option.splits)
  have t: "bcache ?t = bcache s" "disk ?t = (disk s)(x := b_data (bcache s ! b))"
      "writes ?t = writes s @ [(x, b_data (bcache s ! b))]" "procs ?t = procs s" "cur ?t = cur s"
    using B(4) by (simp_all add: disk_rw_def Let_def)
  have lru: "lru_ok ?t" using bc_invD(1) [OF inv] by (simp add: lru_ok_def t)
  have "buf_ok d (disk ?t) (bcache ?t ! b)" using B(4,5) by (auto simp: t buf_ok_def)
  note one = one_block [OF inv holdsD(1) [OF h] lru _ _ _ this]
  have len: "length (b_data (bcache s ! b)) = BSIZE" using B(5) by (simp add: buf_ok_def)
  have "bc_inv d ?t" "blk d ?t = (blk d s)(x := blk_of (bcache s ! b) (disk ?t))" "buf_of d ?t = buf_of d s"
    using one len by (simp_all add: t)
  moreover have "blk_of (bcache s ! b) (disk ?t) = blk d s x" using B(6) v by (simp add: blk_of_def)
  moreover have "a_data (blk d s x) = b_data (bcache s ! b)" using B(6) v by (simp add: blk_of_def)
  moreover have "?t = s\<lparr>bcache := bcache s, procs := procs s, disk := disk ?t, writes := writes ?t\<rparr>"
    by (simp add: disk_rw_def Let_def)
  then have "bio_frame s ?t" unfolding bio_frame_def by blast
  ultimately have "bstep d x (blk d s x) [(x, a_data (blk d s x))] s ?t"
    using t mypid_procs [OF t(4,5)] by (auto simp: bstep_def apply_writes_def holds_def)
  then show ?thesis using hold by (simp add: bwrite_def)
qed

lemma bunpin_law:
  assumes "bc_inv d s" and h: "holds d b x s" and "a_refs (blk d s x) \<noteq> 0"
    and "a_refs (blk d s x) = 1 \<longrightarrow> a_owner (blk d s x) = None \<and> a_data (blk d s x) = disk s x"
  shows "bstep d x ((blk d s x)\<lparr>a_refs := a_refs (blk d s x) - 1\<rparr>) [] s (bunpin b s)"
proof -
  note B = buf_ofD [OF assms(1) holdsD(1) [OF h]]
  let ?r = "b_refcnt (bcache s ! b)"
  have r: "?r \<noteq> 0" using assms(3) B(6) by (auto simp: blk_of_def)
  have m: "unat (?r - 1) = unat ?r - 1" using r by (rule unat_minus_one)
  have z: "?r - 1 = 0 \<longleftrightarrow> unat ?r = 1" by (simp add: word_unat_eq_iff [of ?r 1])
  let ?f = "\<lambda>y. y\<lparr>b_refcnt := b_refcnt y - 1\<rparr>"
  note v = holdsD(2) [OF h]
  have one: "\<not> sl_locked (buf_lock b s)" "b_data (bcache s ! b) = disk s x" if "?r - 1 = 0"
    using that assms(4) B(6) v z by (simp_all add: blk_of_def split: if_splits)
  have ok: "buf_ok d (disk s) (?f (bcache s ! b))"
    using B(3,4,5) one r v by (auto simp: buf_ok_def)
  have e: "blk_of (?f (bcache s ! b)) (disk s) = (blk d s x)\<lparr>a_refs := a_refs (blk d s x) - 1\<rparr>"
    using B(6) m by (simp add: blk_of_def)
  show ?thesis
    unfolding bunpin_def
    using ok e v by (intro upd_buf_step [OF assms(1) holdsD(1) [OF h]]) simp_all
qed

lemma bpin_law:
  assumes "bc_inv d s" and h: "holds d b x s" and "a_refs (blk d s x) < 2 ^ 32 - 1"
  shows "bstep d x ((blk d s x)\<lparr>a_refs := Suc (a_refs (blk d s x))\<rparr>) [] s (bpin b s)"
proof -
  note B = buf_ofD [OF assms(1) holdsD(1) [OF h]]
  let ?r = "b_refcnt (bcache s ! b)"
  have m: "unat (?r + 1) = Suc (unat ?r)"
    using assms(3) B(6) by (simp add: blk_of_def unat_word_ariths)
  then have "?r + 1 \<noteq> 0" by (metis Zero_not_Suc unat_0)
  then show ?thesis
    unfolding bpin_def
    using B(3-6) holdsD(2) [OF h] m
    by (intro upd_buf_step [OF assms(1) holdsD(1) [OF h]]) (auto simp: buf_ok_def blk_of_def)
qed

lemma wakeup_loop_cur:
  "cur s = Some q \<Longrightarrow> procs (wakeup_loop is c s) ! q = procs s ! q"
proof (induction "is" arbitrary: s)
  case (Cons i "is")
  then show ?case
    using Cons.IH [of "upd_proc i (\<lambda>q. q\<lparr>p_state := RUNNABLE\<rparr>) s"]
    by (auto simp: upd_proc_def myproc_def)
qed simp

lemma wakeup_mypid: "mypid (wakeup c s) = mypid s"
proof (cases "cur s")
  case (Some q)
  then have "procs (wakeup c s) ! q = procs s ! q" unfolding wakeup_def by (rule wakeup_loop_cur)
  then show ?thesis using Some by (simp add: mypid_def myproc_def wakeup_eq [of c s])
qed (simp add: mypid_def myproc_def wakeup_eq [of c s])

lemma wakeup_step:
  assumes inv: "bc_inv d s"
  shows "bstep d x (blk d s x) [] s (wakeup c s)"
proof -
  have w: "wakeup c s = s\<lparr>procs := woken c s\<rparr>" by (rule wakeup_eq)
  have f: "bcache (wakeup c s) = bcache s" "disk (wakeup c s) = disk s" "writes (wakeup c s) = writes s"
    by (simp_all add: w)
  have "buf_of d (wakeup c s) = buf_of d s" by (simp add: f buf_of_def fun_eq_iff)
  moreover from this have "blk d (wakeup c s) = blk d s"
    by (intro ext) (simp add: blk_def f split: option.split)
  moreover have "wakeup c s = s\<lparr>bcache := bcache s, procs := woken c s, disk := disk s, writes := writes s\<rparr>"
    by (simp add: w)
  then have "bio_frame s (wakeup c s)" unfolding bio_frame_def by blast
  ultimately show ?thesis
    using inv by (simp add: bstep_def apply_writes_def holds_def bc_inv_def lru_ok_def uniq_def f wakeup_mypid)
qed

lemma core_links:
  "core (bcache (upd_buf i (\<lambda>y. y\<lparr>b_prev := p\<rparr>) s) ! j) = core (bcache s ! j)"
  "core (bcache (upd_buf i (\<lambda>y. y\<lparr>b_next := p\<rparr>) s) ! j) = core (bcache s ! j)"
  by (simp_all add: nth_upd_buf core_def)

lemma move_step:
  assumes inv: "bc_inv d s" and b: "buf_of d s x = Some b"
  shows "bstep d x (blk d s x) [] s (link_first b (unlink b s))"
    and "holds d c y s \<Longrightarrow> holds d c y (link_first b (unlink b s))"
proof -
  note B = buf_ofD [OF inv b]
  let ?t = "link_first b (unlink b s)"
  obtain ns where ns: "distinct ns" "set ns = {0..<NBUF}" "linked (bcache s) ns"
    using bc_invD(1) [OF inv] by (auto simp: lru_ok_def)
  have "b \<in> set ns" using B(1) ns(2) by simp
  then obtain xs ys where xy: "ns = xs @ b # ys" by (meson split_list)
  have len: "length (bcache s) = NBUF + 1" using bc_invD(3) [OF inv] .
  have len1: "length (bcache (unlink b s)) = NBUF + 1" and len2: "length (bcache ?t) = NBUF + 1"
    using len by (simp_all add: unlink_def link_first_def Let_def)
  have "linked (bcache (unlink b s)) (xs @ ys)"
    using ns xy len by (intro unlink_chain) auto
  then have "linked (bcache ?t) (b # xs @ ys)"
    using ns xy len1 by (intro link_first_chain) auto
  moreover have "distinct (b # xs @ ys)" "set (b # xs @ ys) = {0..<NBUF}" using ns xy by auto
  ultimately have lru: "lru_ok ?t" unfolding lru_ok_def using len2 by blast
  have core: "core (bcache ?t ! i) = core (bcache s ! i)" for i
    by (simp add: link_first_def unlink_def Let_def core_links)
  note k = core_eqD [OF core]
  have f: "disk ?t = disk s" "writes ?t = writes s" "procs ?t = procs s" "cur ?t = cur s"
    by (simp_all add: link_first_def unlink_def Let_def)
  have "buf_ok d (disk ?t) (bcache ?t ! b)" using B(5) buf_ok_core [OF core [of b]] f(1) by simp
  note one = one_block [OF inv b lru core k(1) k(2) this]
  have "bc_inv d ?t" "blk d ?t = (blk d s)(x := blk_of (bcache ?t ! b) (disk ?t))" "buf_of d ?t = buf_of d s"
    using one f bc_invD(4) [OF inv] by simp_all
  moreover have "blk_of (bcache ?t ! b) (disk ?t) = blk d s x"
    using B(6) blk_of_core [OF core [of b]] f(1) by simp
  moreover have "?t = s\<lparr>bcache := bcache ?t, procs := procs s, disk := disk s, writes := writes s\<rparr>"
    by (simp add: link_first_def unlink_def Let_def upd_buf_def)
  then have "bio_frame s ?t" unfolding bio_frame_def by blast
  ultimately show "bstep d x (blk d s x) [] s ?t" "holds d c y s \<Longrightarrow> holds d c y ?t"
    using f k(3) mypid_procs [OF f(3,4)] by (simp_all add: bstep_def apply_writes_def holds_def)
qed

lemma bstepD:
  assumes "bstep d x v ws s t"
  shows "bc_inv d t" "blk d t = (blk d s)(x := v)" "disk t = apply_writes ws (disk s)"
    "writes t = writes s @ ws" "mypid t = mypid s" "bio_frame s t"
    "\<And>y c. a_refs (blk d s y) \<noteq> 0 \<Longrightarrow> holds d c y s \<Longrightarrow> holds d c y t"
  using assms by (simp_all add: bstep_def)

lemma brelse_law:
  assumes inv: "bc_inv d s" and h: "holds d b x s" and own: "a_owner (blk d s x) = mypid s"
    and me: "mypid s = Some p" and r: "a_refs (blk d s x) \<noteq> 0"
    and clean: "a_refs (blk d s x) = 1 \<longrightarrow> a_data (blk d s x) = disk s x"
  shows "\<exists>t. brelse b s = Ok () t \<and>
    bstep d x ((blk d s x)\<lparr>a_refs := a_refs (blk d s x) - 1, a_owner := None\<rparr>) [] s t"
proof -
  note B = buf_ofD [OF inv holdsD(1) [OF h]]
  have hold: "holdingsleep (buf_lock b) s = Ok True s"
    using B(6) own me
    by (auto simp: holdingsleep_def with_proc_def mypid_def blk_of_def split: if_splits option.splits)
  let ?l = "\<lparr>sl_locked = False, sl_pid = 0\<rparr>" and ?e = "blk d s x"
  let ?s1 = "set_buf_lock b ?l s"
  let ?s2 = "wakeup (ChBufLock b) ?s1"
  let ?s3 = "bunpin b ?s2"
  have 1: "bstep d x (?e\<lparr>a_owner := None\<rparr>) [] s ?s1"
    using B(5,6) by (intro upd_buf_step [OF inv holdsD(1) [OF h]]) (auto simp: buf_ok_def blk_of_def)
  note D1 = bstepD [OF 1]
  note 2 = bstep_trans [OF 1 wakeup_step [OF D1(1), of x "ChBufLock b"], simplified]
  have 2: "bstep d x (?e\<lparr>a_owner := None\<rparr>) [] s ?s2" using 2 D1(2) r by simp
  note D2 = bstepD [OF 2]
  have h2: "holds d b x ?s2" using D2(7) r h by simp
  have "bstep d x ((blk d ?s2 x)\<lparr>a_refs := a_refs (blk d ?s2 x) - 1\<rparr>) [] ?s2 ?s3"
    using D2 h2 r clean by (intro bunpin_law) (auto simp: apply_writes_def)
  note 3 = bstep_trans [OF 2 this, simplified]
  have 3: "bstep d x (?e\<lparr>a_refs := a_refs ?e - 1, a_owner := None\<rparr>) [] s ?s3"
  proof -
    have eq: "?e\<lparr>a_owner := None, a_refs := a_refs ?e - 1\<rparr> = ?e\<lparr>a_refs := a_refs ?e - 1, a_owner := None\<rparr>"
      by (rule ablk.equality) simp_all
    have "bstep d x (?e\<lparr>a_owner := None, a_refs := a_refs ?e - 1\<rparr>) [] s ?s3" using 3 D2(2) r by simp
    then show ?thesis unfolding eq .
  qed
  note D3 = bstepD [OF 3]
  have h3: "holds d b x ?s3" using D3(7) r h by simp
  define t where "t = (if b_refcnt (bcache ?s3 ! b) = 0 then link_first b (unlink b ?s3) else ?s3)"
  have "brelse b s = Ok () t"
    using hold by (simp add: brelse_def releasesleep_def Let_def bunpin_def t_def)
  moreover have "bstep d x (?e\<lparr>a_refs := a_refs ?e - 1, a_owner := None\<rparr>) [] s t"
  proof (cases "b_refcnt (bcache ?s3 ! b) = 0")
    case True
    note M = move_step [OF D3(1) holdsD(1) [OF h3]]
    have "holds d c y t" if "a_refs (blk d s y) \<noteq> 0" "holds d c y s" for c y
      using M(2) [OF D3(7) [OF that]] True by (simp add: t_def)
    moreover have t: "t = link_first b (unlink b ?s3)" using True by (simp add: t_def)
    note MD = bstepD [OF M(1), folded t, simplified]
    have "bio_frame s t" using D3(6) MD(6) by (rule bio_frame_trans)
    moreover have "blk d t = (blk d s)(x := ?e\<lparr>a_refs := a_refs ?e - 1, a_owner := None\<rparr>)"
      unfolding MD(2) by (rule D3(2))
    moreover have "disk t = apply_writes [] (disk s)" "writes t = writes s @ []" "mypid t = mypid s"
      using MD(3-5) D3(3-5) by (simp_all add: apply_writes_def)
    ultimately show ?thesis using MD(1) unfolding bstep_def by blast
  next
    case False
    then show ?thesis using 3 by (simp add: t_def)
  qed
  ultimately show ?thesis by blast
qed

end
