(* ===== verification/Log.thy ===== *)
theory Log
  imports Bio
begin

text \<open>
  The redo log, \<^verbatim>\<open>kernel/log.c\<close>: transactions, commit and recovery. The header
  block holds the count and the home block numbers; log block \<open>i\<close> is at
  \<^verbatim>\<open>log.start + 1 + i\<close>. Block numbers and \<^verbatim>\<open>log.start\<close> are 32-bit
  words, the counters are integers.
\<close>

section \<open>State\<close>

definition MAXOPBLOCKS :: int where "MAXOPBLOCKS = 10"
definition LOGSIZE :: nat where "LOGSIZE = 30"
definition FSMAGIC :: u32 where "FSMAGIC = 0x10203040"

record superblock =
  sb_magic :: u32
  sb_size :: u32
  sb_nblocks :: u32
  sb_ninodes :: u32
  sb_nlog :: u32
  sb_logstart :: u32
  sb_inodestart :: u32
  sb_bmapstart :: u32

record log =
  lg_start :: u32
  lg_size :: int
  lg_outstanding :: int
  lg_committing :: bool
  lg_dev :: u32
  lh_n :: int
  lh_block :: "u32 list"

record klog = kbio +
  log :: log

definition log0 :: log where
  "log0 = \<lparr>lg_start = 0, lg_size = 0, lg_outstanding = 0, lg_committing = False, lg_dev = 0,
     lh_n = 0, lh_block = replicate LOGSIZE 0\<rparr>"

definition klog0 :: klog where
  "klog0 = kbio.extend kbio0 (klog.fields log0)"

definition upd_log :: "(log \<Rightarrow> log) \<Rightarrow> 'z klog_scheme \<Rightarrow> 'z klog_scheme" where
  "upd_log f s = s\<lparr>log := f (log s)\<rparr>"

definition log_block :: "nat \<Rightarrow> 'z klog_scheme \<Rightarrow> u32" where
  "log_block tail s = lg_start (log s) + of_nat tail + 1"

abbreviation set_data :: "nat \<Rightarrow> u8 list \<Rightarrow> 'z kbio_scheme \<Rightarrow> 'z kbio_scheme" where
  "set_data b d s \<equiv> upd_buf b (\<lambda>x. x\<lparr>b_data := d\<rparr>) s"

section \<open>Header and installation\<close>

fun install_loop ::
  "nat list \<Rightarrow> bool \<Rightarrow> 'z klog_scheme \<Rightarrow> (unit, 'z klog_scheme) outcome" where
  "install_loop [] recovering s = Ok () s"
| "install_loop (tail # ts) recovering s =
     obind (bread (lg_dev (log s)) (log_block tail s) s) (\<lambda>lbuf s.
     obind (bread (lg_dev (log s)) (lh_block (log s) ! tail) s) (\<lambda>dbuf s.
     let s = set_data dbuf (b_data (bcache s ! lbuf)) s in
     obind (bwrite dbuf s) (\<lambda>_ s.
     let s = (if \<not> recovering then bunpin dbuf s else s) in
     obind (brelse lbuf s) (\<lambda>_ s.
     obind (brelse dbuf s) (\<lambda>_ s.
     install_loop ts recovering s)))))"

definition install_trans :: "bool \<Rightarrow> 'z klog_scheme \<Rightarrow> (unit, 'z klog_scheme) outcome" where
  "install_trans recovering s = install_loop [0..<nat (lh_n (log s))] recovering s"

text \<open>
  \<^verbatim>\<open>read_head\<close> trusts the count on disk: a count above \<open>LOGSIZE\<close> makes it write
  past the array in the in-memory header.
\<close>

definition read_head :: "'z klog_scheme \<Rightarrow> (unit, 'z klog_scheme) outcome" where
  "read_head s =
     obind (bread (lg_dev (log s)) (lg_start (log s)) s) (\<lambda>b s.
     let lh = b_data (bcache s ! b);
         n = sint (get32 lh 0);
         s = upd_log (\<lambda>l. l\<lparr>lh_n := n\<rparr>) s
     in if n > int LOGSIZE then Undef
        else
          let s = upd_log (\<lambda>l. l\<lparr>lh_block :=
                    map (\<lambda>i. get32 lh (4 + 4 * i)) [0..<nat n] @ drop (nat n) (lh_block l)\<rparr>) s
          in brelse b s)"

fun put_blocks :: "u8 list \<Rightarrow> nat \<Rightarrow> u32 list \<Rightarrow> u8 list" where
  "put_blocks hb i [] = hb"
| "put_blocks hb i (x # xs) = put_blocks (put32 hb (4 + 4 * i) x) (Suc i) xs"

definition write_head :: "'z klog_scheme \<Rightarrow> (unit, 'z klog_scheme) outcome" where
  "write_head s =
     obind (bread (lg_dev (log s)) (lg_start (log s)) s) (\<lambda>b s.
     let hb = put32 (b_data (bcache s ! b)) 0 (of_int (lh_n (log s)));
         hb = put_blocks hb 0 (take (nat (lh_n (log s))) (lh_block (log s)));
         s = set_data b hb s
     in obind (bwrite b s) (\<lambda>_ s. brelse b s))"

definition recover_from_log :: "'z klog_scheme \<Rightarrow> (unit, 'z klog_scheme) outcome" where
  "recover_from_log s =
     obind (read_head s) (\<lambda>_ s.
     obind (install_trans True s) (\<lambda>_ s.
     write_head (upd_log (\<lambda>l. l\<lparr>lh_n := 0\<rparr>) s)))"

definition initlog :: "u32 \<Rightarrow> superblock \<Rightarrow> 'z klog_scheme \<Rightarrow> (unit, 'z klog_scheme) outcome" where
  "initlog dev sb s =
     (if 4 + 4 * LOGSIZE \<ge> BSIZE then Panic ''initlog: too big logheader''
      else recover_from_log (upd_log (\<lambda>l. l\<lparr>lg_start := sb_logstart sb,
             lg_size := sint (sb_nlog sb), lg_dev := dev\<rparr>) s))"

section \<open>Transactions\<close>

definition begin_op :: "'z klog_scheme \<Rightarrow> (unit, 'z klog_scheme) outcome" where
  "begin_op s =
     (if lg_committing (log s) then sleep ChLog s
      else if lh_n (log s) + (lg_outstanding (log s) + 1) * MAXOPBLOCKS > int LOGSIZE
      then sleep ChLog s
      else Ok () (upd_log (\<lambda>l. l\<lparr>lg_outstanding := lg_outstanding l + 1\<rparr>) s))"

fun write_log_loop :: "nat list \<Rightarrow> 'z klog_scheme \<Rightarrow> (unit, 'z klog_scheme) outcome" where
  "write_log_loop [] s = Ok () s"
| "write_log_loop (tail # ts) s =
     obind (bread (lg_dev (log s)) (log_block tail s) s) (\<lambda>to s.
     obind (bread (lg_dev (log s)) (lh_block (log s) ! tail) s) (\<lambda>from s.
     let s = set_data to (b_data (bcache s ! from)) s in
     obind (bwrite to s) (\<lambda>_ s.
     obind (brelse from s) (\<lambda>_ s.
     obind (brelse to s) (\<lambda>_ s.
     write_log_loop ts s)))))"

definition write_log :: "'z klog_scheme \<Rightarrow> (unit, 'z klog_scheme) outcome" where
  "write_log s = write_log_loop [0..<nat (lh_n (log s))] s"

definition commit :: "'z klog_scheme \<Rightarrow> (unit, 'z klog_scheme) outcome" where
  "commit s =
     (if lh_n (log s) > 0
      then obind (write_log s) (\<lambda>_ s.
           obind (write_head s) (\<lambda>_ s.
           obind (install_trans False s) (\<lambda>_ s.
           write_head (upd_log (\<lambda>l. l\<lparr>lh_n := 0\<rparr>) s))))
      else Ok () s)"

definition end_op :: "'z klog_scheme \<Rightarrow> (unit, 'z klog_scheme) outcome" where
  "end_op s =
     (let s = upd_log (\<lambda>l. l\<lparr>lg_outstanding := lg_outstanding l - 1\<rparr>) s
      in if lg_committing (log s) then Panic ''log.committing''
         else if lg_outstanding (log s) = 0
         then obind (commit (upd_log (\<lambda>l. l\<lparr>lg_committing := True\<rparr>) s)) (\<lambda>_ s.
              Ok () (wakeup ChLog (upd_log (\<lambda>l. l\<lparr>lg_committing := False\<rparr>) s)))
         else Ok () (wakeup ChLog s))"

fun find_block :: "u32 \<Rightarrow> u32 list \<Rightarrow> nat" where
  "find_block x [] = 0"
| "find_block x (y # ys) = (if y = x then 0 else Suc (find_block x ys))"

definition log_write :: "nat \<Rightarrow> 'z klog_scheme \<Rightarrow> (unit, 'z klog_scheme) outcome" where
  "log_write b s =
     (if lh_n (log s) \<ge> int LOGSIZE \<or> lh_n (log s) \<ge> lg_size (log s) - 1
      then Panic ''too big a transaction''
      else if lg_outstanding (log s) < 1 then Panic ''log_write outside of trans''
      else
        let n = nat (lh_n (log s));
            blockno = b_blockno (bcache s ! b);
            i = find_block blockno (take n (lh_block (log s)));
            s = upd_log (\<lambda>l. l\<lparr>lh_block := (lh_block l)[i := blockno]\<rparr>) s
        in if i = n then Ok () (upd_log (\<lambda>l. l\<lparr>lh_n := lh_n l + 1\<rparr>) (bpin b s))
           else Ok () s)"

end
