(* ===== verification/Cache.thy ===== *)
theory Cache
  imports Bio
begin

text \<open>
  The contract of the buffer cache as the log and the file system use it: the locale
  \<open>block_cache\<close>, the two block copies of the log proved once over it, its interpretation on
  the routines of \<^verbatim>\<open>kernel/bio.c\<close>, and the invariant at boot.
\<close>

section \<open>The interface of the cache\<close>

text \<open>
  What the layers above rely on. \<open>ent\<close> is the map from blocks, \<open>step\<close> relates two states
  that differ in one entry and in the writes that reached the disk, \<open>hold b x\<close> says that
  handle \<open>b\<close> is the buffer of block \<open>x\<close>, and \<open>cap\<close> is the number of blocks that can be
  referenced at once.
\<close>

locale block_cache =
  fixes inv :: "'s \<Rightarrow> bool" and ent :: "'s \<Rightarrow> u32 \<Rightarrow> ablk" and dsk :: "'s \<Rightarrow> u32 \<Rightarrow> u8 list"
    and trace :: "'s \<Rightarrow> (u32 \<times> u8 list) list" and self :: "'s \<Rightarrow> int option"
    and rest :: "'s \<Rightarrow> 's \<Rightarrow> bool" and hold :: "nat \<Rightarrow> u32 \<Rightarrow> 's \<Rightarrow> bool" and cont :: "nat \<Rightarrow> 's \<Rightarrow> u8 list"
    and step :: "u32 \<Rightarrow> ablk \<Rightarrow> (u32 \<times> u8 list) list \<Rightarrow> 's \<Rightarrow> 's \<Rightarrow> bool" and cap :: nat
    and rd :: "u32 \<Rightarrow> 's \<Rightarrow> (nat, 's) outcome" and wr rel :: "nat \<Rightarrow> 's \<Rightarrow> (unit, 's) outcome"
    and setd :: "nat \<Rightarrow> u8 list \<Rightarrow> 's \<Rightarrow> 's" and unpin :: "nat \<Rightarrow> 's \<Rightarrow> 's"
  assumes step_D: "step x v ws s t \<Longrightarrow> inv t \<and> ent t = (ent s)(x := v) \<and> dsk t = apply_writes ws (dsk s) \<and>
      trace t = trace s @ ws \<and> self t = self s \<and> rest s t \<and>
      (\<forall>y c. a_refs (ent s y) \<noteq> 0 \<longrightarrow> hold c y s \<longrightarrow> hold c y t)"
    and step_refl: "inv s \<Longrightarrow> step x (ent s x) [] s s"
    and hold_cont: "inv s \<Longrightarrow> hold b x s \<Longrightarrow> cont b s = a_data (ent s x)"
    and unused: "inv s \<Longrightarrow> a_refs (ent s x) = 0 \<Longrightarrow> a_data (ent s x) = dsk s x \<and> a_owner (ent s x) = None"
    and data_length: "inv s \<Longrightarrow> length (a_data (ent s x)) = BSIZE"
    and finite_used: "inv s \<Longrightarrow> finite {y. a_refs (ent s y) \<noteq> 0}"
    and rest_refl: "rest s s" and rest_trans: "rest s t \<Longrightarrow> rest t u \<Longrightarrow> rest s u"
    and rd_law: "inv s \<Longrightarrow> self s = Some p \<Longrightarrow> a_owner (ent s x) = None \<Longrightarrow> a_refs (ent s x) < 2 ^ 32 - 1 \<Longrightarrow>
      a_refs (ent s x) \<noteq> 0 \<or> card {y. a_refs (ent s y) \<noteq> 0} < cap \<Longrightarrow>
      \<exists>b t. rd x s = Ok b t \<and> hold b x t \<and>
        step x ((ent s x)\<lparr>a_refs := Suc (a_refs (ent s x)), a_owner := Some p\<rparr>) [] s t"
    and wr_law: "inv s \<Longrightarrow> hold b x s \<Longrightarrow> a_owner (ent s x) = self s \<Longrightarrow> self s = Some p \<Longrightarrow>
      \<exists>t. wr b s = Ok () t \<and> step x (ent s x) [(x, a_data (ent s x))] s t"
    and rel_law: "inv s \<Longrightarrow> hold b x s \<Longrightarrow> a_owner (ent s x) = self s \<Longrightarrow> self s = Some p \<Longrightarrow>
      a_refs (ent s x) \<noteq> 0 \<Longrightarrow> a_refs (ent s x) = 1 \<longrightarrow> a_data (ent s x) = dsk s x \<Longrightarrow>
      \<exists>t. rel b s = Ok () t \<and> step x ((ent s x)\<lparr>a_refs := a_refs (ent s x) - 1, a_owner := None\<rparr>) [] s t"
    and set_law: "inv s \<Longrightarrow> hold b x s \<Longrightarrow> a_refs (ent s x) \<noteq> 0 \<Longrightarrow> length bs = BSIZE \<Longrightarrow>
      step x ((ent s x)\<lparr>a_data := bs\<rparr>) [] s (setd b bs s)"
    and unpin_law: "inv s \<Longrightarrow> hold b x s \<Longrightarrow> a_refs (ent s x) \<noteq> 0 \<Longrightarrow>
      a_refs (ent s x) = 1 \<longrightarrow> a_owner (ent s x) = None \<and> a_data (ent s x) = dsk s x \<Longrightarrow>
      step x ((ent s x)\<lparr>a_refs := a_refs (ent s x) - 1\<rparr>) [] s (unpin b s)"
begin

lemma ablk_eq:
  "e\<lparr>a_refs := r, a_owner := ow, a_refs := r', a_owner := ow'\<rparr> = e\<lparr>a_refs := r', a_owner := ow'\<rparr>"
  "a_refs e = r \<Longrightarrow> a_owner e = ow \<Longrightarrow> e\<lparr>a_refs := r, a_owner := ow\<rparr> = e"
  by simp_all

text \<open>A block is read, its contents replaced, and it is written and released.\<close>

lemma rewrite_block:
  assumes "inv s" and "self s = Some p" and "a_owner (ent s x) = None" and "a_refs (ent s x) < 2 ^ 32 - 1"
    and "a_refs (ent s x) \<noteq> 0 \<or> card {y. a_refs (ent s y) \<noteq> 0} < cap"
    and len: "\<And>v. length v = BSIZE \<Longrightarrow> length (f v) = BSIZE"
  shows "\<exists>b s1 t. rd x s = Ok b s1 \<and> rest s s1 \<and>
    obind (wr b (setd b (f (cont b s1)) s1)) (\<lambda>_ s. rel b s) = Ok () t \<and> inv t \<and> ent t = (ent s)(x := (ent s x)\<lparr>a_data := f (a_data (ent s x))\<rparr>) \<and>
    dsk t = (dsk s)(x := f (a_data (ent s x))) \<and> trace t = trace s @ [(x, f (a_data (ent s x)))] \<and>
    self t = self s \<and> rest s t"
proof -
  let ?e = "ent s x" and ?v = "f (a_data (ent s x))"
  obtain b s1 where s1: "rd x s = Ok b s1" "hold b x s1"
      "step x (?e\<lparr>a_refs := Suc (a_refs ?e), a_owner := Some p\<rparr>) [] s s1"
    using rd_law [OF assms(1-5)] by blast
  note D1 = step_D [OF s1(3)]
  have c: "cont b s1 = a_data ?e" using hold_cont [OF _ s1(2)] D1 by simp
  let ?s2 = "setd b ?v s1"
  have "step x ((ent s1 x)\<lparr>a_data := ?v\<rparr>) [] s1 ?s2"
    using D1 s1(2) data_length [OF assms(1)] by (intro set_law len) auto
  note D2 = step_D [OF this]
  have e2: "ent ?s2 x = ?e\<lparr>a_refs := Suc (a_refs ?e), a_owner := Some p, a_data := ?v\<rparr>"
    using D1 D2 by simp
  have h2: "hold b x ?s2" using D1 D2 s1(2) by simp
  obtain s3 where s3: "wr b ?s2 = Ok () s3" "step x (ent ?s2 x) [(x, ?v)] ?s2 s3"
    using wr_law [OF _ h2, of p] D1 D2 e2 assms(2) by auto
  note D3 = step_D [OF s3(2)]
  have h3: "hold b x s3" using D3 h2 e2 by simp
  have e3: "ent s3 x = ent ?s2 x" using D3 by simp
  have d3: "dsk s3 x = ?v" using D3 by (simp add: apply_writes_def)
  obtain s4 where s4: "rel b s3 = Ok () s4"
      "step x ((ent s3 x)\<lparr>a_refs := a_refs (ent s3 x) - 1, a_owner := None\<rparr>) [] s3 s4"
    using rel_law [OF _ h3, of p] D1 D2 D3 e2 e3 d3 assms(2) by auto
  note D4 = step_D [OF s4(2)]
  have "?e\<lparr>a_refs := a_refs ?e, a_owner := None, a_data := ?v\<rparr> = ?e\<lparr>a_data := ?v\<rparr>"
    using assms(3) by (intro ablk.equality) simp_all
  moreover have "(ent s3 x)\<lparr>a_refs := a_refs (ent s3 x) - 1, a_owner := None\<rparr> =
      ?e\<lparr>a_refs := a_refs ?e, a_owner := None, a_data := ?v\<rparr>"
    unfolding e3 e2 by (intro ablk.equality) simp_all
  ultimately have "ent s4 = (ent s)(x := ?e\<lparr>a_data := ?v\<rparr>)"
    using D1 D2 D3 D4 by simp
  moreover have "rest s s1" "rest s1 ?s2" "rest ?s2 s3" "rest s3 s4" using D1 D2 D3 D4 by simp_all
  then have "rest s s4" by (meson rest_trans)
  moreover have "dsk s4 = (dsk s)(x := ?v)" "trace s4 = trace s @ [(x, ?v)]" "self s4 = self s"
    using D1 D2 D3 D4 by (simp_all add: apply_writes_def)
  ultimately show ?thesis using s1(1) s3(1) s4(1) c D1 D4 by auto
qed

text \<open>
  The tail of a copy between two blocks that are both held: the contents of \<open>x\<close> go to
  \<open>y\<close>, which is written, optionally unpinned, and both are released.
\<close>

lemma copy_tail:
  assumes inv: "inv s" and me: "self s = Some p" and ne: "x \<noteq> y"
    and bx: "hold b x s" "a_owner (ent s x) = Some p" "a_refs (ent s x) \<noteq> 0"
      "a_refs (ent s x) = 1 \<longrightarrow> a_data (ent s x) = dsk s x"
    and cy: "hold c y s" "a_owner (ent s y) = Some p" "a_refs (ent s y) \<noteq> 0"
      "unp \<longrightarrow> a_refs (ent s y) \<noteq> 1"
  shows "\<exists>t. obind (wr c (setd c (cont b s) s)) (\<lambda>_ s.
      obind (rel b (if unp then unpin c s else s)) (\<lambda>_ s. rel c s)) = Ok () t \<and> inv t \<and>
    ent t = (ent s)(x := (ent s x)\<lparr>a_refs := a_refs (ent s x) - 1, a_owner := None\<rparr>,
      y := \<lparr>a_data = a_data (ent s x), a_refs = a_refs (ent s y) - (if unp then 2 else 1), a_owner = None\<rparr>) \<and>
    dsk t = (dsk s)(y := a_data (ent s x)) \<and> trace t = trace s @ [(y, a_data (ent s x))] \<and>
    self t = self s \<and> rest s t"
proof -
  let ?v = "a_data (ent s x)" and ?n = "a_refs (ent s y)"
  have c: "cont b s = ?v" by (rule hold_cont [OF inv bx(1)])
  let ?s1 = "setd c ?v s"
  have "step y ((ent s y)\<lparr>a_data := ?v\<rparr>) [] s ?s1"
    by (rule set_law [OF inv cy(1,3) data_length [OF inv]])
  note D1 = step_D [OF this]
  have h1: "hold c y ?s1" "hold b x ?s1" using D1 bx cy by simp_all
  have e1: "ent ?s1 x = ent s x" "ent ?s1 y = (ent s y)\<lparr>a_data := ?v\<rparr>" using D1 ne by simp_all
  obtain s2 where s2: "wr c ?s1 = Ok () s2" "step y (ent ?s1 y) [(y, ?v)] ?s1 s2"
    using wr_law [of ?s1 c y p] D1 h1 e1 cy me by auto
  note D2 = step_D [OF s2(2)]
  have e2: "ent s2 = ent ?s1" "dsk s2 = (dsk s)(y := ?v)" using D1 D2 by (simp_all add: apply_writes_def)
  have h2: "hold c y s2" "hold b x s2" using D2 h1 e1 bx cy by simp_all
  let ?s3 = "if unp then unpin c s2 else s2" and ?m = "if unp then ?n - 1 else ?n"
  have "step y ((ent s2 y)\<lparr>a_refs := ?m\<rparr>) [] s2 ?s3"
  proof (cases unp)
    case True
    then show ?thesis using unpin_law [of s2 c y] D2 h2 e1 e2 cy by simp
  next
    case False
    then show ?thesis using step_refl [of s2 y] D2 e1 e2(1) by simp
  qed
  note D3 = step_D [OF this]
  have e3: "ent ?s3 x = ent s x" "ent ?s3 y = (ent s y)\<lparr>a_data := ?v, a_refs := ?m\<rparr>"
    using D3 e1 e2 ne by simp_all
  have h3: "hold c y ?s3" "hold b x ?s3" using D3 h2 e1 e2 bx cy by simp_all
  have d3: "dsk ?s3 = (dsk s)(y := ?v)" using D3 e2 by (simp add: apply_writes_def)
  have me3: "self ?s3 = Some p" using D1 D2 D3 me by simp
  obtain s4 where s4: "rel b ?s3 = Ok () s4"
      "step x ((ent s x)\<lparr>a_refs := a_refs (ent s x) - 1, a_owner := None\<rparr>) [] ?s3 s4"
    using rel_law [OF conjunct1 [OF D3] h3(2) _ me3, unfolded e3(1)] bx(2-4) me3 d3 ne by auto
  note D4 = step_D [OF s4(2)]
  have m: "?m \<noteq> 0" using cy(3,4) by (auto intro: Suc_lessI)
  have e4: "ent s4 y = (ent s y)\<lparr>a_data := ?v, a_refs := ?m\<rparr>" using D4 e3 ne by simp
  have h4: "hold c y s4" using D4 h3 e3 m by simp
  have d4: "dsk s4 = (dsk s)(y := ?v)" using D4 d3 by (simp add: apply_writes_def)
  have me4: "self s4 = Some p" using D4 me3 by simp
  have "a_refs (ent s4 y) \<noteq> 0" "a_owner (ent s4 y) = Some p" "a_data (ent s4 y) = dsk s4 y"
    using e4 m cy(2) d4 by simp_all
  then obtain s5 where s5: "rel c s4 = Ok () s5"
      "step y ((ent s4 y)\<lparr>a_refs := a_refs (ent s4 y) - 1, a_owner := None\<rparr>) [] s4 s5"
    using rel_law [OF conjunct1 [OF D4] h4 _ me4] me4 by metis
  note D5 = step_D [OF s5(2)]
  have "(ent s4 y)\<lparr>a_refs := a_refs (ent s4 y) - 1, a_owner := None\<rparr> =
      \<lparr>a_data = ?v, a_refs = ?n - (if unp then 2 else 1), a_owner = None\<rparr>"
    unfolding e4 by (intro ablk.equality) (simp_all add: numeral_2_eq_2)
  then have ent5: "ent s5 = (ent s)(x := (ent s x)\<lparr>a_refs := a_refs (ent s x) - 1, a_owner := None\<rparr>,
      y := \<lparr>a_data = ?v, a_refs = ?n - (if unp then 2 else 1), a_owner = None\<rparr>)"
    using D1 D2 D3 D4 D5 ne by (simp add: fun_eq_iff)
  have "rest s ?s1" "rest ?s1 s2" "rest s2 ?s3" "rest ?s3 s4" "rest s4 s5"
    using D1 D2 D3 D4 D5 by blast+
  then have "rest s s5" by (meson rest_trans)
  moreover have "dsk s5 = (dsk s)(y := ?v)" "trace s5 = trace s @ [(y, ?v)]" "self s5 = self s" "inv s5"
    using D1 D2 D3 D4 D5 d4 by (simp_all add: apply_writes_def)
  ultimately show ?thesis using ent5 c s2(1) s4(1) s5(1) by simp
qed

lemma used_insert:
  assumes "step x ((ent s x)\<lparr>a_refs := Suc n, a_owner := q\<rparr>) [] s t"
  shows "{z. a_refs (ent t z) \<noteq> 0} = insert x {z. a_refs (ent s z) \<noteq> 0}"
  using step_D [OF assms] by auto

text \<open>Reading two different blocks, of which the cache can hold both.\<close>

lemma read_two:
  assumes inv: "inv s" and me: "self s = Some p" and ne: "x \<noteq> y"
    and x: "a_owner (ent s x) = None" "a_refs (ent s x) < 2 ^ 32 - 1"
    and y: "a_owner (ent s y) = None" "a_refs (ent s y) < 2 ^ 32 - 1"
    and room: "card ({z. a_refs (ent s z) \<noteq> 0} \<union> {x, y}) \<le> cap"
  shows "\<exists>b s1 c t. rd x s = Ok b s1 \<and> rd y s1 = Ok c t \<and> inv t \<and> hold b x t \<and> hold c y t \<and>
    ent t = (ent s)(x := (ent s x)\<lparr>a_refs := Suc (a_refs (ent s x)), a_owner := Some p\<rparr>,
      y := (ent s y)\<lparr>a_refs := Suc (a_refs (ent s y)), a_owner := Some p\<rparr>) \<and>
    dsk t = dsk s \<and> trace t = trace s \<and> self t = self s \<and> rest s s1 \<and> rest s1 t"
proof -
  let ?U = "{z. a_refs (ent s z) \<noteq> 0}"
  note fin = finite_used [OF inv]
  have le: "card (insert x ?U) \<le> card (?U \<union> {x, y})" using fin by (intro card_mono) auto
  have rx: "a_refs (ent s x) \<noteq> 0 \<or> card ?U < cap"
  proof (cases "x \<in> ?U")
    case False
    then have "card (insert x ?U) = Suc (card ?U)" using fin by simp
    then show ?thesis using le room by linarith
  qed simp
  obtain b s1 where s1: "rd x s = Ok b s1" "hold b x s1"
      "step x ((ent s x)\<lparr>a_refs := Suc (a_refs (ent s x)), a_owner := Some p\<rparr>) [] s s1"
    using rd_law [OF inv me x rx] by blast
  note D1 = step_D [OF s1(3)]
  have e1: "ent s1 y = ent s y" using D1 ne by simp
  have ry: "a_refs (ent s1 y) \<noteq> 0 \<or> card {z. a_refs (ent s1 z) \<noteq> 0} < cap"
  proof (cases "y \<in> ?U")
    case False
    then have "card (insert y (insert x ?U)) = Suc (card (insert x ?U))" using fin ne by simp
    moreover have "insert y (insert x ?U) = ?U \<union> {x, y}" by blast
    ultimately show ?thesis unfolding used_insert [OF s1(3)] using room by simp
  qed (use e1 in simp)
  have i1: "inv s1" "self s1 = Some p" using D1 me by simp_all
  obtain c t where t: "rd y s1 = Ok c t" "hold c y t"
      "step y ((ent s y)\<lparr>a_refs := Suc (a_refs (ent s y)), a_owner := Some p\<rparr>) [] s1 t"
    using rd_law [OF i1 _ _ ry] e1 y by auto
  note D2 = step_D [OF t(3)]
  have "hold b x t" using D1 D2 s1(2) by simp
  moreover have "dsk t = dsk s" "trace t = trace s" "self t = self s"
    using D1 D2 by (simp_all add: apply_writes_def)
  ultimately show ?thesis using s1(1) t(1,2) D1 D2 by simp
qed

text \<open>
  The two copies of the log: from a block read first to one read second, as installation
  does, and from the one read second to the one read first, as logging does.
\<close>

lemma copy_forward:
  assumes inv: "inv s" and me: "self s = Some p" and ne: "x \<noteq> y"
    and x: "a_owner (ent s x) = None" "a_refs (ent s x) < 2 ^ 32 - 1"
    and y: "a_owner (ent s y) = None" "a_refs (ent s y) < 2 ^ 32 - 1"
    and room: "card ({z. a_refs (ent s z) \<noteq> 0} \<union> {x, y}) \<le> cap"
    and unp: "unp \<longrightarrow> a_refs (ent s y) \<noteq> 0"
  shows "\<exists>b s1 c s2 t. rd x s = Ok b s1 \<and> rd y s1 = Ok c s2 \<and> rest s s1 \<and> rest s s2 \<and>
    obind (wr c (setd c (cont b s2) s2)) (\<lambda>_ s.
      obind (rel b (if unp then unpin c s else s)) (\<lambda>_ s. rel c s)) = Ok () t \<and> inv t \<and>
    ent t = (ent s)(y := \<lparr>a_data = a_data (ent s x), a_refs = a_refs (ent s y) - (if unp then 1 else 0),
      a_owner = None\<rparr>) \<and>
    dsk t = (dsk s)(y := a_data (ent s x)) \<and> trace t = trace s @ [(y, a_data (ent s x))] \<and>
    self t = self s \<and> rest s t"
proof -
  obtain b s1 c s2 where r: "rd x s = Ok b s1" "rd y s1 = Ok c s2" "inv s2" "hold b x s2" "hold c y s2"
      "dsk s2 = dsk s" "trace s2 = trace s" "self s2 = self s" "rest s s1" "rest s1 s2" and
    e: "ent s2 = (ent s)(x := (ent s x)\<lparr>a_refs := Suc (a_refs (ent s x)), a_owner := Some p\<rparr>,
      y := (ent s y)\<lparr>a_refs := Suc (a_refs (ent s y)), a_owner := Some p\<rparr>)"
    using read_two [OF inv me ne x y room] by blast
  have me2: "self s2 = Some p" using r(8) me by simp
  have ex: "a_owner (ent s2 x) = Some p" "a_refs (ent s2 x) \<noteq> 0"
      "a_refs (ent s2 x) = 1 \<longrightarrow> a_data (ent s2 x) = dsk s2 x"
    using e ne unused [OF inv, of x] r(6) by simp_all
  have ey: "a_owner (ent s2 y) = Some p" "a_refs (ent s2 y) \<noteq> 0" "unp \<longrightarrow> a_refs (ent s2 y) \<noteq> 1"
    using e unp by simp_all
  obtain t where t: "obind (wr c (setd c (cont b s2) s2)) (\<lambda>_ s.
      obind (rel b (if unp then unpin c s else s)) (\<lambda>_ s. rel c s)) = Ok () t" "inv t"
    "ent t = (ent s2)(x := (ent s2 x)\<lparr>a_refs := a_refs (ent s2 x) - 1, a_owner := None\<rparr>,
      y := \<lparr>a_data = a_data (ent s2 x), a_refs = a_refs (ent s2 y) - (if unp then 2 else 1), a_owner = None\<rparr>)"
    "dsk t = (dsk s2)(y := a_data (ent s2 x))" "trace t = trace s2 @ [(y, a_data (ent s2 x))]"
    "self t = self s2" "rest s2 t"
    using copy_tail [OF r(3) me2 ne r(4) ex r(5) ey] by blast
  have "(ent s2 x)\<lparr>a_refs := a_refs (ent s2 x) - 1, a_owner := None\<rparr> = ent s x"
    using e ne x(1) by (intro ablk.equality) simp_all
  then have "ent t = (ent s)(y := \<lparr>a_data = a_data (ent s x),
      a_refs = a_refs (ent s y) - (if unp then 1 else 0), a_owner = None\<rparr>)"
    using t(3) e ne by (simp add: fun_eq_iff)
  moreover have "dsk t = (dsk s)(y := a_data (ent s x))" "trace t = trace s @ [(y, a_data (ent s x))]"
    using t(4,5) r(6,7) e ne by simp_all
  moreover have "rest s s2" using r(9,10) by (rule rest_trans)
  moreover from this t(7) have "rest s t" by (rule rest_trans)
  ultimately show ?thesis using r(1,2,8,9) t(1,2,6) by auto
qed

lemma copy_backward:
  assumes inv: "inv s" and me: "self s = Some p" and ne: "x \<noteq> y"
    and x: "a_owner (ent s x) = None" "a_refs (ent s x) < 2 ^ 32 - 1"
    and y: "a_owner (ent s y) = None" "a_refs (ent s y) < 2 ^ 32 - 1"
    and room: "card ({z. a_refs (ent s z) \<noteq> 0} \<union> {x, y}) \<le> cap"
  shows "\<exists>b s1 c s2 t. rd x s = Ok b s1 \<and> rd y s1 = Ok c s2 \<and> rest s s1 \<and> rest s s2 \<and>
    obind (wr b (setd b (cont c s2) s2)) (\<lambda>_ s. obind (rel c s) (\<lambda>_ s. rel b s)) = Ok () t \<and> inv t \<and>
    ent t = (ent s)(x := (ent s x)\<lparr>a_data := a_data (ent s y)\<rparr>) \<and>
    dsk t = (dsk s)(x := a_data (ent s y)) \<and> trace t = trace s @ [(x, a_data (ent s y))] \<and>
    self t = self s \<and> rest s t"
proof -
  obtain b s1 c s2 where r: "rd x s = Ok b s1" "rd y s1 = Ok c s2" "inv s2" "hold b x s2" "hold c y s2"
      "dsk s2 = dsk s" "trace s2 = trace s" "self s2 = self s" "rest s s1" "rest s1 s2" and
    e: "ent s2 = (ent s)(x := (ent s x)\<lparr>a_refs := Suc (a_refs (ent s x)), a_owner := Some p\<rparr>,
      y := (ent s y)\<lparr>a_refs := Suc (a_refs (ent s y)), a_owner := Some p\<rparr>)"
    using read_two [OF inv me ne x y room] by blast
  have me2: "self s2 = Some p" using r(8) me by simp
  have ey: "a_owner (ent s2 y) = Some p" "a_refs (ent s2 y) \<noteq> 0"
      "a_refs (ent s2 y) = 1 \<longrightarrow> a_data (ent s2 y) = dsk s2 y"
    using e unused [OF inv, of y] r(6) by simp_all
  have ex: "a_owner (ent s2 x) = Some p" "a_refs (ent s2 x) \<noteq> 0" "False \<longrightarrow> a_refs (ent s2 x) \<noteq> 1"
    using e ne by simp_all
  obtain t where t: "obind (wr b (setd b (cont c s2) s2)) (\<lambda>_ s.
      obind (rel c s) (\<lambda>_ s. rel b s)) = Ok () t" "inv t"
    "ent t = (ent s2)(y := (ent s2 y)\<lparr>a_refs := a_refs (ent s2 y) - 1, a_owner := None\<rparr>,
      x := \<lparr>a_data = a_data (ent s2 y), a_refs = a_refs (ent s2 x) - 1, a_owner = None\<rparr>)"
    "dsk t = (dsk s2)(x := a_data (ent s2 y))" "trace t = trace s2 @ [(x, a_data (ent s2 y))]"
    "self t = self s2" "rest s2 t"
    using copy_tail [OF r(3) me2 ne [symmetric] r(5) ey r(4) ex] by auto
  have "(ent s2 y)\<lparr>a_refs := a_refs (ent s2 y) - 1, a_owner := None\<rparr> = ent s y"
    using e y(1) by (intro ablk.equality) simp_all
  moreover have "\<lparr>a_data = a_data (ent s2 y), a_refs = a_refs (ent s2 x) - 1, a_owner = None\<rparr> =
      (ent s x)\<lparr>a_data := a_data (ent s y)\<rparr>"
    using e ne x(1) by (intro ablk.equality) simp_all
  ultimately have "ent t = (ent s)(x := (ent s x)\<lparr>a_data := a_data (ent s y)\<rparr>)"
    using t(3) e ne by (simp add: fun_eq_iff)
  moreover have "dsk t = (dsk s)(x := a_data (ent s y))" "trace t = trace s @ [(x, a_data (ent s y))]"
    using t(4,5) r(6,7) e ne by simp_all
  moreover have "rest s s2" using r(9,10) by (rule rest_trans)
  moreover from this t(7) have "rest s t" by (rule rest_trans)
  ultimately show ?thesis using r(1,2,8,9) t(1,2,6) by auto
qed

end

lemma blk_unused:
  assumes inv: "bc_inv d s" and "a_refs (blk d s x) = 0"
  shows "a_data (blk d s x) = disk s x \<and> a_owner (blk d s x) = None"
proof (cases "buf_of d s x")
  case (Some b)
  note B = buf_ofD [OF inv Some]
  then have "b_refcnt (bcache s ! b) = 0" using assms(2) by (simp add: blk_of_def unat_eq_0)
  then show ?thesis using B(4-6) by (auto simp: buf_ok_def blk_of_def)
qed (simp add: blk_def)

lemma blk_length: "bc_inv d s \<Longrightarrow> length (a_data (blk d s x)) = BSIZE"
  using buf_ofD(5,6) [of d s x] bc_invD(4) [of d s]
  by (cases "buf_of d s x") (auto simp: blk_def blk_of_def buf_ok_def)

lemma holds_data:
  assumes "bc_inv d s" and h: "holds d b x s"
  shows "b_data (bcache s ! b) = a_data (blk d s x)"
  using buf_ofD(6) [OF assms(1) holdsD(1) [OF h]] holdsD(2) [OF h] by (simp add: blk_of_def)

interpretation bc: block_cache "bc_inv d" "blk d" disk writes mypid bio_frame "holds d"
  "\<lambda>b s. b_data (bcache s ! b)" "bstep d" NBUF "bread d" bwrite brelse
  "\<lambda>b v. upd_buf b (\<lambda>y. y\<lparr>b_data := v\<rparr>)" bunpin for d :: u32
proof
  show "bstep d x v ws s t \<Longrightarrow> bc_inv d t \<and> blk d t = (blk d s)(x := v) \<and>
      disk t = apply_writes ws (disk s) \<and> writes t = writes s @ ws \<and> mypid t = mypid s \<and> bio_frame s t \<and>
      (\<forall>y c. a_refs (blk d s y) \<noteq> 0 \<longrightarrow> holds d c y s \<longrightarrow> holds d c y t)" for d x v ws and s t :: "'z kbio_scheme"
    by (simp add: bstep_def)
  show "bc_inv d s \<Longrightarrow> bstep d x (blk d s x) [] s s" for d x and s :: "'z kbio_scheme"
    by (simp add: bstep_def apply_writes_def)
qed (rule holds_data blk_unused blk_length finite_refs bio_frame_refl bio_frame_trans bread_law bwrite_law brelse_law
    set_data_law bunpin_law; (assumption | simp add: spare_buf_def))+

section \<open>Boot\<close>

lemma binit_loop_chain:
  assumes "linked (bcache s) ns" and "distinct (rev bs @ ns)" and "set (bs @ ns) \<subseteq> {0..<NBUF}"
    and "length (bcache s) = NBUF + 1"
  shows "linked (bcache (binit_loop bs s)) (rev bs @ ns)"
  using assms
proof (induction bs arbitrary: s ns)
  case (Cons b bs)
  let ?s = "upd_buf b (\<lambda>x. x\<lparr>b_lock := initsleeplock\<rparr>) s"
  have "linked (bcache ?s) ns"
    using Cons.prems(1) unfolding linked_def by (rule links_cong) (auto simp: nth_upd_buf)
  then have "linked (bcache (link_first b ?s)) (b # ns)"
    using Cons.prems by (intro link_first_chain) auto
  then show ?case
    using Cons.IH [of "link_first b ?s" "b # ns"] Cons.prems
    by (simp add: link_first_def Let_def)
qed simp

lemma binit_loop_core:
  "core (bcache (binit_loop bs s) ! i) =
     (if i \<in> set bs \<and> i < length (bcache s) then (core (bcache s ! i))\<lparr>b_lock := initsleeplock\<rparr>
      else core (bcache s ! i))"
proof (induction bs arbitrary: s)
  case (Cons b bs)
  have l: "core (bcache (link_first b t) ! j) = core (bcache t ! j)" for j and t :: "'a kbio_scheme"
    by (simp add: link_first_def Let_def core_links)
  have u: "core (bcache (set_buf_lock b initsleeplock s) ! j) =
      (if j = b \<and> b < length (bcache s) then (core (bcache s ! b))\<lparr>b_lock := initsleeplock\<rparr> else core (bcache s ! j))"
    for j by (simp add: nth_upd_buf core_def)
  have n: "length (bcache (link_first b t)) = length (bcache t)" for t :: "'a kbio_scheme"
    by (simp add: link_first_def Let_def)
  show ?case
    by (auto simp: Cons.IH l n u)
qed simp

lemma binit_loop_form: "\<exists>b. binit_loop bs s = s\<lparr>bcache := b\<rparr>"
proof (induction bs arbitrary: s)
  case Nil
  have "binit_loop [] s = s\<lparr>bcache := bcache s\<rparr>" by simp
  then show ?case by blast
next
  case (Cons b bs)
  let ?t = "link_first b (upd_buf b (\<lambda>x. x\<lparr>b_lock := initsleeplock\<rparr>) s)"
  obtain c where "binit_loop bs ?t = ?t\<lparr>bcache := c\<rparr>" using Cons by blast
  then have "binit_loop (b # bs) s = s\<lparr>bcache := c\<rparr>"
    by (simp add: link_first_def Let_def upd_buf_def)
  then show ?case by blast
qed

text \<open>Buffers as the zeroed data segment has them.\<close>

definition fresh_buf :: "buf \<Rightarrow> bool" where
  "fresh_buf b \<longleftrightarrow> b_refcnt b = 0 \<and> \<not> b_valid b \<and> b_dev b = 0 \<and> length (b_data b) = BSIZE"

lemma binit_establishes:
  assumes len: "length (bcache s) = NBUF + 1" and fresh: "\<And>i. i < NBUF \<Longrightarrow> fresh_buf (bcache s ! i)"
    and disk: "\<And>x. length (disk s x) = BSIZE" and d: "d \<noteq> 0"
  shows "bc_inv d (binit s)" and "blk d (binit s) x = \<lparr>a_data = disk s x, a_refs = 0, a_owner = None\<rparr>"
    and "\<exists>b. binit s = s\<lparr>bcache := b\<rparr>"
proof -
  let ?s = "upd_buf HEAD (\<lambda>x. x\<lparr>b_prev := HEAD, b_next := HEAD\<rparr>) s"
  have "linked (bcache ?s) []" using len by (simp add: linked_def nth_upd_buf HEAD_def NBUF_def)
  then have "linked (bcache (binit s)) (rev [0..<NBUF])"
    using binit_loop_chain [of ?s "[]" "[0..<NBUF]"] len by (simp add: binit_def)
  moreover obtain c where c: "binit s = ?s\<lparr>bcache := c\<rparr>" using binit_loop_form by (auto simp: binit_def)
  then have form: "binit s = s\<lparr>bcache := c\<rparr>" by (simp add: upd_buf_def)
  then show "\<exists>b. binit s = s\<lparr>bcache := b\<rparr>" by blast
  have bl: "length (bcache (binit_loop bs t)) = length (bcache t)" for bs and t :: "'a kbio_scheme"
    by (induction bs arbitrary: t) (simp_all add: link_first_def Let_def)
  have "length (bcache (binit s)) = NBUF + 1" using len by (simp add: binit_def bl)
  ultimately have lru: "lru_ok (binit s)"
    unfolding lru_ok_def by (intro conjI exI [of _ "rev [0..<NBUF]"]) auto
  have core: "core (bcache (binit s) ! i) = (core (bcache s ! i))\<lparr>b_lock := initsleeplock\<rparr>" if "i < NBUF" for i
    using that len by (simp add: binit_def binit_loop_core nth_upd_buf HEAD_def NBUF_def)
  have core: "core (bcache (binit s) ! i) = core ((bcache s ! i)\<lparr>b_lock := initsleeplock\<rparr>)" if "i < NBUF" for i
    unfolding core [OF that] by (simp add: core_def)
  have f: "b_refcnt (bcache (binit s) ! i) = 0" "\<not> b_valid (bcache (binit s) ! i)"
      "b_dev (bcache (binit s) ! i) = 0" "length (b_data (bcache (binit s) ! i)) = BSIZE"
      "\<not> sl_locked (b_lock (bcache (binit s) ! i))" if "i < NBUF" for i
    using core_eqD [OF core [OF that]] fresh [OF that] by (simp_all add: fresh_buf_def initsleeplock_def)
  have "\<forall>i < NBUF. buf_ok d (disk (binit s)) (bcache (binit s) ! i)" using f by (simp add: buf_ok_def)
  moreover have "uniq d (binit s)" using f d by (auto simp: uniq_def)
  moreover have "disk (binit s) = disk s" using form by simp
  ultimately show "bc_inv d (binit s)" using lru d disk by (simp add: bc_inv_def)
  have "buf_of d (binit s) x = None" using f d by (auto simp: buf_of_None)
  then show "blk d (binit s) x = \<lparr>a_data = disk s x, a_refs = 0, a_owner = None\<rparr>"
    using \<open>disk (binit s) = disk s\<close> by (simp add: blk_def)
qed

text \<open>C2. Reading a block from the cache: whether the block is cached or a buffer has to be recycled
  and filled from the disk, \<^verbatim>\<open>bread\<close> returns a locked buffer with the current
  contents of the block, every other block keeps contents, references and owner, nothing is
  written to the disk, and the invariant of the cache is kept.
\<close>

theorem bread_returns_block:
  assumes "bc_inv d s" and "mypid s = Some p" and "a_owner (blk d s x) = None"
    and "a_refs (blk d s x) < 2 ^ 32 - 1" and "a_refs (blk d s x) \<noteq> 0 \<or> spare_buf d s"
  shows "\<exists>b t. bread d x s = Ok b t \<and> bc_inv d t \<and> b_data (bcache t ! b) = a_data (blk d s x) \<and>
    buf_lock b t = \<lparr>sl_locked = True, sl_pid = p\<rparr> \<and>
    blk d t = (blk d s)(x := (blk d s x)\<lparr>a_refs := Suc (a_refs (blk d s x)), a_owner := Some p\<rparr>) \<and>
    disk t = disk s \<and> writes t = writes s"
proof -
  obtain b t where t: "bread d x s = Ok b t" "holds d b x t"
      "bstep d x ((blk d s x)\<lparr>a_refs := Suc (a_refs (blk d s x)), a_owner := Some p\<rparr>) [] s t"
    using bread_law [OF assms] by blast
  note D = bstepD [OF t(3)]
  have e: "blk_of (bcache t ! b) (disk t) = (blk d s x)\<lparr>a_refs := Suc (a_refs (blk d s x)), a_owner := Some p\<rparr>"
    using buf_ofD(6) [OF D(1) holdsD(1) [OF t(2)]] D(2) by simp
  have "a_owner (blk_of (bcache t ! b) (disk t)) = Some p" unfolding e by simp
  then have "buf_lock b t = \<lparr>sl_locked = True, sl_pid = p\<rparr>"
    by (intro sleeplock.equality) (auto simp: blk_of_def split: if_splits)
  then show ?thesis
    using t(1) D(1-4) holds_data [OF D(1) t(2)] by (auto simp: apply_writes_def)
qed

lemma kbio0_boots:
  "bc_inv 1 (binit (kbio0\<lparr>cur := Some 0\<rparr>))"
  "blk 1 (binit (kbio0\<lparr>cur := Some 0\<rparr>)) x = \<lparr>a_data = replicate BSIZE 0, a_refs = 0, a_owner = None\<rparr>"
  "mypid (binit (kbio0\<lparr>cur := Some 0\<rparr>)) \<noteq> None"
proof -
  let ?s = "kbio0\<lparr>cur := Some 0\<rparr>"
  have f: "bcache ?s = replicate (NBUF + 1) buf0" "disk ?s = (\<lambda>_. replicate BSIZE 0)"
    by (simp_all add: kbio0_def kcons0_defs kbio.defs)
  have len: "length (bcache ?s) = NBUF + 1" by (simp add: f)
  have fr: "fresh_buf (bcache ?s ! i)" if "i < NBUF" for i
    using that by (simp add: f fresh_buf_def buf0_def nth_Cons' del: replicate_Suc)
  note B = binit_establishes [of ?s 1, OF len fr]
  show "bc_inv 1 (binit ?s)" "blk 1 (binit ?s) x = \<lparr>a_data = replicate BSIZE 0, a_refs = 0, a_owner = None\<rparr>"
    using B(1,2) by (simp_all add: f)
  obtain c where "binit ?s = ?s\<lparr>bcache := c\<rparr>" using B(3) by (auto simp: f)
  then show "mypid (binit ?s) \<noteq> None" by (simp add: mypid_def myproc_def)
qed

theorem bread_returns_block_witness:
  "\<exists>b t. bread 1 40 (binit (kbio0\<lparr>cur := Some 0\<rparr>)) = Ok b t \<and> b_data (bcache t ! b) = replicate BSIZE 0 \<and>
     a_refs (blk 1 t 40) = 1"
proof -
  obtain p where "mypid (binit (kbio0\<lparr>cur := Some 0\<rparr>)) = Some p" using kbio0_boots(3) by blast
  then show ?thesis
    using bread_returns_block [OF kbio0_boots(1), of p 40] by (auto simp: kbio0_boots(2) spare_buf_def NBUF_def)
qed

text \<open>C4. Setting up the cache at boot establishes its invariant for the device: the buffers form
  one cycle of links through the list head, no block is cached twice, and every block reads
  as the disk has it, unreferenced and unlocked.
\<close>

theorem binit_boots_cache:
  assumes "length (bcache s) = NBUF + 1" and "\<forall>i. i < NBUF \<longrightarrow> fresh_buf (bcache s ! i)"
    and "\<forall>x. length (disk s x) = BSIZE" and "d \<noteq> 0"
  shows "bc_inv d (binit s) \<and> blk d (binit s) = (\<lambda>x. \<lparr>a_data = disk s x, a_refs = 0, a_owner = None\<rparr>)"
proof
  show "bc_inv d (binit s)" by (rule binit_establishes(1)) (use assms in auto)
  show "blk d (binit s) = (\<lambda>x. \<lparr>a_data = disk s x, a_refs = 0, a_owner = None\<rparr>)"
    by (intro ext binit_establishes(2)) (use assms in auto)
qed

theorem binit_boots_cache_witness: "bc_inv 1 (binit kbio0)"
proof -
  have f: "bcache kbio0 = replicate (NBUF + 1) buf0" "disk kbio0 = (\<lambda>_. replicate BSIZE 0)"
    by (simp_all add: kbio0_def kcons0_defs kbio.defs)
  show ?thesis
    using binit_boots_cache [of kbio0 1] by (simp add: f fresh_buf_def buf0_def nth_Cons')
qed

end
