(* ===== verification/Log_Recovery.thy ===== *)
theory Log_Recovery
  imports Log Cache
begin

text \<open>
  What the redo log promises: the sequence of disk writes of a commit, the effect of
  recovery, and that a crash between any two of those writes leaves the disk, after
  recovery, with either none or all of the transaction. The proofs use the cache only
  through the interpretation \<open>bc\<close> of its contract.
\<close>

section \<open>Sequences of disk writes\<close>

lemma apply_writes_append: "apply_writes (xs @ ys) D = apply_writes ys (apply_writes xs D)"
  by (simp add: apply_writes_def)

lemma apply_writes_simps [simp]:
  "apply_writes [] D = D" "apply_writes ((x, v) # ws) D = apply_writes ws (D(x := v))"
  by (simp_all add: apply_writes_def)

lemma apply_writes_other: "x \<notin> fst ` set ws \<Longrightarrow> apply_writes ws D x = D x"
  by (induction ws arbitrary: D) auto

lemma apply_writes_fun:
  assumes "\<And>y v. (y, v) \<in> set ws \<Longrightarrow> v = g y" and "x \<in> fst ` set ws"
  shows "apply_writes ws D x = g x"
  using assms
proof (induction ws arbitrary: D)
  case (Cons w ws)
  obtain y v where w: "w = (y, v)" by force
  have v: "v = g y" using Cons.prems(1) w by simp
  show ?case
  proof (cases "x \<in> fst ` set ws")
    case True
    then show ?thesis using Cons.IH [OF _ True] Cons.prems(1) w by simp
  next
    case False
    then have "x = y" using Cons.prems(2) w by auto
    then show ?thesis using apply_writes_other [OF False] w v by simp
  qed
qed simp

section \<open>The header block\<close>

definition header_of :: "int \<Rightarrow> u32 list \<Rightarrow> u8 list \<Rightarrow> u8 list" where
  "header_of n bs v = put_blocks (put32 v 0 (of_int n)) 0 bs"

lemma length_put_blocks [simp]: "length (put_blocks v i bs) = length v"
  by (induction bs arbitrary: v i) auto

lemma length_header_of [simp]: "length (header_of n bs v) = length v"
  by (simp add: header_of_def)

lemma put_blocks_before: "j + 3 < 4 + 4 * i \<Longrightarrow> get32 (put_blocks v i bs) j = get32 v j"
  by (induction bs arbitrary: v i) auto

lemma put_blocks_nth:
  "k < length bs \<Longrightarrow> 4 + 4 * (i + length bs) \<le> length v \<Longrightarrow>
   get32 (put_blocks v i bs) (4 + 4 * (i + k)) = bs ! k"
proof (induction bs arbitrary: v i k)
  case (Cons b bs)
  show ?case
  proof (cases k)
    case 0
    then show ?thesis using Cons.prems by (simp add: put_blocks_before)
  next
    case (Suc m)
    then show ?thesis using Cons.IH [of m "Suc i" "put32 v (4 + 4 * i) b"] Cons.prems by simp
  qed
qed simp

lemma header_of_count:
  "0 \<le> n \<Longrightarrow> n < 2 ^ 31 \<Longrightarrow> 4 \<le> length v \<Longrightarrow> sint (get32 (header_of n bs v) 0) = n"
  by (simp add: header_of_def put_blocks_before) (simp add: signed_of_int signed_take_bit_int_eq_self)

lemma header_of_block:
  "k < length bs \<Longrightarrow> 4 + 4 * length bs \<le> length v \<Longrightarrow> get32 (header_of n bs v) (4 + 4 * k) = bs ! k"
  using put_blocks_nth [of k bs 0 "put32 v 0 (of_int n)"] by (simp add: header_of_def)

section \<open>States in which the log runs\<close>

text \<open>
  No buffer is locked, so no read of the log has to wait, and reference counts are far from
  wrapping around.
\<close>

definition quiet :: "u32 \<Rightarrow> 'z klog_scheme \<Rightarrow> bool" where
  "quiet d s \<longleftrightarrow> bc_inv d s \<and> mypid s \<noteq> None \<and> lg_dev (log s) = d \<and>
     (\<forall>x. a_owner (blk d s x) = None \<and> a_refs (blk d s x) < 2 ^ 32 - 1)"

definition data :: "u32 \<Rightarrow> 'z kbio_scheme \<Rightarrow> u32 \<Rightarrow> u8 list" where
  "data d s x = a_data (blk d s x)"

definition used :: "u32 \<Rightarrow> 'z kbio_scheme \<Rightarrow> u32 set" where
  "used d s = {x. a_refs (blk d s x) \<noteq> 0}"

text \<open>
  \<open>ran d ws s t\<close>: a piece of the log code ran from \<open>s\<close> to \<open>t\<close> and wrote \<open>ws\<close>, in this
  order, both to the cache and to the disk.
\<close>

definition ran :: "u32 \<Rightarrow> (u32 \<times> u8 list) list \<Rightarrow> 'z klog_scheme \<Rightarrow> 'z klog_scheme \<Rightarrow> bool" where
  "ran d ws s t \<longleftrightarrow> quiet d t \<and> data d t = apply_writes ws (data d s) \<and>
     disk t = apply_writes ws (disk s) \<and> writes t = writes s @ ws \<and> used d t \<subseteq> used d s"

lemma bio_frame_log: "bio_frame s t \<Longrightarrow> log t = log s"
  by (auto simp: bio_frame_def)

lemma ran_trans: "ran d ws s t \<Longrightarrow> ran d vs t u \<Longrightarrow> ran d (ws @ vs) s u"
  by (auto simp: ran_def apply_writes_append)

lemma finite_used: "quiet d s \<Longrightarrow> finite (used d s)"
  using finite_refs by (auto simp: used_def quiet_def)

lemma quietD:
  assumes "quiet d s"
  obtains p where "bc_inv d s" "mypid s = Some p" "lg_dev (log s) = d"
    "\<And>x. a_owner (blk d s x) = None" "\<And>x. a_refs (blk d s x) < 2 ^ 32 - 1"
  using assms by (auto simp: quiet_def)

text \<open>Changing the in-memory header leaves the cache alone.\<close>

lemma upd_log_frame [simp]:
  "bc_inv d (upd_log f s) = bc_inv d s" "blk d (upd_log f s) = blk d s" "disk (upd_log f s) = disk s"
  "writes (upd_log f s) = writes s" "mypid (upd_log f s) = mypid s" "holds d b x (upd_log f s) = holds d b x s"
  "bcache (upd_log f s) = bcache s" "data d (upd_log f s) = data d s" "used d (upd_log f s) = used d s"
  "log (upd_log f s) = f (log s)"
proof -
  have b: "buf_of d (upd_log f s) = buf_of d s" by (intro ext) (simp add: upd_log_def buf_of_def)
  have fields: "bcache (upd_log f s) = bcache s" "disk (upd_log f s) = disk s" by (simp_all add: upd_log_def)
  show bl: "blk d (upd_log f s) = blk d s"
    by (intro ext) (simp add: blk_def b fields split: option.split)
  show "bc_inv d (upd_log f s) = bc_inv d s"
    by (simp add: upd_log_def bc_inv_def lru_ok_def uniq_def)
  show "holds d b x (upd_log f s) = holds d b x s" using b by (simp add: holds_def fields)
  show "data d (upd_log f s) = data d s" "used d (upd_log f s) = used d s"
    by (simp_all add: data_def used_def bl fun_eq_iff)
qed (simp_all add: upd_log_def mypid_def myproc_def)

section \<open>The pieces of a commit\<close>

lemma card_room:
  assumes "finite U" and "U' \<subseteq> U" and "card (U \<union> X) \<le> n" and "finite X"
  shows "card (U' \<union> X) \<le> n"
proof -
  have "card (U' \<union> X) \<le> card (U \<union> X)" using assms by (intro card_mono) auto
  then show ?thesis using assms(3) by simp
qed

text \<open>One round of each loop.\<close>

lemma write_log_round:
  assumes q: "quiet d s" and room: "card (used d s \<union> {log_block i s, lh_block (log s) ! i}) \<le> NBUF"
    and ne: "log_block i s \<noteq> lh_block (log s) ! i"
  shows "\<exists>t. write_log_loop (i # ts) s = write_log_loop ts t \<and> log t = log s \<and>
    ran d [(log_block i s, data d s (lh_block (log s) ! i))] s t \<and>
    (\<forall>x. a_refs (blk d t x) = a_refs (blk d s x))"
proof -
  let ?x = "log_block i s" and ?y = "lh_block (log s) ! i"
  obtain p where p: "bc_inv d s" "mypid s = Some p" "lg_dev (log s) = d"
      "\<And>x. a_owner (blk d s x) = None" "\<And>x. a_refs (blk d s x) < 2 ^ 32 - 1"
    using quietD [OF q] by metis
  obtain b s1 c s2 t where t: "bread d ?x s = Ok b s1" "bread d ?y s1 = Ok c s2"
      "bio_frame s s1" "bio_frame s s2"
      "obind (bwrite b (upd_buf b (\<lambda>y. y\<lparr>b_data := b_data (bcache s2 ! c)\<rparr>) s2))
        (\<lambda>_ s. obind (brelse c s) (\<lambda>_ s. brelse b s)) = Ok () t" "bc_inv d t"
      "blk d t = (blk d s)(?x := (blk d s ?x)\<lparr>a_data := a_data (blk d s ?y)\<rparr>)"
      "disk t = (disk s)(?x := a_data (blk d s ?y))" "writes t = writes s @ [(?x, a_data (blk d s ?y))]"
      "mypid t = mypid s" "bio_frame s t"
    using bc.copy_backward [OF p(1,2) ne p(4,5,4,5)] room unfolding used_def by blast
  note logs = bio_frame_log [OF t(3)] bio_frame_log [OF t(4)] bio_frame_log [OF t(11)]
  obtain s3 s4 where s34: "bwrite b (upd_buf b (\<lambda>y. y\<lparr>b_data := b_data (bcache s2 ! c)\<rparr>) s2) = Ok () s3"
      "brelse c s3 = Ok () s4" "brelse b s4 = Ok () t"
    using t(5) by (auto simp: outcome_simps)
  have "write_log_loop (i # ts) s = write_log_loop ts t"
    using t(1,2) s34 logs p(3) by simp
  moreover have "ran d [(?x, data d s ?y)] s t"
    using t(6-11) p q logs(3) by (auto simp: ran_def quiet_def data_def used_def fun_eq_iff)
  moreover have "\<forall>x. a_refs (blk d t x) = a_refs (blk d s x)" using t(7) by simp
  ultimately show ?thesis using logs(3) by blast
qed

lemma install_round:
  assumes q: "quiet d s" and room: "card (used d s \<union> {log_block i s, lh_block (log s) ! i}) \<le> NBUF"
    and ne: "log_block i s \<noteq> lh_block (log s) ! i"
    and pinned: "\<not> recovering \<longrightarrow> lh_block (log s) ! i \<in> used d s"
  shows "\<exists>t. install_loop (i # ts) recovering s = install_loop ts recovering t \<and> log t = log s \<and>
    ran d [(lh_block (log s) ! i, data d s (log_block i s))] s t \<and>
    (\<forall>x. a_refs (blk d t x) = a_refs (blk d s x) - (if x = lh_block (log s) ! i \<and> \<not> recovering then 1 else 0))"
proof -
  let ?x = "log_block i s" and ?y = "lh_block (log s) ! i"
  obtain p where p: "bc_inv d s" "mypid s = Some p" "lg_dev (log s) = d"
      "\<And>x. a_owner (blk d s x) = None" "\<And>x. a_refs (blk d s x) < 2 ^ 32 - 1"
    using quietD [OF q] by metis
  have pin: "\<not> recovering \<longrightarrow> a_refs (blk d s ?y) \<noteq> 0" using pinned by (simp add: used_def)
  obtain b s1 c s2 t where t: "bread d ?x s = Ok b s1" "bread d ?y s1 = Ok c s2"
      "bio_frame s s1" "bio_frame s s2"
      "obind (bwrite c (upd_buf c (\<lambda>y. y\<lparr>b_data := b_data (bcache s2 ! b)\<rparr>) s2))
        (\<lambda>_ s. obind (brelse b (if \<not> recovering then bunpin c s else s)) (\<lambda>_ s. brelse c s)) = Ok () t"
      "bc_inv d t"
      "blk d t = (blk d s)(?y := \<lparr>a_data = a_data (blk d s ?x),
         a_refs = a_refs (blk d s ?y) - (if \<not> recovering then 1 else 0), a_owner = None\<rparr>)"
      "disk t = (disk s)(?y := a_data (blk d s ?x))" "writes t = writes s @ [(?y, a_data (blk d s ?x))]"
      "mypid t = mypid s" "bio_frame s t"
    using bc.copy_forward [OF p(1,2) ne p(4,5,4,5) _ pin] room unfolding used_def by blast
  note logs = bio_frame_log [OF t(3)] bio_frame_log [OF t(4)] bio_frame_log [OF t(11)]
  obtain s3 s4 where s34: "bwrite c (upd_buf c (\<lambda>y. y\<lparr>b_data := b_data (bcache s2 ! b)\<rparr>) s2) = Ok () s3"
      "brelse b (if \<not> recovering then bunpin c s3 else s3) = Ok () s4" "brelse c s4 = Ok () t"
    using t(5) by (auto simp: outcome_simps)
  have "install_loop (i # ts) recovering s = install_loop ts recovering t"
    using t(1,2) s34 logs p(3) by (simp add: Let_def)
  moreover have "data d t = (data d s)(?y := data d s ?x)"
    using t(7) by (simp add: data_def fun_eq_iff)
  moreover have "used d t \<subseteq> used d s" "quiet d t"
    using t(6,7,10) p q logs(3) by (auto simp: quiet_def used_def le_less_trans [OF diff_le_self])
  ultimately show ?thesis
    using t(7-9) logs(3) by (intro exI [of _ t]) (auto simp: ran_def data_def)
qed

text \<open>The home block and the log block of entry \<open>i\<close> of the header.\<close>

definition home :: "log \<Rightarrow> nat \<Rightarrow> u32" where
  "home l i = lh_block l ! i"

definition slot_of :: "log \<Rightarrow> nat \<Rightarrow> u32" where
  "slot_of l i = lg_start l + of_nat i + 1"

lemma slot_of_log: "log_block i s = slot_of (log s) i"
  by (simp add: log_block_def slot_of_def)

lemma write_log_loop_runs:
  assumes "quiet d s" and "log s = l"
    and "\<And>i. i \<in> set ts \<Longrightarrow> card (used d s \<union> {slot_of l i, home l i}) \<le> NBUF"
    and "\<And>i j. i \<in> set ts \<Longrightarrow> j \<in> set ts \<Longrightarrow> slot_of l i \<noteq> home l j"
  shows "\<exists>t. write_log_loop ts s = Ok () t \<and> log t = l \<and>
    ran d (map (\<lambda>i. (slot_of l i, data d s (home l i))) ts) s t \<and>
    (\<forall>x. a_refs (blk d t x) = a_refs (blk d s x))"
  using assms
proof (induction ts arbitrary: s)
  case Nil
  then show ?case by (simp add: ran_def)
next
  case (Cons i ts)
  let ?w = "(slot_of l i, data d s (home l i))"
  obtain t where t: "write_log_loop (i # ts) s = write_log_loop ts t" "log t = l" "ran d [?w] s t"
      "\<forall>x. a_refs (blk d t x) = a_refs (blk d s x)"
    using write_log_round [OF Cons.prems(1), of i ts, unfolded slot_of_log Cons.prems(2) home_def [symmetric],
        OF Cons.prems(3) Cons.prems(4)] by (meson list.set_intros(1))
  have u: "used d t = used d s" using t(4) by (simp add: used_def)
  have room: "card (used d t \<union> {slot_of l i, home l i}) \<le> NBUF" if "i \<in> set ts" for i
    unfolding u using Cons.prems(3) that by simp
  have q: "quiet d t" using t(3) by (simp add: ran_def)
  have ne: "slot_of l i \<noteq> home l j" if "i \<in> set ts" "j \<in> set ts" for i j
    using Cons.prems(4) that by simp
  have same: "data d t (home l j) = data d s (home l j)" if "j \<in> set ts" for j
    using t(3) Cons.prems(4) [of i j] that by (simp add: ran_def)
  obtain r where r: "write_log_loop ts t = Ok () r" "log r = l"
      "ran d (map (\<lambda>i. (slot_of l i, data d t (home l i))) ts) t r"
      "\<forall>x. a_refs (blk d r x) = a_refs (blk d t x)"
    using Cons.IH [OF q t(2) room ne] by blast
  have m: "map (\<lambda>i. (slot_of l i, data d t (home l i))) ts = map (\<lambda>i. (slot_of l i, data d s (home l i))) ts"
    using same by simp
  show ?case
    using t(1,4) r ran_trans [OF t(3) r(3)] unfolding m by (intro exI [of _ r]) simp
qed

lemma install_loop_runs:
  assumes "quiet d s" and "log s = l"
    and "\<And>i. i \<in> set ts \<Longrightarrow> card (used d s \<union> {slot_of l i, home l i}) \<le> NBUF"
    and "\<And>i j. i \<in> set ts \<Longrightarrow> j \<in> set ts \<Longrightarrow> slot_of l i \<noteq> home l j"
    and "\<not> recovering \<Longrightarrow> distinct (map (home l) ts)"
    and "\<And>i. \<not> recovering \<Longrightarrow> i \<in> set ts \<Longrightarrow> home l i \<in> used d s"
  shows "\<exists>t. install_loop ts recovering s = Ok () t \<and> log t = l \<and>
    ran d (map (\<lambda>i. (home l i, data d s (slot_of l i))) ts) s t \<and>
    (\<forall>x. a_refs (blk d t x) = a_refs (blk d s x) - (if x \<in> home l ` set ts \<and> \<not> recovering then 1 else 0))"
  using assms
proof (induction ts arbitrary: s)
  case Nil
  then show ?case by (simp add: ran_def)
next
  case (Cons i ts)
  let ?w = "(home l i, data d s (slot_of l i))"
  obtain t where t: "install_loop (i # ts) recovering s = install_loop ts recovering t" "log t = l" "ran d [?w] s t"
      "\<forall>x. a_refs (blk d t x) = a_refs (blk d s x) - (if x = home l i \<and> \<not> recovering then 1 else 0)"
    using install_round [OF Cons.prems(1), of i recovering ts, unfolded slot_of_log Cons.prems(2) home_def [symmetric],
        OF Cons.prems(3) Cons.prems(4)] Cons.prems(6) by (meson list.set_intros(1))
  have u: "used d t \<subseteq> used d s" using t(3) by (simp add: ran_def)
  have room: "card (used d t \<union> {slot_of l j, home l j}) \<le> NBUF" if "j \<in> set ts" for j
    using Cons.prems(3) that by (intro card_room [OF finite_used [OF Cons.prems(1)] u]) simp_all
  have same: "data d t (slot_of l j) = data d s (slot_of l j)" if "j \<in> set ts" for j
    using t(3) Cons.prems(4) [of j i] that by (simp add: ran_def)
  have pins: "home l j \<in> used d t" if j: "\<not> recovering" "j \<in> set ts" for j
  proof -
    have "home l j \<in> used d s" using Cons.prems(6) j by simp
    moreover have "home l i \<notin> home l ` set ts" using Cons.prems(5) [OF j(1)] by simp
    then have "home l j \<noteq> home l i" using imageI [OF j(2), of "home l"] by (rule_tac notI) simp
    ultimately show ?thesis using t(4) [rule_format, of "home l j"] by (simp add: used_def)
  qed
  have q: "quiet d t" using t(3) by (simp add: ran_def)
  have ne: "slot_of l i \<noteq> home l j" if "i \<in> set ts" "j \<in> set ts" for i j
    using Cons.prems(4) that by simp
  have dist: "distinct (map (home l) ts)" if "\<not> recovering" using Cons.prems(5) that by simp
  obtain r where r: "install_loop ts recovering t = Ok () r" "log r = l"
      "ran d (map (\<lambda>i. (home l i, data d t (slot_of l i))) ts) t r"
      "\<forall>x. a_refs (blk d r x) = a_refs (blk d t x) - (if x \<in> home l ` set ts \<and> \<not> recovering then 1 else 0)"
    using Cons.IH [OF q t(2) room ne dist pins] by blast
  have m: "map (\<lambda>i. (home l i, data d t (slot_of l i))) ts = map (\<lambda>i. (home l i, data d s (slot_of l i))) ts"
    using same by simp
  have "a_refs (blk d r x) =
      a_refs (blk d s x) - (if x \<in> home l ` set (i # ts) \<and> \<not> recovering then 1 else 0)" for x
  proof (cases recovering)
    case False
    then have "home l i \<notin> home l ` set ts" using Cons.prems(5) by simp
    then show ?thesis using r(4) t(4) False by simp
  qed (simp add: r(4) t(4))
  then show ?case
    using t(1) r ran_trans [OF t(3) r(3)] unfolding m by (intro exI [of _ r]) simp
qed

lemma write_head_runs:
  assumes q: "quiet d s" and room: "lg_start (log s) \<in> used d s \<or> card (used d s) < NBUF"
  defines "v \<equiv> header_of (lh_n (log s)) (take (nat (lh_n (log s))) (lh_block (log s))) (data d s (lg_start (log s)))"
  shows "\<exists>t. write_head s = Ok () t \<and> log t = log s \<and> ran d [(lg_start (log s), v)] s t \<and>
    (\<forall>x. a_refs (blk d t x) = a_refs (blk d s x))"
proof -
  let ?x = "lg_start (log s)"
  let ?f = "header_of (lh_n (log s)) (take (nat (lh_n (log s))) (lh_block (log s)))"
  obtain p where p: "bc_inv d s" "mypid s = Some p" "lg_dev (log s) = d"
      "\<And>x. a_owner (blk d s x) = None" "\<And>x. a_refs (blk d s x) < 2 ^ 32 - 1"
    using quietD [OF q] by metis
  have r: "a_refs (blk d s ?x) \<noteq> 0 \<or> card {y. a_refs (blk d s y) \<noteq> 0} < NBUF"
    using room by (simp add: used_def)
  have len: "length (?f u) = BSIZE" if "length u = BSIZE" for u using that by simp
  obtain b s1 t where t: "bread d ?x s = Ok b s1" "bio_frame s s1"
      "obind (bwrite b (upd_buf b (\<lambda>y. y\<lparr>b_data := ?f (b_data (bcache s1 ! b))\<rparr>) s1)) (\<lambda>_ s. brelse b s) = Ok () t"
      "bc_inv d t" "blk d t = (blk d s)(?x := (blk d s ?x)\<lparr>a_data := ?f (a_data (blk d s ?x))\<rparr>)"
      "disk t = (disk s)(?x := ?f (a_data (blk d s ?x)))" "writes t = writes s @ [(?x, ?f (a_data (blk d s ?x)))]"
      "mypid t = mypid s" "bio_frame s t"
    using bc.rewrite_block [OF p(1,2) p(4,5) r, of ?f, OF len] by blast
  note logs = bio_frame_log [OF t(2)] bio_frame_log [OF t(9)]
  have "write_head s = Ok () t"
    using t(1,3) logs p(3) by (simp add: write_head_def Let_def header_of_def)
  moreover have "data d t = (data d s)(?x := v)" using t(5) by (simp add: data_def fun_eq_iff v_def)
  moreover have "quiet d t" "used d t = used d s"
    using t(4,5,8) p q logs(2) by (auto simp: quiet_def used_def)
  ultimately show ?thesis
    using t(5-7) logs(2) by (intro exI [of _ t]) (auto simp: ran_def v_def data_def)
qed

section \<open>Commit\<close>

definition log_area :: "log \<Rightarrow> u32 set" where
  "log_area l = (\<lambda>k. lg_start l + of_nat k) ` {0..<nat (lg_size l)}"

lemma slot_area:
  "0 < lg_size l \<Longrightarrow> lg_start l \<in> log_area l" "Suc i < nat (lg_size l) \<Longrightarrow> slot_of l i \<in> log_area l"
  "i < LOGSIZE \<Longrightarrow> slot_of l i \<noteq> lg_start l"
  "i < LOGSIZE \<Longrightarrow> j < LOGSIZE \<Longrightarrow> slot_of l i = slot_of l j \<longleftrightarrow> i = j"
proof -
  have s: "slot_of l i = lg_start l + of_nat (Suc i)" for i by (simp add: slot_of_def)
  show "0 < lg_size l \<Longrightarrow> lg_start l \<in> log_area l" unfolding log_area_def by (rule image_eqI [of _ _ 0]) simp_all
  show "Suc i < nat (lg_size l) \<Longrightarrow> slot_of l i \<in> log_area l"
    unfolding log_area_def s by (rule image_eqI [of _ _ "Suc i"]) simp_all
  have "unat (of_nat (Suc i) :: u32) = Suc i" if "i < LOGSIZE" for i
    using that by (intro unat_of_nat_small) (simp add: LOGSIZE_def)
  then have inj: "(of_nat (Suc i) :: u32) = of_nat (Suc j) \<longleftrightarrow> i = j" and nz: "(of_nat (Suc i) :: u32) \<noteq> 0"
    if "i < LOGSIZE" "j < LOGSIZE" for i j
    using that by (metis nat.inject, metis Zero_not_Suc unat_0)
  show "i < LOGSIZE \<Longrightarrow> slot_of l i \<noteq> lg_start l" using nz unfolding s by simp
  show "i < LOGSIZE \<Longrightarrow> j < LOGSIZE \<Longrightarrow> slot_of l i = slot_of l j \<longleftrightarrow> i = j"
    using inj unfolding s by (simp del: of_nat_Suc)
qed

text \<open>
  A transaction that is ready to commit: its blocks are different, lie outside the log and
  are pinned in the cache, and one buffer is left for the log's own blocks.
\<close>

abbreviation entries :: "log \<Rightarrow> nat list" where
  "entries l \<equiv> [0..<nat (lh_n l)]"

definition txn_ok :: "u32 \<Rightarrow> 'z klog_scheme \<Rightarrow> bool" where
  "txn_ok d s \<longleftrightarrow> quiet d s \<and> lh_n (log s) \<le> int LOGSIZE \<and> lh_n (log s) < lg_size (log s) \<and> length (lh_block (log s)) = LOGSIZE \<and>
     distinct (map (home (log s)) (entries (log s))) \<and>
     (\<forall>i < nat (lh_n (log s)). home (log s) i \<notin> log_area (log s) \<and> home (log s) i \<in> used d s) \<and>
     card (used d s) < NBUF"

definition log_writes :: "u32 \<Rightarrow> 'z klog_scheme \<Rightarrow> (u32 \<times> u8 list) list" where
  "log_writes d s = map (\<lambda>i. (slot_of (log s) i, data d s (home (log s) i))) (entries (log s))"

definition home_writes :: "u32 \<Rightarrow> 'z klog_scheme \<Rightarrow> (u32 \<times> u8 list) list" where
  "home_writes d s = map (\<lambda>i. (home (log s) i, data d s (home (log s) i))) (entries (log s))"

definition head_full :: "u32 \<Rightarrow> 'z klog_scheme \<Rightarrow> u8 list" where
  "head_full d s =
     header_of (lh_n (log s)) (take (nat (lh_n (log s))) (lh_block (log s))) (data d s (lg_start (log s)))"

definition commit_writes :: "u32 \<Rightarrow> 'z klog_scheme \<Rightarrow> (u32 \<times> u8 list) list" where
  "commit_writes d s =
     log_writes d s @ [(lg_start (log s), head_full d s)] @ home_writes d s @
     [(lg_start (log s), header_of 0 [] (head_full d s))]"

lemma txnD:
  assumes "txn_ok d s"
  shows "quiet d s" "distinct (map (home (log s)) (entries (log s)))" "card (used d s) < NBUF"
    "\<And>i. i \<in> set (entries (log s)) \<Longrightarrow> i < LOGSIZE"
    "\<And>i. i \<in> set (entries (log s)) \<Longrightarrow> home (log s) i \<notin> log_area (log s)"
    "\<And>i. i \<in> set (entries (log s)) \<Longrightarrow> home (log s) i \<in> used d s"
    "\<And>i. i \<in> set (entries (log s)) \<Longrightarrow> Suc i < nat (lg_size (log s))"
    "0 \<le> lh_n (log s) \<Longrightarrow> 0 < lg_size (log s)"
  using assms by (auto simp: txn_ok_def)

lemma txn_apart:
  assumes txn: "txn_ok d s" and i: "i \<in> set (entries (log s))"
  shows "j \<in> set (entries (log s)) \<Longrightarrow> slot_of (log s) i \<noteq> home (log s) j"
    and "home (log s) i \<noteq> lg_start (log s)" and "slot_of (log s) i \<noteq> lg_start (log s)"
    and "card (used d s \<union> {slot_of (log s) i, home (log s) i}) \<le> NBUF"
proof -
  note D = txnD [OF txn]
  have "slot_of (log s) i \<in> log_area (log s)" using slot_area(2) D(7) [OF i] by blast
  then show "j \<in> set (entries (log s)) \<Longrightarrow> slot_of (log s) i \<noteq> home (log s) j" using D(5) by metis
  have "0 < lg_size (log s)" using D(7) [OF i] by simp
  then show "home (log s) i \<noteq> lg_start (log s)" using D(5) [OF i] slot_area(1) by metis
  show "slot_of (log s) i \<noteq> lg_start (log s)" using slot_area(3) D(4) [OF i] by blast
  have "used d s \<union> {slot_of (log s) i, home (log s) i} = insert (slot_of (log s) i) (used d s)"
    using D(6) [OF i] by blast
  then show "card (used d s \<union> {slot_of (log s) i, home (log s) i}) \<le> NBUF"
    using D(3) finite_used [OF D(1)] by (simp add: card_insert_if)
qed

text \<open>What the disk holds after the writes of each stage.\<close>

lemma after_log_writes:
  assumes txn: "txn_ok d s"
  shows "i \<in> set (entries (log s)) \<Longrightarrow>
      apply_writes (log_writes d s) D (slot_of (log s) i) = data d s (home (log s) i)"
    and "apply_writes (take k (log_writes d s)) D (lg_start (log s)) = D (lg_start (log s))"
    and "x \<notin> log_area (log s) \<Longrightarrow> apply_writes (take k (log_writes d s)) D x = D x"
proof -
  let ?l = "log s"
  note D = txnD [OF txn] and A = txn_apart [OF txn]
  define g where "g y = data d s (home ?l (THE i. i \<in> set (entries ?l) \<and> slot_of ?l i = y))" for y
  have g: "g (slot_of ?l j) = data d s (home ?l j)" if j: "j \<in> set (entries ?l)" for j
  proof -
    have "(THE i. i \<in> set (entries ?l) \<and> slot_of ?l i = slot_of ?l j) = j"
    proof (rule the_equality)
      fix i assume "i \<in> set (entries ?l) \<and> slot_of ?l i = slot_of ?l j"
      then show "i = j" using slot_area(4) D(4) [of i] D(4) [OF j] by blast
    qed (use j in simp)
    then show ?thesis by (simp add: g_def)
  qed
  show "apply_writes (log_writes d s) D (slot_of ?l i) = data d s (home ?l i)" if i: "i \<in> set (entries ?l)"
  proof -
    have "apply_writes (log_writes d s) D (slot_of ?l i) = g (slot_of ?l i)"
    proof (rule apply_writes_fun)
      fix y v assume "(y, v) \<in> set (log_writes d s)"
      then show "v = g y" using g unfolding log_writes_def by auto
    qed (use i in \<open>simp add: log_writes_def image_image\<close>)
    then show ?thesis using g [OF i] by simp
  qed
  show "apply_writes (take k (log_writes d s)) D (lg_start ?l) = D (lg_start ?l)"
  proof (rule apply_writes_other)
    have "lg_start ?l \<notin> fst ` set (log_writes d s)"
      using A(3) by (force simp: log_writes_def)
    then show "lg_start ?l \<notin> fst ` set (take k (log_writes d s))" using set_take_subset by fastforce
  qed
  show "apply_writes (take k (log_writes d s)) D x = D x" if x: "x \<notin> log_area ?l"
  proof (rule apply_writes_other)
    have "fst ` set (log_writes d s) \<subseteq> log_area ?l"
      using slot_area(2) D(7) unfolding log_writes_def by auto
    then show "x \<notin> fst ` set (take k (log_writes d s))" using x set_take_subset by fastforce
  qed
qed

lemma after_home_writes:
  "apply_writes (home_writes d s) D x =
     (if x \<in> home (log s) ` set (entries (log s)) then data d s x else D x)"
proof (cases "x \<in> home (log s) ` set (entries (log s))")
  case True
  then have "apply_writes (home_writes d s) D x = data d s x"
    by (intro apply_writes_fun) (auto simp: home_writes_def image_image)
  then show ?thesis using True by simp
next
  case False
  then have "x \<notin> fst ` set (home_writes d s)" by (simp add: home_writes_def image_image)
  then show ?thesis using apply_writes_other [of x "home_writes d s"] False by simp
qed

text \<open>The four stages of a commit, in order.\<close>

lemma commit_logs:
  assumes txn: "txn_ok d s"
  shows "\<exists>t. write_log s = Ok () t \<and> log t = log s \<and> ran d (log_writes d s) s t \<and>
    (\<forall>x. a_refs (blk d t x) = a_refs (blk d s x))"
  using write_log_loop_runs [OF txnD(1) [OF txn] refl txn_apart(4) [OF txn] txn_apart(1) [OF txn]]
  unfolding write_log_def log_writes_def by blast

lemma commit_heads:
  assumes txn: "txn_ok d s" and t: "log t = log s" "ran d (log_writes d s) s t"
  shows "\<exists>r. write_head t = Ok () r \<and> log r = log s \<and> ran d [(lg_start (log s), head_full d s)] t r \<and>
    (\<forall>x. a_refs (blk d r x) = a_refs (blk d t x))"
proof -
  have q: "quiet d t" and u: "used d t \<subseteq> used d s" using t(2) by (simp_all add: ran_def)
  have "data d t (lg_start (log s)) = data d s (lg_start (log s))"
    using t(2) after_log_writes(2) [OF txn, of "length (log_writes d s)"] by (simp add: ran_def)
  moreover have "card (used d t) < NBUF"
    using card_mono [OF finite_used [OF txnD(1) [OF txn]] u] txnD(3) [OF txn] by simp
  ultimately show ?thesis
    using write_head_runs [OF q] unfolding t(1) head_full_def by simp
qed

lemma commit_installs:
  assumes txn: "txn_ok d s" and t: "log t = log s" "quiet d t"
    and refs: "\<forall>x. a_refs (blk d t x) = a_refs (blk d s x)"
    and slots: "\<And>i. i \<in> set (entries (log s)) \<Longrightarrow> data d t (slot_of (log s) i) = data d s (home (log s) i)"
  shows "\<exists>r. install_trans False t = Ok () r \<and> log r = log s \<and> ran d (home_writes d s) t r \<and>
    (\<forall>x. a_refs (blk d r x) = a_refs (blk d s x) - (if x \<in> home (log s) ` set (entries (log s)) then 1 else 0))"
proof -
  let ?l = "log s"
  have u: "used d t = used d s" using refs by (simp add: used_def)
  have hw: "map (\<lambda>i. (home ?l i, data d t (slot_of ?l i))) (entries ?l) = home_writes d s"
    using slots by (simp add: home_writes_def)
  have "\<exists>r. install_loop (entries ?l) False t = Ok () r \<and> log r = ?l \<and>
      ran d (map (\<lambda>i. (home ?l i, data d t (slot_of ?l i))) (entries ?l)) t r \<and>
      (\<forall>x. a_refs (blk d r x) = a_refs (blk d t x) - (if x \<in> home ?l ` set (entries ?l) \<and> \<not> False then 1 else 0))"
  proof (rule install_loop_runs [OF t(2,1)])
    show "card (used d t \<union> {slot_of ?l i, home ?l i}) \<le> NBUF" if "i \<in> set (entries ?l)" for i
      unfolding u using that by (rule txn_apart(4) [OF txn])
    show "slot_of ?l i \<noteq> home ?l j" if "i \<in> set (entries ?l)" "j \<in> set (entries ?l)" for i j
      using that by (rule txn_apart(1) [OF txn])
    show "home ?l i \<in> used d t" if "i \<in> set (entries ?l)" for i
      unfolding u using that by (rule txnD(6) [OF txn])
  qed (rule txnD(2) [OF txn])
  then show ?thesis unfolding hw install_trans_def t(1) refs [rule_format] by simp
qed

lemma commit_runs:
  assumes txn: "txn_ok d s" and pos: "0 < lh_n (log s)"
  shows "\<exists>t. commit s = Ok () t \<and> ran d (commit_writes d s) s t \<and> log t = (log s)\<lparr>lh_n := 0\<rparr> \<and>
    (\<forall>x. a_refs (blk d t x) = a_refs (blk d s x) - (if x \<in> home (log s) ` set (entries (log s)) then 1 else 0))"
proof -
  let ?l = "log s" and ?x = "lg_start (log s)" and ?h = "head_full d s"
  obtain t1 where t1: "write_log s = Ok () t1" "log t1 = ?l" "ran d (log_writes d s) s t1"
      "\<forall>x. a_refs (blk d t1 x) = a_refs (blk d s x)"
    using commit_logs [OF txn] by blast
  obtain t2 where t2: "write_head t1 = Ok () t2" "log t2 = ?l" "ran d [(?x, ?h)] t1 t2"
      "\<forall>x. a_refs (blk d t2 x) = a_refs (blk d t1 x)"
    using commit_heads [OF txn t1(2,3)] by blast
  have r2: "\<forall>x. a_refs (blk d t2 x) = a_refs (blk d s x)" and q2: "quiet d t2"
    using t1(4) t2(3,4) by (simp_all add: ran_def)
  have slots: "data d t2 (slot_of ?l i) = data d s (home ?l i)" if "i \<in> set (entries ?l)" for i
    using t1(3) t2(3) after_log_writes(1) [OF txn that] txn_apart(3) [OF txn that] by (simp add: ran_def)
  obtain t3 where t3: "install_trans False t2 = Ok () t3" "log t3 = ?l" "ran d (home_writes d s) t2 t3"
      "\<forall>x. a_refs (blk d t3 x) = a_refs (blk d s x) - (if x \<in> home ?l ` set (entries ?l) then 1 else 0)"
    using commit_installs [OF txn t2(2) q2 r2 slots] by blast
  let ?t3 = "upd_log (\<lambda>l. l\<lparr>lh_n := 0\<rparr>) t3"
  have q3: "quiet d ?t3" and u3: "used d ?t3 \<subseteq> used d s"
    using t1(3) t2(3) t3(3) by (auto simp: quiet_def ran_def)
  have d3: "data d ?t3 ?x = ?h"
    using t2(3) t3(3) after_home_writes [of d s] txn_apart(2) [OF txn] by (force simp: ran_def)
  have "card (used d ?t3) < NBUF"
    using card_mono [OF finite_used [OF txnD(1) [OF txn]] u3] txnD(3) [OF txn] by simp
  then obtain t4 where t4: "write_head ?t3 = Ok () t4" "log t4 = ?l\<lparr>lh_n := 0\<rparr>"
      "ran d [(?x, header_of 0 [] ?h)] ?t3 t4" "\<forall>x. a_refs (blk d t4 x) = a_refs (blk d t3 x)"
    using write_head_runs [OF q3] t3(2) d3 by auto
  have "ran d [(?x, header_of 0 [] ?h)] t3 t4" using t4(3) by (simp add: ran_def)
  then have "ran d (commit_writes d s) s t4"
    unfolding commit_writes_def by (intro ran_trans [OF t1(3)] ran_trans [OF t2(3)] ran_trans [OF t3(3)])
  moreover have "commit s = Ok () t4" using pos t1(1) t2(1) t3(1) t4(1) by (simp add: commit_def)
  ultimately show ?thesis using t4(2,4) t3(4) by auto
qed

section \<open>Recovery\<close>

definition head_count :: "u8 list \<Rightarrow> int" where
  "head_count h = sint (get32 h 0)"

definition head_blocks :: "u8 list \<Rightarrow> u32 list" where
  "head_blocks h = map (\<lambda>i. get32 h (4 + 4 * i)) [0..<nat (head_count h)]"

lemma read_head_runs:
  assumes q: "quiet d s" and room: "card (used d s) < NBUF"
    and n: "head_count (data d s (lg_start (log s))) \<le> int LOGSIZE"
  defines "h \<equiv> data d s (lg_start (log s))"
  shows "\<exists>t. read_head s = Ok () t \<and> ran d [] s t \<and>
    log t = (log s)\<lparr>lh_n := head_count h,
      lh_block := head_blocks h @ drop (nat (head_count h)) (lh_block (log s))\<rparr>"
proof -
  let ?x = "lg_start (log s)" and ?n = "head_count h"
  obtain p where p: "bc_inv d s" "mypid s = Some p" "lg_dev (log s) = d"
      "\<And>x. a_owner (blk d s x) = None" "\<And>x. a_refs (blk d s x) < 2 ^ 32 - 1"
    using quietD [OF q] by metis
  let ?e = "blk d s ?x"
  obtain b s1 where b: "bread d ?x s = Ok b s1" "holds d b ?x s1"
      "bstep d ?x (?e\<lparr>a_refs := Suc (a_refs ?e), a_owner := Some p\<rparr>) [] s s1"
    using bread_law [OF p(1,2,4,5)] room unfolding spare_buf_def used_def by blast
  note D1 = bstepD [OF b(3)]
  have l1: "log s1 = log s" by (rule bio_frame_log [OF D1(6)])
  have h1: "b_data (bcache s1 ! b) = h"
    using holds_data [OF D1(1) b(2)] D1(2) by (simp add: h_def data_def)
  let ?f = "\<lambda>l. (l\<lparr>lh_n := ?n\<rparr>)\<lparr>lh_block := head_blocks h @ drop (nat ?n) (lh_block l)\<rparr>"
  let ?s2 = "upd_log ?f s1"
  have e2: "blk d ?s2 ?x = ?e\<lparr>a_refs := Suc (a_refs ?e), a_owner := Some p\<rparr>" "disk ?s2 = disk s"
    using D1(2,3) by simp_all
  have cl: "a_refs (blk d ?s2 ?x) = 1 \<longrightarrow> a_data (blk d ?s2 ?x) = disk ?s2 ?x"
    using blk_unused [OF p(1), of ?x] unfolding e2 by simp
  obtain t where t: "brelse b ?s2 = Ok () t"
      "bstep d ?x ((blk d ?s2 ?x)\<lparr>a_refs := a_refs (blk d ?s2 ?x) - 1, a_owner := None\<rparr>) [] ?s2 t"
    using brelse_law [OF _ _ _ _ _ cl, of b p] D1(1,5) b(2) e2(1) p(2) by auto
  note D2 = bstepD [OF t(2)]
  have "(blk d ?s2 ?x)\<lparr>a_refs := a_refs (blk d ?s2 ?x) - 1, a_owner := None\<rparr> = ?e"
    unfolding e2(1) using p(4) by (intro ablk.equality) simp_all
  then have bt: "blk d t = blk d s" using D1(2) D2(2) by simp
  have "read_head s = Ok () t"
    using b(1) t(1) n p(3)
    by (simp add: read_head_def Let_def h1 upd_log_def head_count_def head_blocks_def h_def [symmetric] l1)
  moreover have "log t = ?f (log s)" using bio_frame_log [OF D2(6)] l1 by simp
  moreover have "ran d [] s t"
    using D1(3-5) D2(1,3-5) bt q \<open>log t = ?f (log s)\<close>
    by (simp add: ran_def quiet_def data_def used_def fun_eq_iff)
  ultimately show ?thesis by auto
qed

text \<open>
  Recovery with an empty cache: the blocks named by the header are copied from the log to
  their homes, and the header is cleared.
\<close>

lemma recover_runs:
  assumes q: "quiet d s" and none: "used d s = {}"
    and n: "head_count (disk s (lg_start (log s))) \<le> int LOGSIZE"
    and out: "\<And>i j. i < nat (head_count (disk s (lg_start (log s)))) \<Longrightarrow>
      j < nat (head_count (disk s (lg_start (log s)))) \<Longrightarrow>
      slot_of (log s) i \<noteq> head_blocks (disk s (lg_start (log s))) ! j"
  defines "h \<equiv> disk s (lg_start (log s))"
  shows "\<exists>t. recover_from_log s = Ok () t \<and> lh_n (log t) = 0 \<and> quiet d t \<and> used d t = {} \<and>
    (\<exists>v. disk t = apply_writes (map (\<lambda>i. (head_blocks h ! i, disk s (slot_of (log s) i))) [0..<nat (head_count h)] @
      [(lg_start (log s), v)]) (disk s))"
proof -
  let ?x = "lg_start (log s)" and ?n = "head_count h"
  have inv: "bc_inv d s" using q by (simp add: quiet_def)
  have ds: "data d s = disk s"
  proof
    fix x
    have "a_refs (blk d s x) = 0" using none unfolding used_def by blast
    then show "data d s x = disk s x" using blk_unused [OF inv] by (simp add: data_def)
  qed
  have room: "card (used d s) < NBUF" using none by (simp add: NBUF_def)
  define l where "l = (log s)\<lparr>lh_n := ?n, lh_block := head_blocks h @ drop (nat ?n) (lh_block (log s))\<rparr>"
  obtain t1 where t1: "read_head s = Ok () t1" "ran d [] s t1" "log t1 = l"
    using read_head_runs [OF q room] n unfolding ds l_def h_def by blast
  have r1: "quiet d t1" "used d t1 = {}" "data d t1 = disk s" "disk t1 = disk s"
    using t1(2) none ds by (auto simp: ran_def)
  have sl: "slot_of l i = slot_of (log s) i" "lg_start l = ?x" "lh_n l = ?n" for i
    by (simp_all add: l_def slot_of_def)
  have hm: "home l i = head_blocks h ! i" if "i \<in> set (entries l)" for i
    using that by (simp add: sl(3) home_def l_def nth_append head_blocks_def)
  have "\<exists>t. install_loop (entries l) True t1 = Ok () t \<and> log t = l \<and>
      ran d (map (\<lambda>i. (home l i, data d t1 (slot_of l i))) (entries l)) t1 t \<and>
      (\<forall>x. a_refs (blk d t x) = a_refs (blk d t1 x) - (if x \<in> home l ` set (entries l) \<and> \<not> True then 1 else 0))"
  proof (rule install_loop_runs [OF r1(1) t1(3)])
    show "card (used d t1 \<union> {slot_of l i, home l i}) \<le> NBUF" for i
      unfolding r1(2) by (simp add: card_insert_if NBUF_def)
    show "slot_of l i \<noteq> home l j" if "i \<in> set (entries l)" "j \<in> set (entries l)" for i j
      using out [of i j] that hm [OF that(2)] by (simp add: sl h_def [symmetric])
  qed simp_all
  then obtain t2 where t2: "install_trans True t1 = Ok () t2" "log t2 = l"
      "ran d (map (\<lambda>i. (home l i, data d t1 (slot_of l i))) (entries l)) t1 t2"
    unfolding install_trans_def t1(3) by blast
  let ?t2 = "upd_log (\<lambda>l. l\<lparr>lh_n := 0\<rparr>) t2"
  have r2: "quiet d ?t2" "used d ?t2 = {}" using t2(3) r1(2) by (auto simp: ran_def quiet_def)
  obtain t3 v where t3: "write_head ?t2 = Ok () t3" "log t3 = l\<lparr>lh_n := 0\<rparr>" "ran d [(?x, v)] ?t2 t3"
    using write_head_runs [OF r2(1)] r2(2) t2(2) sl(2) by (auto simp: NBUF_def)
  have "map (\<lambda>i. (home l i, data d t1 (slot_of l i))) (entries l) =
      map (\<lambda>i. (head_blocks h ! i, disk s (slot_of (log s) i))) [0..<nat ?n]"
    using hm by (simp add: sl r1(3))
  then have "disk t3 = apply_writes (map (\<lambda>i. (head_blocks h ! i, disk s (slot_of (log s) i))) [0..<nat ?n] @
      [(?x, v)]) (disk s)"
    using t2(3) t3(3) r1(4) by (simp add: ran_def apply_writes_append)
  moreover have "recover_from_log s = Ok () t3" using t1(1) t2(1) t3(1) by (simp add: recover_from_log_def)
  moreover have "quiet d t3" "used d t3 = {}" using t3(3) r2(2) by (auto simp: ran_def)
  ultimately show ?thesis using t3(2) by auto
qed

section \<open>Crashes\<close>

text \<open>
  A machine that has just restarted: the buffers are as the zeroed data segment has them and
  the first process runs. Booting sets up the cache and the log.
\<close>

definition restarted :: "'z klog_scheme \<Rightarrow> bool" where
  "restarted r \<longleftrightarrow> length (bcache r) = NBUF + 1 \<and> (\<forall>i < NBUF. fresh_buf (bcache r ! i)) \<and> mypid r \<noteq> None"

lemma boot_log:
  assumes r: "restarted r" and D: "\<And>x. length (disk r x) = BSIZE" and d: "d \<noteq> 0"
    and n: "head_count (disk r (sb_logstart sb)) \<le> int LOGSIZE"
    and l: "lg_start l = sb_logstart sb"
    and out: "\<And>i j. i < nat (head_count (disk r (sb_logstart sb))) \<Longrightarrow>
      j < nat (head_count (disk r (sb_logstart sb))) \<Longrightarrow> slot_of l i \<noteq> head_blocks (disk r (sb_logstart sb)) ! j"
  defines "h \<equiv> disk r (sb_logstart sb)"
  shows "\<exists>u v. initlog d sb (binit r) = Ok () u \<and>
    disk u = apply_writes (map (\<lambda>i. (head_blocks h ! i, disk r (slot_of l i))) [0..<nat (head_count h)] @
      [(sb_logstart sb, v)]) (disk r)"
proof -
  let ?s = "upd_log (\<lambda>l. l\<lparr>lg_start := sb_logstart sb, lg_size := sint (sb_nlog sb), lg_dev := d\<rparr>) (binit r)"
  note B = binit_establishes [of r, OF _ _ D d]
  have len: "length (bcache r) = NBUF + 1" and fresh: "\<And>i. i < NBUF \<Longrightarrow> fresh_buf (bcache r ! i)"
    using r by (simp_all add: restarted_def)
  obtain bs where bs: "binit r = r\<lparr>bcache := bs\<rparr>" using B(3) [OF len fresh] by blast
  have "mypid (binit r) = mypid r" by (simp add: bs mypid_def myproc_def)
  then have q: "quiet d ?s" and none: "used d ?s = {}"
    using B(1) [OF len fresh] B(2) [OF len fresh] r by (simp_all add: quiet_def used_def restarted_def)
  have dk: "disk ?s = disk r" "lg_start (log ?s) = sb_logstart sb" by (simp_all add: bs)
  have sl: "slot_of (log ?s) i = slot_of l i" for i
    using l by (simp add: slot_of_def)
  have n': "head_count (disk ?s (lg_start (log ?s))) \<le> int LOGSIZE"
    and out': "\<And>i j. i < nat (head_count (disk ?s (lg_start (log ?s)))) \<Longrightarrow>
      j < nat (head_count (disk ?s (lg_start (log ?s)))) \<Longrightarrow>
      slot_of (log ?s) i \<noteq> head_blocks (disk ?s (lg_start (log ?s))) ! j"
    unfolding dk sl by (rule n, rule out)
  have "initlog d sb (binit r) = recover_from_log ?s" by (simp add: initlog_def LOGSIZE_def BSIZE_def)
  then show ?thesis
    using recover_runs [OF q none n' out'] unfolding dk sl h_def by auto
qed

lemma head_full_blocks:
  assumes txn: "txn_ok d s" and pos: "0 \<le> lh_n (log s)"
  shows "head_count (head_full d s) = lh_n (log s)"
    and "head_blocks (head_full d s) = map (home (log s)) (entries (log s))"
proof -
  let ?n = "lh_n (log s)"
  have n: "?n \<le> 30" "length (lh_block (log s)) = 30" and inv: "bc_inv d s"
    using txn by (simp_all add: txn_ok_def LOGSIZE_def quiet_def)
  have len: "length (data d s (lg_start (log s))) = 1024"
    using blk_length [OF inv] by (simp add: data_def BSIZE_def)
  show c: "head_count (head_full d s) = ?n"
    unfolding head_count_def head_full_def using n(1) pos len by (intro header_of_count) simp_all
  show "head_blocks (head_full d s) = map (home (log s)) (entries (log s))"
    unfolding head_blocks_def c
    by (rule map_cong [OF refl], unfold head_full_def, subst header_of_block)
      (use n len in \<open>simp_all add: home_def\<close>)
qed

lemma apply_snoc_other: "y \<noteq> x \<Longrightarrow> apply_writes (ws @ [(x, v)]) D y = apply_writes ws D y"
  by (simp add: apply_writes_append)

text \<open>Before the header is written a crash loses the transaction and nothing else.\<close>

lemma crash_before:
  assumes txn: "txn_ok d s" and pos: "0 \<le> lh_n (log s)" and old: "head_count (disk s (lg_start (log s))) = 0"
    and r: "restarted r" "sb_logstart sb = lg_start (log s)"
    and D: "disk r = apply_writes (take k (log_writes d s)) (disk s)" "\<And>x. length (disk r x) = BSIZE"
  shows "\<exists>u. initlog d sb (binit r) = Ok () u \<and> (\<forall>x. x \<notin> log_area (log s) \<longrightarrow> disk u x = disk s x)"
proof -
  have d: "d \<noteq> 0" using txnD(1) [OF txn] by (simp add: quiet_def bc_inv_def)
  have h: "head_count (disk r (sb_logstart sb)) = 0"
    using old after_log_writes(2) [OF txn] by (simp add: D(1) r(2))
  then obtain u v where u: "initlog d sb (binit r) = Ok () u" "disk u = apply_writes [(sb_logstart sb, v)] (disk r)"
    using boot_log [OF r(1) D(2) d _ r(2) [symmetric]] by (auto simp: head_blocks_def)
  have "disk u x = disk s x" if "x \<notin> log_area (log s)" for x
    using that slot_area(1) [OF txnD(8) [OF txn pos]] after_log_writes(3) [OF txn that] u(2) D(1) r(2) by auto
  then show ?thesis using u(1) by blast
qed

text \<open>Once the header is written recovery completes the transaction.\<close>

lemma crash_after:
  assumes txn: "txn_ok d s" and pos: "0 \<le> lh_n (log s)"
    and r: "restarted r" "sb_logstart sb = lg_start (log s)"
    and D: "disk r = apply_writes (log_writes d s @ [(lg_start (log s), head_full d s)] @ take k (home_writes d s)) (disk s)"
      "\<And>x. length (disk r x) = BSIZE"
  shows "\<exists>u. initlog d sb (binit r) = Ok () u \<and> (\<forall>x. x \<notin> log_area (log s) \<longrightarrow>
    disk u x = (if x \<in> home (log s) ` set (entries (log s)) then data d s x else disk s x))"
proof -
  let ?l = "log s" and ?x = "lg_start (log s)"
  let ?H = "home ?l ` set (entries ?l)"
  let ?m = "map (\<lambda>i. (home ?l i, disk r (slot_of ?l i))) (entries ?l)"
  note T = txnD [OF txn]
  have d: "d \<noteq> 0" using T(1) by (simp add: quiet_def bc_inv_def)
  have keys: "fst ` set (take k (home_writes d s)) \<subseteq> ?H"
    using set_take_subset [of k "home_writes d s"] by (fastforce simp: home_writes_def)
  have Hout: "?H \<inter> log_area ?l = {}" using T(5) by blast
  have area: "disk r y = apply_writes (log_writes d s @ [(?x, head_full d s)]) (disk s) y" if "y \<in> log_area ?l" for y
    using that keys Hout unfolding D(1) append_assoc [symmetric]
    by (subst apply_writes_append, subst apply_writes_other) auto
  have hx: "disk r ?x = head_full d s" using area [OF slot_area(1) [OF T(8) [OF pos]]] by (simp add: apply_writes_append)
  have hs: "disk r (slot_of ?l i) = data d s (home ?l i)" if "i \<in> set (entries ?l)" for i
    using area [OF slot_area(2) [OF T(7) [OF that]]] txn_apart(3) [OF txn that] after_log_writes(1) [OF txn that]
    by (simp add: apply_snoc_other)
  note hb = head_full_blocks [OF txn pos]
  have n: "head_count (disk r (sb_logstart sb)) \<le> int LOGSIZE"
    using txn by (simp_all add: r(2) hx hb txn_ok_def)
  have out: "slot_of ?l i \<noteq> head_blocks (disk r (sb_logstart sb)) ! j"
    if "i < nat (head_count (disk r (sb_logstart sb)))" "j < nat (head_count (disk r (sb_logstart sb)))" for i j
    using that txn_apart(1) [OF txn, of i j] by (simp add: r(2) hx hb)
  have m: "map (\<lambda>i. (head_blocks (head_full d s) ! i, disk r (slot_of ?l i))) (entries ?l) = home_writes d s"
    using hs by (simp add: hb home_writes_def)
  obtain u v where u: "initlog d sb (binit r) = Ok () u"
      "disk u = apply_writes (home_writes d s @ [(?x, v)]) (disk r)"
    using boot_log [OF r(1) D(2) d n r(2) [symmetric] out] unfolding r(2) hx hb(1) m by blast
  have "disk u x = (if x \<in> ?H then data d s x else disk s x)" if x: "x \<notin> log_area ?l" for x
  proof -
    have nx: "x \<noteq> ?x" using x slot_area(1) [OF txnD(8) [OF txn pos]] by metis
    have "disk r x = disk s x" if "x \<notin> ?H"
    proof -
      have "disk r x = apply_writes (log_writes d s @ [(?x, head_full d s)]) (disk s) x"
        unfolding D(1) append_assoc [symmetric] using keys that
        by (subst apply_writes_append, subst apply_writes_other) auto
      then show ?thesis
        using after_log_writes(3) [OF txn x, of "length (log_writes d s)"] nx by (simp add: apply_snoc_other)
    qed
    then show ?thesis unfolding u(2) by (simp add: apply_snoc_other [OF nx] after_home_writes)
  qed
  then show ?thesis using u(1) by blast
qed

lemma crash_done:
  assumes txn: "txn_ok d s" and pos: "0 \<le> lh_n (log s)"
    and r: "restarted r" "sb_logstart sb = lg_start (log s)"
    and D: "disk r = apply_writes (commit_writes d s) (disk s)" "\<And>x. length (disk r x) = BSIZE"
  shows "\<exists>u. initlog d sb (binit r) = Ok () u \<and> (\<forall>x. x \<notin> log_area (log s) \<longrightarrow>
    disk u x = (if x \<in> home (log s) ` set (entries (log s)) then data d s x else disk s x))"
proof -
  let ?l = "log s" and ?x = "lg_start (log s)"
  have d: "d \<noteq> 0" and inv: "bc_inv d s" using txnD(1) [OF txn] by (simp_all add: quiet_def bc_inv_def)
  have "length (head_full d s) = BSIZE" using blk_length [OF inv] by (simp add: head_full_def data_def)
  then have h: "head_count (disk r (sb_logstart sb)) = 0"
    by (simp add: D(1) r(2) commit_writes_def apply_writes_append head_count_def header_of_def BSIZE_def)
  then obtain u v where u: "initlog d sb (binit r) = Ok () u" "disk u = apply_writes [(?x, v)] (disk r)"
    using boot_log [OF r(1) D(2) d _ r(2) [symmetric]] r(2) by (auto simp: head_blocks_def)
  have "disk u x = (if x \<in> home ?l ` set (entries ?l) then data d s x else disk s x)" if x: "x \<notin> log_area ?l" for x
  proof -
    have nx: "x \<noteq> ?x" using x slot_area(1) [OF txnD(8) [OF txn pos]] by metis
    then show ?thesis
      using after_log_writes(3) [OF txn x, of "length (log_writes d s)" "disk s"]
      by (simp add: u(2) D(1) commit_writes_def apply_writes_append after_home_writes)
  qed
  then show ?thesis using u(1) by blast
qed

lemma apply_writes_length:
  assumes "\<And>x v. (x, v) \<in> set ws \<Longrightarrow> length v = n" and "\<And>x. length (D x) = n"
  shows "length (apply_writes ws D x) = n"
  using assms
proof (induction ws arbitrary: D)
  case (Cons w ws)
  obtain y v where w: "w = (y, v)" by force
  have v: "length v = n" using Cons.prems(1) [of y v] w by simp
  have "length (apply_writes ws (D(y := v)) x) = n"
    by (rule Cons.IH) (use Cons.prems v in auto)
  then show ?case by (simp add: w)
qed simp

lemma crash_length:
  assumes "txn_ok d s"
  shows "length (apply_writes (take k (commit_writes d s)) (disk s) x) = BSIZE"
proof (rule apply_writes_length)
  have inv: "bc_inv d s" using txnD(1) [OF assms] by (simp add: quiet_def)
  fix y v assume "(y, v) \<in> set (take k (commit_writes d s))"
  then have "(y, v) \<in> set (commit_writes d s)" using set_take_subset by fast
  then show "length v = BSIZE"
    using blk_length [OF inv]
    by (auto simp: commit_writes_def log_writes_def home_writes_def head_full_def data_def)
qed (use txnD(1) [OF assms] in \<open>simp add: quiet_def bc_inv_def\<close>)

text \<open>C1. The log makes a transaction atomic: a commit returns, and if the machine stops after any
  number of its disk writes and restarts, the recovery at boot also returns and leaves every
  block outside the log with its old contents when the header block had not been written,
  and with all blocks of the transaction in their new contents when it had.
\<close>

theorem commit_crash_safe:
  assumes txn: "txn_ok d s" and pos: "0 < lh_n (log s)"
    and old: "head_count (disk s (lg_start (log s))) = 0" and sb: "sb_logstart sb = lg_start (log s)"
  shows "\<exists>t. commit s = Ok () t \<and> writes t = writes s @ commit_writes d s \<and>
    (\<forall>k r. restarted r \<and> disk r = apply_writes (take k (commit_writes d s)) (disk s) \<longrightarrow>
      (\<exists>u. initlog d sb (binit r) = Ok () u \<and> (\<forall>x. x \<notin> log_area (log s) \<longrightarrow>
        disk u x = (if nat (lh_n (log s)) < k \<and> x \<in> home (log s) ` set (entries (log s))
          then data d s x else disk s x))))"
proof -
  let ?n = "nat (lh_n (log s))"
  have "\<exists>u. initlog d sb (binit r) = Ok () u \<and> (\<forall>x. x \<notin> log_area (log s) \<longrightarrow>
      disk u x = (if ?n < k \<and> x \<in> home (log s) ` set (entries (log s)) then data d s x else disk s x))"
    if r: "restarted r" and D: "disk r = apply_writes (take k (commit_writes d s)) (disk s)"
    for k and r :: "'b klog_scheme"
  proof -
    have len: "length (disk r x) = BSIZE" for x unfolding D by (rule crash_length [OF txn])
    have lens: "length (log_writes d s) = ?n" "length (home_writes d s) = ?n"
      by (simp_all add: log_writes_def home_writes_def)
    consider (before) "k \<le> ?n" | (mid) "?n < k" "k \<le> 2 * ?n + 1" | (full) "2 * ?n + 1 < k" by linarith
    then show ?thesis
    proof cases
      case before
      then have "disk r = apply_writes (take k (log_writes d s)) (disk s)"
        by (simp add: D commit_writes_def lens)
      then show ?thesis using crash_before [OF txn _ old r sb _ len] before pos by simp
    next
      case mid
      then have "disk r = apply_writes (log_writes d s @ [(lg_start (log s), head_full d s)] @
          take (k - ?n - 1) (home_writes d s)) (disk s)"
        by (simp add: D commit_writes_def lens take_Cons')
      then show ?thesis using crash_after [OF txn _ r sb _ len] mid pos by simp
    next
      case full
      then have "disk r = apply_writes (commit_writes d s) (disk s)"
        by (simp add: D commit_writes_def lens)
      then show ?thesis using crash_done [OF txn _ r sb _ len] full pos by simp
    qed
  qed
  then show ?thesis using commit_runs [OF txn pos] unfolding ran_def by blast
qed

section \<open>Recording a block\<close>

lemma find_block_index:
  "find_block x ys \<le> length ys \<and> (find_block x ys = length ys \<longleftrightarrow> x \<notin> set ys) \<and>
   (x \<in> set ys \<longrightarrow> ys ! find_block x ys = x)"
  by (induction ys) auto

text \<open>The in-memory header: its entries are different blocks.\<close>

definition log_wf :: "log \<Rightarrow> bool" where
  "log_wf l \<longleftrightarrow> 0 \<le> lh_n l \<and> lh_n l \<le> int LOGSIZE \<and> length (lh_block l) = LOGSIZE \<and>
     distinct (map (home l) (entries l))"

definition logged :: "log \<Rightarrow> u32 set" where
  "logged l = home l ` set (entries l)"

lemma home_take: "nat (lh_n l) \<le> length (lh_block l) \<Longrightarrow> map (home l) (entries l) = take (nat (lh_n l)) (lh_block l)"
  by (rule nth_equalityI) (auto simp: home_def)

lemma logged_take: "log_wf l \<Longrightarrow> logged l = set (take (nat (lh_n l)) (lh_block l))"
  using home_take [of l] unfolding logged_def log_wf_def by (metis nat_int nat_mono set_map)

lemma log_append:
  assumes wf: "log_wf l" and room: "lh_n l < int LOGSIZE" and new: "x \<notin> logged l"
  defines "l' \<equiv> l\<lparr>lh_block := (lh_block l)[nat (lh_n l) := x], lh_n := lh_n l + 1\<rparr>"
  shows "log_wf l'" and "logged l' = insert x (logged l)"
proof -
  let ?n = "nat (lh_n l)"
  have n: "?n < LOGSIZE" "length (lh_block l) = LOGSIZE" "0 \<le> lh_n l" using wf room by (auto simp: log_wf_def)
  have n1: "nat (lh_n l') = Suc ?n" using n(3) by (simp add: l'_def)
  have "take (Suc ?n) ((lh_block l)[?n := x]) = take ?n (lh_block l) @ [x]"
    using n by (simp add: take_Suc_conv_app_nth)
  then have hm: "map (home l') (entries l') = take ?n (lh_block l) @ [x]"
    using home_take [of l'] n n1 by (simp add: l'_def)
  have "map (home l) (entries l) = take ?n (lh_block l)" using n by (intro home_take) simp
  then show "log_wf l'"
    unfolding log_wf_def hm using wf n room new logged_take [OF wf] by (simp add: log_wf_def l'_def)
  have "logged l' = set (map (home l') (entries l'))" by (simp add: logged_def)
  then show "logged l' = insert x (logged l)" unfolding hm logged_take [OF wf] by simp
qed

text \<open>C3. Recording a buffer in the running transaction: a block already recorded is absorbed and
  nothing changes, a new block is appended to the header and pinned in the cache by one
  reference. The entries stay different and within the header, and the disk is not touched.
\<close>

theorem log_write_records:
  assumes inv: "bc_inv d s" and h: "holds d b x s" and few: "a_refs (blk d s x) < 2 ^ 32 - 1"
    and wf: "log_wf (log s)" and room: "lh_n (log s) < int LOGSIZE" "lh_n (log s) < lg_size (log s) - 1"
    and tx: "1 \<le> lg_outstanding (log s)"
  shows "\<exists>t. log_write b s = Ok () t \<and> log_wf (log t) \<and> logged (log t) = insert x (logged (log s)) \<and>
    disk t = disk s \<and> writes t = writes s \<and> bc_inv d t \<and>
    (if x \<in> logged (log s) then t = s
     else lh_n (log t) = lh_n (log s) + 1 \<and>
       blk d t = (blk d s)(x := (blk d s x)\<lparr>a_refs := Suc (a_refs (blk d s x))\<rparr>))"
proof -
  let ?l = "log s" and ?n = "nat (lh_n (log s))"
  define i where "i = find_block x (take ?n (lh_block ?l))"
  have n: "?n < LOGSIZE" "length (lh_block ?l) = LOGSIZE" "0 \<le> lh_n ?l"
    using wf room(1) by (auto simp: log_wf_def)
  have lt: "length (take ?n (lh_block ?l)) = ?n" using n by simp
  note f = find_block_index [of x "take ?n (lh_block ?l)", folded i_def, unfolded lt]
  have lg: "logged ?l = set (take ?n (lh_block ?l))" by (rule logged_take [OF wf])
  have x: "b_blockno (bcache s ! b) = x" using buf_ofD(4) [OF inv holdsD(1) [OF h]] .
  have run: "log_write b s = (let s = upd_log (\<lambda>l. l\<lparr>lh_block := (lh_block l)[i := x]\<rparr>) s
      in if i = ?n then Ok () (upd_log (\<lambda>l. l\<lparr>lh_n := lh_n l + 1\<rparr>) (bpin b s)) else Ok () s)"
    using room tx by (simp add: log_write_def x i_def Let_def)
  show ?thesis
  proof (cases "x \<in> logged ?l")
    case True
    then have i: "i < ?n" "lh_block ?l ! i = x" using f lg by auto
    then have "(lh_block ?l)[i := x] = lh_block ?l" by (metis list_update_id)
    then have "log_write b s = Ok () s" using run i by (simp add: upd_log_def)
    then show ?thesis using True wf inv by (auto simp: insert_absorb)
  next
    case False
    then have i: "i = ?n" using f lg by auto
    let ?s = "upd_log (\<lambda>l. l\<lparr>lh_block := (lh_block l)[i := x]\<rparr>) s"
    let ?t = "upd_log (\<lambda>l. l\<lparr>lh_n := lh_n l + 1\<rparr>) (bpin b ?s)"
    have B: "bstep d x ((blk d ?s x)\<lparr>a_refs := Suc (a_refs (blk d ?s x))\<rparr>) [] ?s (bpin b ?s)"
      by (rule bpin_law) (use inv h few in simp_all)
    note D = bstepD [OF B]
    have l: "log ?t = ?l\<lparr>lh_block := (lh_block ?l)[?n := x], lh_n := lh_n ?l + 1\<rparr>"
      using bio_frame_log [OF D(6)] i by simp
    have "log_wf (log ?t)" "logged (log ?t) = insert x (logged ?l)"
      using log_append [OF wf room(1) False] l by simp_all
    moreover have "log_write b s = Ok () ?t" using run i by simp
    moreover have "disk ?t = disk s" "writes ?t = writes s" "bc_inv d ?t"
      "blk d ?t = (blk d s)(x := (blk d s x)\<lparr>a_refs := Suc (a_refs (blk d s x))\<rparr>)"
      using D(1-4) by simp_all
    ultimately show ?thesis using False l by (intro exI [of _ ?t]) simp
  qed
qed

text \<open>
  A run of the code that reaches a transaction with one block: boot, read block 40, change
  it, record it and release it.
\<close>

definition demo0 :: klog where
  "demo0 = klog0\<lparr>cur := Some 0, log := log0\<lparr>lg_start := 2, lg_size := 30, lg_outstanding := 1, lg_dev := 1\<rparr>\<rparr>"

lemma demo0_fields:
  "bcache demo0 = replicate (NBUF + 1) buf0" "disk demo0 = (\<lambda>_. replicate BSIZE 0)" "cur demo0 = Some 0"
  by (simp_all add: demo0_def klog0_def kbio0_def kcons0_defs kbio.defs klog.defs)

lemma demo0_restarted: "restarted demo0" "disk demo0 x = replicate BSIZE 0"
  by (simp_all add: restarted_def demo0_fields fresh_buf_def buf0_def mypid_def myproc_def
      nth_Cons' del: replicate_Suc)

lemma demo_run:
  "\<exists>b s :: klog. bc_inv 1 s \<and> holds 1 b 40 s \<and> mypid s \<noteq> None \<and> log s = log demo0 \<and>
     disk s = disk demo0 \<and> a_owner (blk 1 s 40) = mypid s \<and> a_data (blk 1 s 40) = replicate BSIZE 7 \<and>
     a_refs (blk 1 s 40) = 1 \<and> (\<forall>x. x \<noteq> 40 \<longrightarrow> blk 1 s x = \<lparr>a_data = disk s x, a_refs = 0, a_owner = None\<rparr>)"
proof -
  note R = demo0_restarted
  note B = binit_establishes [of demo0 1, unfolded R(2)]
  have pre: "length (bcache demo0) = NBUF + 1" "\<And>i. i < NBUF \<Longrightarrow> fresh_buf (bcache demo0 ! i)" "mypid demo0 \<noteq> None"
    using R(1) by (simp_all add: restarted_def)
  let ?s0 = "binit demo0"
  have inv: "bc_inv 1 ?s0" and bl: "\<And>x. blk 1 ?s0 x = \<lparr>a_data = replicate BSIZE 0, a_refs = 0, a_owner = None\<rparr>"
    using B(1,2) [OF pre(1,2)] by simp_all
  obtain bs where bs: "?s0 = demo0\<lparr>bcache := bs\<rparr>" using B(3) [OF pre(1,2)] by auto
  obtain p where p: "mypid ?s0 = Some p" using pre(3) by (auto simp: bs mypid_def myproc_def)
  obtain b s1 where s1: "bread 1 40 ?s0 = Ok b s1" "holds 1 b 40 s1"
      "bstep 1 40 \<lparr>a_data = replicate BSIZE 0, a_refs = 1, a_owner = Some p\<rparr> [] ?s0 s1"
    using bread_law [OF inv p, of 40] by (auto simp: bl spare_buf_def NBUF_def)
  note D1 = bstepD [OF s1(3)]
  let ?s2 = "set_data b (replicate BSIZE 7) s1"
  have "bstep 1 40 ((blk 1 s1 40)\<lparr>a_data := replicate BSIZE 7\<rparr>) [] s1 ?s2"
    by (rule set_data_law [OF D1(1) s1(2)]) (simp_all add: D1(2))
  note D2 = bstepD [OF this]
  have "holds 1 b 40 ?s2" using D2(7) [OF _ s1(2)] by (simp add: D1(2))
  moreover have "log ?s2 = log demo0" "disk ?s2 = disk demo0"
    using bio_frame_log [OF D1(6)] bio_frame_log [OF D2(6)] D1(3) D2(3) by (simp_all add: bs)
  ultimately show ?thesis
    using D2(1,2,5) D1(2,5) p bl R(2) by (intro exI [of _ b] exI [of _ ?s2]) simp
qed

lemma demo0_log: "log_wf (log demo0)" "logged (log demo0) = {}" "lh_n (log demo0) = 0" "lg_start (log demo0) = 2"
  "lg_size (log demo0) = 30" "lg_outstanding (log demo0) = 1" "lg_dev (log demo0) = 1"
  by (simp_all add: demo0_def log0_def log_wf_def logged_def)

theorem log_write_records_witness:
  "\<exists>b (s :: klog) t. log_write b s = Ok () t \<and> logged (log t) = {40} \<and> lh_n (log t) = 1"
proof -
  obtain b and s :: klog where s: "bc_inv 1 s" "holds 1 b 40 s" "log s = log demo0" "a_refs (blk 1 s 40) = 1"
    using demo_run by blast
  show ?thesis
    using log_write_records [OF s(1,2)] s(3,4) demo0_log by (simp add: LOGSIZE_def) blast
qed

lemma demo_area:
  assumes size: "lg_size l = 30"
  shows "lg_start l = 2 \<Longrightarrow> 40 \<notin> log_area l"
proof
  assume "lg_start l = 2" and "40 \<in> log_area l"
  then obtain k where k: "k < 30" "(40 :: u32) = 2 + of_nat k" using size by (auto simp: log_area_def)
  have "unat (40 :: u32) = unat (2 + of_nat k :: u32)" by (rule arg_cong [OF k(2)])
  then show False using k(1) by (simp add: unat_word_ariths unat_of_nat)
qed

lemma demo_txn:
  "\<exists>s :: klog. txn_ok 1 s \<and> lh_n (log s) = 1 \<and> home (log s) 0 = 40 \<and> lg_start (log s) = 2 \<and> lg_size (log s) = 30 \<and>
     disk s = disk demo0 \<and> data 1 s 40 = replicate BSIZE 7"
proof -
  obtain b and s :: klog where s: "bc_inv 1 s" "holds 1 b 40 s" "mypid s \<noteq> None" "log s = log demo0"
      "disk s = disk demo0" "a_owner (blk 1 s 40) = mypid s" "a_data (blk 1 s 40) = replicate BSIZE 7"
      "a_refs (blk 1 s 40) = 1"
      "\<And>x. x \<noteq> 40 \<Longrightarrow> blk 1 s x = \<lparr>a_data = disk s x, a_refs = 0, a_owner = None\<rparr>"
    using demo_run by blast
  obtain p where p: "mypid s = Some p" using s(3) by blast
  let ?l = "\<lambda>l. l\<lparr>lh_n := 1, lh_block := 40 # tl (lh_block l)\<rparr>"
  have "bstep 1 40 ((blk 1 s 40)\<lparr>a_refs := Suc (a_refs (blk 1 s 40))\<rparr>) [] s (bpin b s)"
    by (rule bpin_law [OF s(1,2)]) (simp add: s(8))
  note D1 = bstepD [OF this]
  let ?s1 = "upd_log ?l (bpin b s)"
  have h1: "holds 1 b 40 ?s1" using D1(7) [OF _ s(2)] s(8) by simp
  have e1: "blk 1 ?s1 40 = (blk 1 s 40)\<lparr>a_refs := 2\<rparr>" using D1(2) s(8) by simp
  obtain t where t: "brelse b ?s1 = Ok () t"
      "bstep 1 40 ((blk 1 ?s1 40)\<lparr>a_refs := a_refs (blk 1 ?s1 40) - 1, a_owner := None\<rparr>) [] ?s1 t"
    using brelse_law [OF _ h1, of p] D1(1,5) e1 s(6) p by auto
  note D2 = bstepD [OF t(2)]
  have l: "log t = ?l (log demo0)"
    using bio_frame_log [OF D2(6)] bio_frame_log [OF D1(6)] s(4) by simp
  have bt: "blk 1 t x = (if x = 40 then \<lparr>a_data = replicate BSIZE 7, a_refs = 1, a_owner = None\<rparr>
      else \<lparr>a_data = replicate BSIZE 0, a_refs = 0, a_owner = None\<rparr>)" for x
  proof (cases "x = 40")
    case True
    have "blk 1 t 40 = \<lparr>a_data = replicate BSIZE 7, a_refs = 1, a_owner = None\<rparr>"
      unfolding D2(2) using e1 s(7) by (intro ablk.equality) simp_all
    then show ?thesis using True by simp
  next
    case False
    then show ?thesis using D2(2) D1(2) s(5,9) demo0_restarted(2) by simp
  qed
  have u: "used 1 t = {40}" by (auto simp: used_def bt)
  have q: "quiet 1 t" using D2(1,5) D1(5) p l demo0_log(7) by (simp add: quiet_def bt)
  have "txn_ok 1 t"
    unfolding txn_ok_def u using q l demo_area by (simp add: home_def demo0_def log0_def LOGSIZE_def NBUF_def)
  then show ?thesis
    using l D2(3) D1(3) s(5) demo0_log(4,5) by (intro exI [of _ t]) (simp add: home_def data_def bt)
qed

definition demo_sb :: superblock where
  "demo_sb = \<lparr>sb_magic = FSMAGIC, sb_size = 1000, sb_nblocks = 954, sb_ninodes = 200, sb_nlog = 30,
     sb_logstart = 2, sb_inodestart = 32, sb_bmapstart = 45\<rparr>"

text \<open>
  A crash after two of the four writes of a one-block transaction: recovery installs the
  block.
\<close>

theorem commit_crash_safe_witness:
  "\<exists>(s :: klog) t u. disk s 40 = replicate BSIZE 0 \<and> commit s = Ok () t \<and> writes t = writes s @ commit_writes 1 s \<and>
     initlog 1 demo_sb (binit (demo0\<lparr>disk := apply_writes (take 2 (commit_writes 1 s)) (disk s)\<rparr>)) = Ok () u \<and>
     disk u 40 = replicate BSIZE 7"
proof -
  obtain s :: klog where s: "txn_ok 1 s" "lh_n (log s) = 1" "home (log s) 0 = 40" "lg_start (log s) = 2"
      "disk s = disk demo0" "data 1 s 40 = replicate BSIZE 7" "lg_size (log s) = 30"
    using demo_txn by blast
  let ?r = "demo0\<lparr>disk := apply_writes (take 2 (commit_writes 1 s)) (disk s)\<rparr>"
  have r: "restarted ?r" using demo0_restarted(1) by (simp add: restarted_def mypid_def myproc_def)
  have hd: "head_count (disk s (lg_start (log s))) = 0"
    by (simp add: s(5) demo0_fields head_count_def get32_def BSIZE_def)
  have sb: "sb_logstart demo_sb = lg_start (log s)" by (simp add: demo_sb_def s(4))
  obtain t where t: "commit s = Ok () t" "writes t = writes s @ commit_writes 1 s"
      "\<And>k r :: klog. restarted r \<Longrightarrow> disk r = apply_writes (take k (commit_writes 1 s)) (disk s) \<Longrightarrow>
        \<exists>u. initlog 1 demo_sb (binit r) = Ok () u \<and> (\<forall>x. x \<notin> log_area (log s) \<longrightarrow>
          disk u x = (if nat (lh_n (log s)) < k \<and> x \<in> home (log s) ` set (entries (log s))
            then data 1 s x else disk s x))"
    using commit_crash_safe [OF s(1) _ hd sb] s(2) by auto
  obtain u where "initlog 1 demo_sb (binit ?r) = Ok () u" "disk u 40 = replicate BSIZE 7"
    using t(3) [OF r, of 2] demo_area [OF s(7,4)] s(2,3,6) by auto
  then show ?thesis
    using t(1,2) s(5) demo0_restarted(2) by (intro exI [of _ s] exI [of _ t] exI [of _ u]) simp
qed

section \<open>Admission\<close>

text \<open>C5. Admission and the limit of a transaction disagree by one block. With the log size that
  \<^verbatim>\<open>mkfs\<close> writes to the superblock, \<open>LOGSIZE\<close>, three operations are admitted at
  once and may together record \<open>3 * MAXOPBLOCKS = LOGSIZE\<close> blocks, but recording block
  number \<open>LOGSIZE\<close> panics, since one block of the log is its header.
\<close>

theorem log_admission_gap:
  assumes "lg_size (log s) = int LOGSIZE" and "\<not> lg_committing (log s)" and "lh_n (log s) = 0"
    and "lg_outstanding (log s) = 0"
  shows "\<exists>t. obind (begin_op s) (\<lambda>_ s. obind (begin_op s) (\<lambda>_ s. begin_op s)) = Ok () t \<and>
    lg_outstanding (log t) * MAXOPBLOCKS = int LOGSIZE \<and>
    (\<forall>b u. lg_size (log u) = lg_size (log t) \<and> lh_n (log u) = int LOGSIZE - 1 \<longrightarrow>
       log_write b (u :: 'z klog_scheme) = Panic ''too big a transaction'')"
  using assms by (simp add: begin_op_def upd_log_def MAXOPBLOCKS_def LOGSIZE_def log_write_def)

theorem log_admission_gap_witness:
  "\<exists>t :: klog. lg_outstanding (log t) * MAXOPBLOCKS = int LOGSIZE \<and> lg_size (log t) = int LOGSIZE \<and>
     (\<forall>b u. lg_size (log u) = lg_size (log t) \<and> lh_n (log u) = int LOGSIZE - 1 \<longrightarrow>
        log_write b (u :: klog) = Panic ''too big a transaction'')"
proof -
  let ?s = "klog0\<lparr>log := log0\<lparr>lg_size := int LOGSIZE\<rparr>\<rparr>"
  have "lg_size (log ?s) = int LOGSIZE" "\<not> lg_committing (log ?s)" "lh_n (log ?s) = 0" "lg_outstanding (log ?s) = 0"
    by (simp_all add: log0_def)
  from log_admission_gap [OF this] obtain t where
    t: "obind (begin_op ?s) (\<lambda>_ s. obind (begin_op s) (\<lambda>_ s. begin_op s)) = Ok () t"
      "lg_outstanding (log t) * MAXOPBLOCKS = int LOGSIZE"
      "\<forall>b u. lg_size (log u) = lg_size (log t) \<and> lh_n (log u) = int LOGSIZE - 1 \<longrightarrow>
        log_write b (u :: klog) = Panic ''too big a transaction''"
    by blast
  have "lg_size (log t) = int LOGSIZE"
    using t(1) by (auto simp: begin_op_def upd_log_def MAXOPBLOCKS_def LOGSIZE_def log0_def)
  then show ?thesis using t(2,3) by blast
qed

end
