(* ===== verification/Fs.thy ===== *)
theory Fs
  imports Log
begin

text \<open>
  The file system proper, \<^verbatim>\<open>kernel/fs.c\<close>: the block bitmap, inodes on disk and in
  the table, block maps, reading and writing file contents, directories and path names.
  A pointer into the inode table is an index; a null inode is \<open>None\<close>. On-disk inodes
  are 64 bytes and directory entries 16 bytes inside block buffers. File offsets and sizes
  are 32-bit words, so the overflow tests of \<^verbatim>\<open>readi\<close> and \<^verbatim>\<open>writei\<close>
  are those of the code.
\<close>

section \<open>State\<close>

definition ROOTINO :: u32 where "ROOTINO = 1"
definition ROOTDEV :: u32 where "ROOTDEV = 1"
definition NDIRECT :: nat where "NDIRECT = 12"
definition NINDIRECT :: nat where "NINDIRECT = BSIZE div 4"
definition MAXFILE :: nat where "MAXFILE = NDIRECT + NINDIRECT"
definition IPB :: nat where "IPB = BSIZE div 64"
definition BPB :: nat where "BPB = BSIZE * 8"
definition DIRSIZ :: nat where "DIRSIZ = 14"
definition NINODE :: nat where "NINODE = 50"
definition T_DIR :: u16 where "T_DIR = 1"
definition T_FILE :: u16 where "T_FILE = 2"
definition T_DEVICE :: u16 where "T_DEVICE = 3"

record inode =
  i_dev :: u32
  i_inum :: u32
  i_ref :: int
  i_lock :: sleeplock
  i_valid :: bool
  i_type :: u16
  i_major :: u16
  i_minor :: u16
  i_nlink :: u16
  i_size :: u32
  i_addrs :: "u32 list"

record kfs = klog +
  sb :: superblock
  itable :: "inode list"

record stat =
  st_dev :: u32
  st_ino :: u32
  st_type :: u16
  st_nlink :: u16
  st_size :: u64

definition sb0 :: superblock where
  "sb0 = \<lparr>sb_magic = 0, sb_size = 0, sb_nblocks = 0, sb_ninodes = 0, sb_nlog = 0,
     sb_logstart = 0, sb_inodestart = 0, sb_bmapstart = 0\<rparr>"

definition inode0 :: inode where
  "inode0 = \<lparr>i_dev = 0, i_inum = 0, i_ref = 0, i_lock = initsleeplock, i_valid = False, i_type = 0,
     i_major = 0, i_minor = 0, i_nlink = 0, i_size = 0, i_addrs = replicate (NDIRECT + 1) 0\<rparr>"

definition kfs0 :: kfs where
  "kfs0 = klog.extend klog0 (kfs.fields sb0 (replicate NINODE inode0))"

definition IBLOCK :: "u32 \<Rightarrow> superblock \<Rightarrow> u32" where
  "IBLOCK i sblk = i div of_nat IPB + sb_inodestart sblk"

definition BBLOCK :: "u32 \<Rightarrow> superblock \<Rightarrow> u32" where
  "BBLOCK b sblk = b div of_nat BPB + sb_bmapstart sblk"

definition upd_inode :: "nat \<Rightarrow> (inode \<Rightarrow> inode) \<Rightarrow> 'z kfs_scheme \<Rightarrow> 'z kfs_scheme" where
  "upd_inode i f s = s\<lparr>itable := (itable s)[i := f (itable s ! i)]\<rparr>"

abbreviation inode_lock :: "nat \<Rightarrow> 'z kfs_scheme \<Rightarrow> sleeplock" where
  "inode_lock i s \<equiv> i_lock (itable s ! i)"

abbreviation set_inode_lock :: "nat \<Rightarrow> sleeplock \<Rightarrow> 'z kfs_scheme \<Rightarrow> 'z kfs_scheme" where
  "set_inode_lock i l s \<equiv> upd_inode i (\<lambda>x. x\<lparr>i_lock := l\<rparr>) s"

abbreviation buf_data :: "nat \<Rightarrow> 'z kbio_scheme \<Rightarrow> u8 list" where
  "buf_data b s \<equiv> b_data (bcache s ! b)"

section \<open>Blocks\<close>

definition decode_sb :: "u8 list \<Rightarrow> superblock" where
  "decode_sb d =
     \<lparr>sb_magic = get32 d 0, sb_size = get32 d 4, sb_nblocks = get32 d 8, sb_ninodes = get32 d 12,
      sb_nlog = get32 d 16, sb_logstart = get32 d 20, sb_inodestart = get32 d 24,
      sb_bmapstart = get32 d 28\<rparr>"

definition readsb :: "u32 \<Rightarrow> 'z kfs_scheme \<Rightarrow> (unit, 'z kfs_scheme) outcome" where
  "readsb dev s =
     obind (bread dev 1 s) (\<lambda>bp s.
     let s = s\<lparr>sb := decode_sb (buf_data bp s)\<rparr> in brelse bp s)"

definition fsinit :: "u32 \<Rightarrow> 'z kfs_scheme \<Rightarrow> (unit, 'z kfs_scheme) outcome" where
  "fsinit dev s =
     obind (readsb dev s) (\<lambda>_ s.
     if sb_magic (sb s) \<noteq> FSMAGIC then Panic ''invalid file system''
     else initlog dev (sb s) s)"

definition bzero :: "u32 \<Rightarrow> u32 \<Rightarrow> 'z klog_scheme \<Rightarrow> (unit, 'z klog_scheme) outcome" where
  "bzero dev bno s =
     obind (bread dev bno s) (\<lambda>bp s.
     obind (log_write bp (set_data bp (replicate BSIZE 0) s)) (\<lambda>_ s.
     brelse bp s))"

definition bit_clear :: "u8 list \<Rightarrow> nat \<Rightarrow> bool" where
  "bit_clear d bi \<longleftrightarrow> d ! (bi div 8) AND push_bit (bi mod 8) 1 = 0"

definition bit_set :: "u8 list \<Rightarrow> nat \<Rightarrow> u8 list" where
  "bit_set d bi = d[bi div 8 := d ! (bi div 8) OR push_bit (bi mod 8) 1]"

definition bit_unset :: "u8 list \<Rightarrow> nat \<Rightarrow> u8 list" where
  "bit_unset d bi = d[bi div 8 := d ! (bi div 8) AND NOT (push_bit (bi mod 8) 1)]"

fun balloc_scan :: "nat \<Rightarrow> nat \<Rightarrow> u8 list \<Rightarrow> nat option" where
  "balloc_scan bi 0 d = None"
| "balloc_scan bi (Suc k) d = (if bit_clear d bi then Some bi else balloc_scan (Suc bi) k d)"

function balloc_loop :: "nat \<Rightarrow> u32 \<Rightarrow> 'z kfs_scheme \<Rightarrow> (u32, 'z kfs_scheme) outcome" where
  "balloc_loop b dev s =
     (if b < unat (sb_size (sb s))
      then obind (bread dev (BBLOCK (of_nat b) (sb s)) s) (\<lambda>bp s.
        case balloc_scan 0 (min BPB (unat (sb_size (sb s)) - b)) (buf_data bp s) of
          Some bi \<Rightarrow>
            obind (log_write bp (set_data bp (bit_set (buf_data bp s) bi) s)) (\<lambda>_ s.
            obind (brelse bp s) (\<lambda>_ s.
            obind (bzero dev (of_nat (b + bi)) s) (\<lambda>_ s.
            Ok (of_nat (b + bi)) s)))
        | None \<Rightarrow> obind (brelse bp s) (\<lambda>_ s. balloc_loop (b + BPB) dev s))
      else obind (printf (''balloc: out of blocks'' @ nl) [] s) (\<lambda>_ s. Ok 0 s))"
  by pat_completeness auto
termination
proof (relation "measure (\<lambda>(b, dev, s). 2 ^ 32 - b)")
  fix b dev and s :: "'z kfs_scheme" and x y u t
  assume "b < unat (sb_size (sb s))"
  moreover have "unat (sb_size (sb s)) < 2 ^ 32" using unat_lt_two_power [of "sb_size (sb s)"] by simp
  ultimately have "b < 2 ^ 32" by linarith
  then show "((b + BPB, dev, t), b, dev, s) \<in> measure (\<lambda>(b, dev, s). 2 ^ 32 - b)"
    by (simp add: BPB_def BSIZE_def)
qed simp

declare balloc_loop.simps [simp del]

definition balloc :: "u32 \<Rightarrow> 'z kfs_scheme \<Rightarrow> (u32, 'z kfs_scheme) outcome" where
  "balloc dev s = balloc_loop 0 dev s"

definition bfree :: "u32 \<Rightarrow> u32 \<Rightarrow> 'z kfs_scheme \<Rightarrow> (unit, 'z kfs_scheme) outcome" where
  "bfree dev b s =
     obind (bread dev (BBLOCK b (sb s)) s) (\<lambda>bp s.
     let bi = unat b mod BPB in
     if bit_clear (buf_data bp s) bi then Panic ''freeing free block''
     else obind (log_write bp (set_data bp (bit_unset (buf_data bp s) bi) s)) (\<lambda>_ s.
          brelse bp s))"

section \<open>Inodes\<close>

definition iinit :: "'z kfs_scheme \<Rightarrow> 'z kfs_scheme" where
  "iinit s = s\<lparr>itable := map (\<lambda>i. (itable s ! i)\<lparr>i_lock := initsleeplock\<rparr>) [0..<NINODE]\<rparr>"

definition dinode_off :: "u32 \<Rightarrow> nat" where
  "dinode_off inum = unat inum mod IPB * 64"

fun put_addrs :: "u8 list \<Rightarrow> nat \<Rightarrow> u32 list \<Rightarrow> u8 list" where
  "put_addrs d i [] = d"
| "put_addrs d i (a # as) = put_addrs (put32 d i a) (i + 4) as"

definition write_dinode :: "u8 list \<Rightarrow> nat \<Rightarrow> inode \<Rightarrow> u8 list" where
  "write_dinode d i ip =
     (let d = put16 d i (i_type ip);
          d = put16 d (i + 2) (i_major ip);
          d = put16 d (i + 4) (i_minor ip);
          d = put16 d (i + 6) (i_nlink ip);
          d = put32 d (i + 8) (i_size ip)
      in put_addrs d (i + 12) (i_addrs ip))"

definition read_dinode :: "u8 list \<Rightarrow> nat \<Rightarrow> inode \<Rightarrow> inode" where
  "read_dinode d i ip =
     ip\<lparr>i_type := get16 d i, i_major := get16 d (i + 2), i_minor := get16 d (i + 4),
        i_nlink := get16 d (i + 6), i_size := get32 d (i + 8),
        i_addrs := map (\<lambda>k. get32 d (i + 12 + 4 * k)) [0..<NDIRECT + 1]\<rparr>"

definition iupdate :: "nat \<Rightarrow> 'z kfs_scheme \<Rightarrow> (unit, 'z kfs_scheme) outcome" where
  "iupdate ip s =
     obind (bread (i_dev (itable s ! ip)) (IBLOCK (i_inum (itable s ! ip)) (sb s)) s) (\<lambda>bp s.
     let x = itable s ! ip;
         s = set_data bp (write_dinode (buf_data bp s) (dinode_off (i_inum x)) x) s
     in obind (log_write bp s) (\<lambda>_ s. brelse bp s))"

fun iget_scan :: "nat list \<Rightarrow> nat option \<Rightarrow> u32 \<Rightarrow> u32 \<Rightarrow> inode list \<Rightarrow> bool \<times> nat option" where
  "iget_scan [] spare dev inum t = (False, spare)"
| "iget_scan (i # is) spare dev inum t =
     (if i_ref (t ! i) > 0 \<and> i_dev (t ! i) = dev \<and> i_inum (t ! i) = inum then (True, Some i)
      else iget_scan is (if spare = None \<and> i_ref (t ! i) = 0 then Some i else spare) dev inum t)"

definition iget :: "u32 \<Rightarrow> u32 \<Rightarrow> 'z kfs_scheme \<Rightarrow> (nat, 'z kfs_scheme) outcome" where
  "iget dev inum s =
     (case iget_scan [0..<NINODE] None dev inum (itable s) of
        (True, Some ip) \<Rightarrow> Ok ip (upd_inode ip (\<lambda>x. x\<lparr>i_ref := i_ref x + 1\<rparr>) s)
      | (False, Some ip) \<Rightarrow>
          Ok ip (upd_inode ip (\<lambda>x. x\<lparr>i_dev := dev, i_inum := inum, i_ref := 1, i_valid := False\<rparr>) s)
      | (_, None) \<Rightarrow> Panic ''iget: no inodes'')"

function ialloc_loop :: "nat \<Rightarrow> u32 \<Rightarrow> u16 \<Rightarrow> 'z kfs_scheme \<Rightarrow> (nat option, 'z kfs_scheme) outcome" where
  "ialloc_loop inum dev type s =
     (if inum < unat (sb_ninodes (sb s))
      then obind (bread dev (IBLOCK (of_nat inum) (sb s)) s) (\<lambda>bp s.
        let i = dinode_off (of_nat inum) in
        if get16 (buf_data bp s) i = 0
        then
          let s = set_data bp (put16 (blit (buf_data bp s) i (replicate 64 0)) i type) s in
          obind (log_write bp s) (\<lambda>_ s.
          obind (brelse bp s) (\<lambda>_ s.
          obind (iget dev (of_nat inum) s) (\<lambda>ip s. Ok (Some ip) s)))
        else obind (brelse bp s) (\<lambda>_ s. ialloc_loop (inum + 1) dev type s))
      else obind (printf (''ialloc: no inodes'' @ nl) [] s) (\<lambda>_ s. Ok None s))"
  by pat_completeness auto
termination
proof (relation "measure (\<lambda>(inum, dev, type, s). 2 ^ 32 - inum)")
  fix inum :: nat and dev type and s :: "'z kfs_scheme" and x y i u t
  assume "inum < unat (sb_ninodes (sb s))"
  moreover have "unat (sb_ninodes (sb s)) < 2 ^ 32" using unat_lt_two_power [of "sb_ninodes (sb s)"] by simp
  ultimately have "inum < 2 ^ 32" by linarith
  then show "((inum + 1, dev, type, t), inum, dev, type, s)
      \<in> measure (\<lambda>(inum, dev, type, s). 2 ^ 32 - inum)"
    by simp
qed simp

declare ialloc_loop.simps [simp del]

definition ialloc :: "u32 \<Rightarrow> u16 \<Rightarrow> 'z kfs_scheme \<Rightarrow> (nat option, 'z kfs_scheme) outcome" where
  "ialloc dev type s = ialloc_loop 1 dev type s"

definition idup :: "nat \<Rightarrow> 'z kfs_scheme \<Rightarrow> 'z kfs_scheme" where
  "idup ip s = upd_inode ip (\<lambda>x. x\<lparr>i_ref := i_ref x + 1\<rparr>) s"

fun ilock :: "nat option \<Rightarrow> 'z kfs_scheme \<Rightarrow> (unit, 'z kfs_scheme) outcome" where
  "ilock None s = Panic ''ilock''"
| "ilock (Some ip) s =
     (if i_ref (itable s ! ip) < 1 then Panic ''ilock''
      else obind (acquiresleep (ChInodeLock ip) (inode_lock ip) (set_inode_lock ip) s) (\<lambda>_ s.
        if \<not> i_valid (itable s ! ip)
        then
          obind (bread (i_dev (itable s ! ip)) (IBLOCK (i_inum (itable s ! ip)) (sb s)) s) (\<lambda>bp s.
          let d = buf_data bp s;
              s = upd_inode ip (\<lambda>x. read_dinode d (dinode_off (i_inum x)) x) s
          in obind (brelse bp s) (\<lambda>_ s.
             let s = upd_inode ip (\<lambda>x. x\<lparr>i_valid := True\<rparr>) s in
             if i_type (itable s ! ip) = 0 then Panic ''ilock: no type'' else Ok () s))
        else Ok () s))"

fun iunlock :: "nat option \<Rightarrow> 'z kfs_scheme \<Rightarrow> (unit, 'z kfs_scheme) outcome" where
  "iunlock None s = Panic ''iunlock''"
| "iunlock (Some ip) s =
     obind (holdingsleep (inode_lock ip) s) (\<lambda>h s.
     if \<not> h \<or> i_ref (itable s ! ip) < 1 then Panic ''iunlock''
     else Ok () (releasesleep (ChInodeLock ip) (set_inode_lock ip) s))"

section \<open>File contents\<close>

definition set_addr :: "nat \<Rightarrow> nat \<Rightarrow> u32 \<Rightarrow> 'z kfs_scheme \<Rightarrow> 'z kfs_scheme" where
  "set_addr ip i a s = upd_inode ip (\<lambda>x. x\<lparr>i_addrs := (i_addrs x)[i := a]\<rparr>) s"

definition bmap :: "nat \<Rightarrow> u32 \<Rightarrow> 'z kfs_scheme \<Rightarrow> (u32, 'z kfs_scheme) outcome" where
  "bmap ip bn s =
     (let bn = unat bn; dev = i_dev (itable s ! ip) in
      if bn < NDIRECT
      then
        let addr = i_addrs (itable s ! ip) ! bn in
        if addr = 0
        then obind (balloc dev s) (\<lambda>addr s.
          if addr = 0 then Ok 0 s else Ok addr (set_addr ip bn addr s))
        else Ok addr s
      else if bn - NDIRECT < NINDIRECT
      then
        let bn = bn - NDIRECT; addr = i_addrs (itable s ! ip) ! NDIRECT in
        obind (if addr = 0
               then obind (balloc dev s) (\<lambda>addr s.
                 if addr = 0 then Ok 0 s else Ok addr (set_addr ip NDIRECT addr s))
               else Ok addr s) (\<lambda>addr s.
        if addr = 0 then Ok 0 s
        else obind (bread dev addr s) (\<lambda>bp s.
          let addr = get32 (buf_data bp s) (4 * bn) in
          if addr = 0
          then obind (balloc dev s) (\<lambda>addr s.
            obind (if addr \<noteq> 0
                   then log_write bp (set_data bp (put32 (buf_data bp s) (4 * bn) addr) s)
                   else Ok () s) (\<lambda>_ s.
            obind (brelse bp s) (\<lambda>_ s. Ok addr s)))
          else obind (brelse bp s) (\<lambda>_ s. Ok addr s)))
      else Panic ''bmap: out of range'')"

fun itrunc_direct :: "nat list \<Rightarrow> nat \<Rightarrow> 'z kfs_scheme \<Rightarrow> (unit, 'z kfs_scheme) outcome" where
  "itrunc_direct [] ip s = Ok () s"
| "itrunc_direct (i # is) ip s =
     (let addr = i_addrs (itable s ! ip) ! i in
      if addr \<noteq> 0
      then obind (bfree (i_dev (itable s ! ip)) addr s) (\<lambda>_ s. itrunc_direct is ip (set_addr ip i 0 s))
      else itrunc_direct is ip s)"

fun itrunc_indirect ::
  "nat list \<Rightarrow> nat \<Rightarrow> nat \<Rightarrow> 'z kfs_scheme \<Rightarrow> (unit, 'z kfs_scheme) outcome" where
  "itrunc_indirect [] bp ip s = Ok () s"
| "itrunc_indirect (j # js) bp ip s =
     (let a = get32 (buf_data bp s) (4 * j) in
      if a \<noteq> 0
      then obind (bfree (i_dev (itable s ! ip)) a s) (\<lambda>_ s. itrunc_indirect js bp ip s)
      else itrunc_indirect js bp ip s)"

definition itrunc :: "nat \<Rightarrow> 'z kfs_scheme \<Rightarrow> (unit, 'z kfs_scheme) outcome" where
  "itrunc ip s =
     obind (itrunc_direct [0..<NDIRECT] ip s) (\<lambda>_ s.
     obind (if i_addrs (itable s ! ip) ! NDIRECT \<noteq> 0
            then
              obind (bread (i_dev (itable s ! ip)) (i_addrs (itable s ! ip) ! NDIRECT) s) (\<lambda>bp s.
              obind (itrunc_indirect [0..<NINDIRECT] bp ip s) (\<lambda>_ s.
              obind (brelse bp s) (\<lambda>_ s.
              obind (bfree (i_dev (itable s ! ip)) (i_addrs (itable s ! ip) ! NDIRECT) s) (\<lambda>_ s.
              Ok () (set_addr ip NDIRECT 0 s)))))
            else Ok () s) (\<lambda>_ s.
     iupdate ip (upd_inode ip (\<lambda>x. x\<lparr>i_size := 0\<rparr>) s)))"

definition iput :: "nat \<Rightarrow> 'z kfs_scheme \<Rightarrow> (unit, 'z kfs_scheme) outcome" where
  "iput ip s =
     (let x = itable s ! ip in
      obind (if i_ref x = 1 \<and> i_valid x \<and> i_nlink x = 0
             then
               obind (acquiresleep (ChInodeLock ip) (inode_lock ip) (set_inode_lock ip) s) (\<lambda>_ s.
               obind (itrunc ip s) (\<lambda>_ s.
               obind (iupdate ip (upd_inode ip (\<lambda>x. x\<lparr>i_type := 0\<rparr>) s)) (\<lambda>_ s.
               let s = upd_inode ip (\<lambda>x. x\<lparr>i_valid := False\<rparr>) s in
               Ok () (releasesleep (ChInodeLock ip) (set_inode_lock ip) s))))
             else Ok () s) (\<lambda>_ s.
      Ok () (upd_inode ip (\<lambda>x. x\<lparr>i_ref := i_ref x - 1\<rparr>) s)))"

definition iunlockput :: "nat \<Rightarrow> 'z kfs_scheme \<Rightarrow> (unit, 'z kfs_scheme) outcome" where
  "iunlockput ip s = obind (iunlock (Some ip) s) (\<lambda>_ s. iput ip s)"

definition stati :: "nat \<Rightarrow> 'z kfs_scheme \<Rightarrow> stat" where
  "stati ip s =
     (let x = itable s ! ip
      in \<lparr>st_dev = i_dev x, st_ino = i_inum x, st_type = i_type x, st_nlink = i_nlink x,
          st_size = ucast (i_size x)\<rparr>)"

end
