(* ===== verification/Dir.thy ===== *)
theory Dir
  imports Fs
begin

text \<open>
  The upper half of \<^verbatim>\<open>kernel/fs.c\<close>: reading and writing the content of an inode,
  directories as files of 16-byte entries, and path names. The scans of a directory take
  as fuel the number of entries its size allows, plus one.
\<close>

section \<open>Reading and writing\<close>

definition chunk :: "u32 \<Rightarrow> u32 \<Rightarrow> u32 \<Rightarrow> u32" where
  "chunk n tot off = min (n - tot) (of_nat BSIZE - off mod of_nat BSIZE)"

lemma chunk_pos: "tot < n \<Longrightarrow> 0 < chunk n tot off"
proof -
  assume "tot < n"
  have "off mod 1024 < 1024" by (simp add: word_mod_less_divisor)
  then have "0 < (1024 :: u32) - off mod 1024" by (metis diff_0_right eq_iff_diff_eq_0 order_less_irrefl word_gt_0)
  moreover have "0 < n - tot" using \<open>tot < n\<close> by (metis eq_iff_diff_eq_0 order_less_irrefl word_gt_0)
  ultimately show ?thesis by (simp add: chunk_def BSIZE_def min_def)
qed

lemma chunk_le: "chunk n tot off \<le> n - tot"
  by (simp add: chunk_def)

lemma chunk_measure:
  assumes "tot < n"
  shows "unat (n - (tot + chunk n tot off)) < unat (n - tot)"
proof -
  let ?m = "chunk n tot off"
  have "unat ?m \<le> unat (n - tot)" using chunk_le by (simp add: word_le_nat_alt)
  then have "unat (n - tot - ?m) = unat (n - tot) - unat ?m" by (simp add: unat_sub word_le_nat_alt)
  moreover have "0 < unat ?m" using chunk_pos [OF assms] by (simp add: word_less_nat_alt)
  moreover have "0 < unat (n - tot)" using calculation(2) \<open>unat ?m \<le> unat (n - tot)\<close> by linarith
  ultimately show ?thesis by (simp add: diff_diff_eq)
qed

text \<open>
  A result \<open>(r, bs)\<close> of \<open>readi\<close> is the return value and the bytes delivered to a local
  destination.
\<close>

function readi_loop ::
  "nat \<Rightarrow> dst \<Rightarrow> u32 \<Rightarrow> u32 \<Rightarrow> u32 \<Rightarrow> u8 list \<Rightarrow> 'z kfs_scheme \<Rightarrow>
   (int \<times> u8 list, 'z kfs_scheme) outcome" where
  "readi_loop ip dst off n tot acc s =
     (if tot < n
      then obind (bmap ip (off div of_nat BSIZE) s) (\<lambda>addr s.
        if addr = 0 then Ok (uint tot, acc) s
        else obind (bread (i_dev (itable s ! ip)) addr s) (\<lambda>bp s.
          let m = chunk n tot off;
              bs = take (unat m) (drop (unat (off mod of_nat BSIZE)) (buf_data bp s))
          in obind (either_copyout dst bs s) (\<lambda>(r, out) s.
             if r = -1 then obind (brelse bp s) (\<lambda>_ s. Ok (-1, acc) s)
             else obind (brelse bp s) (\<lambda>_ s.
               readi_loop ip (dst_add dst (unat m)) (off + m) n (tot + m) (acc @ out) s))))
      else Ok (uint tot, acc) s)"
  by pat_completeness auto
termination
  by (relation "measure (\<lambda>(ip, dst, off, n, tot, acc, s). unat (n - tot))")
    (auto intro: chunk_measure)

declare readi_loop.simps [simp del]

definition readi ::
  "nat \<Rightarrow> dst \<Rightarrow> u32 \<Rightarrow> u32 \<Rightarrow> 'z kfs_scheme \<Rightarrow> (int \<times> u8 list, 'z kfs_scheme) outcome" where
  "readi ip dst off n s =
     (let size = i_size (itable s ! ip) in
      if off > size \<or> off + n < off then Ok (0, []) s
      else
        let n = (if off + n > size then size - off else n)
        in readi_loop ip dst off n 0 [] s)"

text \<open>
  The loop of \<open>writei\<close> returns the count and the offset it stopped at. A copy that fails
  half-way has already changed the cached block.
\<close>

function writei_loop ::
  "nat \<Rightarrow> src \<Rightarrow> u32 \<Rightarrow> u32 \<Rightarrow> u32 \<Rightarrow> 'z kfs_scheme \<Rightarrow> (u32 \<times> u32, 'z kfs_scheme) outcome" where
  "writei_loop ip src off n tot s =
     (if tot < n
      then obind (bmap ip (off div of_nat BSIZE) s) (\<lambda>addr s.
        if addr = 0 then Ok (tot, off) s
        else obind (bread (i_dev (itable s ! ip)) addr s) (\<lambda>bp s.
          let m = chunk n tot off in
          obind (either_copyin src (unat m) s) (\<lambda>(r, bs) s.
          let s = set_data bp (blit (buf_data bp s) (unat (off mod of_nat BSIZE)) bs) s in
          if r = -1 then obind (brelse bp s) (\<lambda>_ s. Ok (tot, off) s)
          else obind (log_write bp s) (\<lambda>_ s.
               obind (brelse bp s) (\<lambda>_ s.
               writei_loop ip (src_add src (unat m)) (off + m) n (tot + m) s)))))
      else Ok (tot, off) s)"
  by pat_completeness auto
termination
  by (relation "measure (\<lambda>(ip, src, off, n, tot, s). unat (n - tot))")
    (auto intro: chunk_measure)

declare writei_loop.simps [simp del]

definition writei ::
  "nat \<Rightarrow> src \<Rightarrow> u32 \<Rightarrow> u32 \<Rightarrow> 'z kfs_scheme \<Rightarrow> (int, 'z kfs_scheme) outcome" where
  "writei ip src off n s =
     (if off > i_size (itable s ! ip) \<or> off + n < off then Ok (-1) s
      else if off + n > of_nat (MAXFILE * BSIZE) then Ok (-1) s
      else obind (writei_loop ip src off n 0 s) (\<lambda>(tot, off) s.
        let s = (if off > i_size (itable s ! ip) then upd_inode ip (\<lambda>x. x\<lparr>i_size := off\<rparr>) s else s)
        in obind (iupdate ip s) (\<lambda>_ s. Ok (uint tot) s)))"

section \<open>Directories\<close>

definition namecmp :: "u8 list \<Rightarrow> u8 list \<Rightarrow> int" where
  "namecmp s t = strncmp_buf s t DIRSIZ"

definition de_inum :: "u8 list \<Rightarrow> u16" where
  "de_inum de = get16 de 0"

definition de_name :: "u8 list \<Rightarrow> u8 list" where
  "de_name de = take DIRSIZ (drop 2 de)"

fun dirlookup_loop ::
  "nat \<Rightarrow> u32 \<Rightarrow> nat \<Rightarrow> u8 list \<Rightarrow> 'z kfs_scheme \<Rightarrow> ((nat \<times> u32) option, 'z kfs_scheme) outcome" where
  "dirlookup_loop 0 off dp name s = Diverges"
| "dirlookup_loop (Suc fuel) off dp name s =
     (if off < i_size (itable s ! dp)
      then obind (readi dp DLocal off 16 s) (\<lambda>(r, de) s.
        if r \<noteq> 16 then Panic ''dirlookup read''
        else if de_inum de = 0 then dirlookup_loop fuel (off + 16) dp name s
        else if namecmp name (de_name de) = 0
        then obind (iget (i_dev (itable s ! dp)) (ucast (de_inum de)) s) (\<lambda>ip s. Ok (Some (ip, off)) s)
        else dirlookup_loop fuel (off + 16) dp name s)
      else Ok None s)"

definition dir_fuel :: "nat \<Rightarrow> 'z kfs_scheme \<Rightarrow> nat" where
  "dir_fuel dp s = unat (i_size (itable s ! dp)) div 16 + 2"

definition dirlookup ::
  "nat \<Rightarrow> u8 list \<Rightarrow> 'z kfs_scheme \<Rightarrow> ((nat \<times> u32) option, 'z kfs_scheme) outcome" where
  "dirlookup dp name s =
     (if i_type (itable s ! dp) \<noteq> T_DIR then Panic ''dirlookup not DIR''
      else dirlookup_loop (dir_fuel dp s) 0 dp name s)"

fun dirlink_slot :: "nat \<Rightarrow> u32 \<Rightarrow> nat \<Rightarrow> 'z kfs_scheme \<Rightarrow> (u32, 'z kfs_scheme) outcome" where
  "dirlink_slot 0 off dp s = Diverges"
| "dirlink_slot (Suc fuel) off dp s =
     (if off < i_size (itable s ! dp)
      then obind (readi dp DLocal off 16 s) (\<lambda>(r, de) s.
        if r \<noteq> 16 then Panic ''dirlink read''
        else if de_inum de = 0 then Ok off s
        else dirlink_slot fuel (off + 16) dp s)
      else Ok off s)"

definition dirent :: "u8 list \<Rightarrow> u32 \<Rightarrow> u8 list" where
  "dirent name inum = put16 [0, 0] 0 (ucast inum) @ strncpy_buf name DIRSIZ"

definition dirlink :: "nat \<Rightarrow> u8 list \<Rightarrow> u32 \<Rightarrow> 'z kfs_scheme \<Rightarrow> (int, 'z kfs_scheme) outcome" where
  "dirlink dp name inum s =
     obind (dirlookup dp name s) (\<lambda>r s.
     case r of
       Some (ip, off) \<Rightarrow> obind (iput ip s) (\<lambda>_ s. Ok (-1) s)
     | None \<Rightarrow>
         obind (dirlink_slot (dir_fuel dp s) 0 dp s) (\<lambda>off s.
         obind (writei dp (SLocal (dirent name inum)) off 16 s) (\<lambda>r s.
         if r \<noteq> 16 then Ok (-1) s else Ok 0 s)))"

section \<open>Paths\<close>

definition slash :: u8 where "slash = 47"

definition skip_slashes :: "u8 list \<Rightarrow> u8 list" where
  "skip_slashes path = dropWhile (\<lambda>c. c = slash) path"

definition elem_char :: "u8 \<Rightarrow> bool" where
  "elem_char c \<longleftrightarrow> c \<noteq> slash \<and> c \<noteq> 0"

text \<open>
  A path is the bytes of a C string without what follows its end. The result is the rest
  of the path and the bytes placed in \<^verbatim>\<open>name\<close>.
\<close>

definition skipelem :: "u8 list \<Rightarrow> (u8 list \<times> u8 list) option" where
  "skipelem path =
     (let path = skip_slashes path in
      if byte_at path = 0 then None
      else
        let s = takeWhile elem_char path; path = dropWhile elem_char path;
            name = (if length s \<ge> DIRSIZ then take DIRSIZ s else s @ [0])
        in Some (skip_slashes path, name))"

lemma skipelem_shorter: "skipelem path = Some (rest, name) \<Longrightarrow> length rest < length path"
proof -
  assume a: "skipelem path = Some (rest, name)"
  let ?p = "skip_slashes path"
  have ne: "byte_at ?p \<noteq> 0" and rest: "rest = skip_slashes (dropWhile elem_char ?p)"
    using a by (auto simp: skipelem_def Let_def split: if_splits)
  then obtain c cs where p: "?p = c # cs" by (cases ?p) auto
  then have "c \<noteq> slash"
    using hd_dropWhile [of "\<lambda>c. c = slash" path] by (simp add: skip_slashes_def)
  then have "elem_char c" using ne p by (simp add: elem_char_def)
  then have "length (dropWhile elem_char ?p) \<le> length cs" using p by (simp add: length_dropWhile_le)
  then have "length rest \<le> length cs"
    unfolding rest skip_slashes_def [of "dropWhile _ _"]
    by (rule le_trans [OF length_dropWhile_le])
  moreover have "length (c # cs) \<le> length path"
    unfolding p [symmetric] skip_slashes_def by (rule length_dropWhile_le)
  ultimately show ?thesis by simp
qed

function namex_loop ::
  "u8 list \<Rightarrow> bool \<Rightarrow> u8 list \<Rightarrow> nat \<Rightarrow> 'z kfs_scheme \<Rightarrow>
   (nat option \<times> u8 list, 'z kfs_scheme) outcome" where
  "namex_loop path parent name ip s =
     (case skipelem path of
        None \<Rightarrow>
          if parent then obind (iput ip s) (\<lambda>_ s. Ok (None, name) s) else Ok (Some ip, name) s
      | Some (path, name) \<Rightarrow>
          obind (ilock (Some ip) s) (\<lambda>_ s.
          if i_type (itable s ! ip) \<noteq> T_DIR
          then obind (iunlockput ip s) (\<lambda>_ s. Ok (None, name) s)
          else if parent \<and> byte_at path = 0
          then obind (iunlock (Some ip) s) (\<lambda>_ s. Ok (Some ip, name) s)
          else obind (dirlookup ip name s) (\<lambda>r s.
            case r of
              None \<Rightarrow> obind (iunlockput ip s) (\<lambda>_ s. Ok (None, name) s)
            | Some (next, off) \<Rightarrow>
                obind (iunlockput ip s) (\<lambda>_ s. namex_loop path parent name next s))))"
  by pat_completeness auto
termination
  by (relation "measure (\<lambda>(path, parent, name, ip, s). length path)")
    (auto dest: skipelem_shorter)

declare namex_loop.simps [simp del]

definition namex ::
  "u8 list \<Rightarrow> bool \<Rightarrow> 'z kfs_scheme \<Rightarrow> (nat option \<times> u8 list, 'z kfs_scheme) outcome" where
  "namex path parent s =
     obind (if byte_at path = slash then iget ROOTDEV ROOTINO s
            else with_proc (\<lambda>p s.
              case p_cwd (procs s ! p) of
                None \<Rightarrow> Panic ''kerneltrap''
              | Some ip \<Rightarrow> Ok ip (idup ip s)) s)
       (\<lambda>ip s. namex_loop path parent [] ip s)"

definition namei :: "u8 list \<Rightarrow> 'z kfs_scheme \<Rightarrow> (nat option, 'z kfs_scheme) outcome" where
  "namei path s = obind (namex path False s) (\<lambda>(ip, name) s. Ok ip s)"

definition nameiparent ::
  "u8 list \<Rightarrow> 'z kfs_scheme \<Rightarrow> (nat option \<times> u8 list, 'z kfs_scheme) outcome" where
  "nameiparent path s = namex path True s"

end
