(* ===== verification/Mkfs.thy ===== *)
theory Mkfs
  imports Dir
begin

text \<open>
  The tool that builds the file system image, \<^verbatim>\<open>mkfs/mkfs.c\<close>. The image is a map from sectors to
  their bytes; a sector that was never written cannot be read. A failed assertion and
  \<^verbatim>\<open>die\<close> end the tool and are \<open>None\<close>. \<^verbatim>\<open>xshort\<close> and \<^verbatim>\<open>xint\<close>
  give the little-endian bytes of a number, which is how the fields are stored here. The structures
  on disk and their offsets are those of the kernel's file system.
\<close>

section \<open>Layout\<close>

definition FSSIZE :: nat where "FSSIZE = 2000"
definition NINODES :: nat where "NINODES = 200"

definition nbitmap :: nat where "nbitmap = FSSIZE div (BSIZE * 8) + 1"
definition ninodeblocks :: nat where "ninodeblocks = NINODES div IPB + 1"
definition nlog :: nat where "nlog = LOGSIZE"
definition nmeta :: nat where "nmeta = 2 + nlog + ninodeblocks + nbitmap"
definition nblocks :: nat where "nblocks = FSSIZE - nmeta"

definition mk_sb :: superblock where
  "mk_sb = \<lparr>sb_magic = FSMAGIC, sb_size = of_nat FSSIZE, sb_nblocks = of_nat nblocks, sb_ninodes = of_nat NINODES,
     sb_nlog = of_nat nlog, sb_logstart = 2, sb_inodestart = of_nat (2 + nlog),
     sb_bmapstart = of_nat (2 + nlog + ninodeblocks)\<rparr>"

definition encode_sb :: "superblock \<Rightarrow> u8 list \<Rightarrow> u8 list" where
  "encode_sb x d =
     (let d = put32 d 0 (sb_magic x); d = put32 d 4 (sb_size x); d = put32 d 8 (sb_nblocks x);
          d = put32 d 12 (sb_ninodes x); d = put32 d 16 (sb_nlog x); d = put32 d 20 (sb_logstart x);
          d = put32 d 24 (sb_inodestart x)
      in put32 d 28 (sb_bmapstart x))"

section \<open>Sectors, inodes and the bitmap\<close>

record mkfs =
  img :: "u32 \<rightharpoonup> u8 list"
  freeinode :: u32
  freeblock :: u32

definition wsect :: "u32 \<Rightarrow> u8 list \<Rightarrow> mkfs \<Rightarrow> mkfs" where
  "wsect sec d s = s\<lparr>img := (img s)(sec \<mapsto> d)\<rparr>"

definition rsect :: "u32 \<Rightarrow> mkfs \<Rightarrow> u8 list option" where
  "rsect sec s = img s sec"

definition winode :: "u32 \<Rightarrow> inode \<Rightarrow> mkfs \<Rightarrow> mkfs option" where
  "winode inum ip s =
     (let bn = IBLOCK inum mk_sb
      in map_option (\<lambda>d. wsect bn (write_dinode d (dinode_off inum) ip) s) (rsect bn s))"

definition rinode :: "u32 \<Rightarrow> mkfs \<Rightarrow> inode option" where
  "rinode inum s = map_option (\<lambda>d. read_dinode d (dinode_off inum) inode0) (rsect (IBLOCK inum mk_sb) s)"

definition mk_ialloc :: "u16 \<Rightarrow> mkfs \<Rightarrow> (u32 \<times> mkfs) option" where
  "mk_ialloc type s =
     (let inum = freeinode s;
          din = inode0\<lparr>i_type := type, i_nlink := 1, i_size := 0\<rparr>
      in map_option (Pair inum) (winode inum din (s\<lparr>freeinode := inum + 1\<rparr>)))"

fun mk_bits :: "nat \<Rightarrow> nat \<Rightarrow> u8 list \<Rightarrow> u8 list" where
  "mk_bits i 0 d = d"
| "mk_bits i (Suc k) d = mk_bits (i + 1) k (d[i div 8 := d ! (i div 8) OR push_bit (i mod 8) 1])"

definition mk_balloc :: "nat \<Rightarrow> mkfs \<Rightarrow> mkfs option" where
  "mk_balloc used s =
     (if used < BSIZE * 8 then Some (wsect (sb_bmapstart mk_sb) (mk_bits 0 used (replicate BSIZE 0)) s) else None)"

section \<open>Appending to a file\<close>

definition take_block :: "mkfs \<Rightarrow> u32 \<times> mkfs" where
  "take_block s = (freeblock s, s\<lparr>freeblock := freeblock s + 1\<rparr>)"

text \<open>The block that holds block \<open>fbn\<close> of the file, allocated when it has none.\<close>

definition file_block :: "nat \<Rightarrow> inode \<Rightarrow> mkfs \<Rightarrow> (u32 \<times> inode \<times> mkfs) option" where
  "file_block fbn din s =
     (if fbn < NDIRECT then
        (if i_addrs din ! fbn = 0 then
           let (b, s) = take_block s in Some (b, din\<lparr>i_addrs := (i_addrs din)[fbn := b]\<rparr>, s)
         else Some (i_addrs din ! fbn, din, s))
      else
        let (din, s) =
          (if i_addrs din ! NDIRECT = 0 then
             let (b, s) = take_block s in (din\<lparr>i_addrs := (i_addrs din)[NDIRECT := b]\<rparr>, s)
           else (din, s));
          ind = i_addrs din ! NDIRECT; off = 4 * (fbn - NDIRECT)
        in case rsect ind s of
             None \<Rightarrow> None
           | Some d \<Rightarrow>
               if get32 d off = 0 then
                 let (b, s) = take_block s in Some (b, din, wsect ind (put32 d off b) s)
               else Some (get32 d off, din, s))"

function iappend_loop :: "inode \<Rightarrow> nat \<Rightarrow> u8 list \<Rightarrow> mkfs \<Rightarrow> (inode \<times> nat \<times> mkfs) option" where
  "iappend_loop din off p s =
     (if p = [] then Some (din, off, s)
      else let fbn = off div BSIZE
        in if \<not> fbn < MAXFILE then None
           else case file_block fbn din s of
             None \<Rightarrow> None
           | Some (x, din, s) \<Rightarrow>
               let n1 = min (length p) ((fbn + 1) * BSIZE - off)
               in case rsect x s of
                    None \<Rightarrow> None
                  | Some d \<Rightarrow>
                      iappend_loop din (off + n1) (drop n1 p) (wsect x (blit d (off - fbn * BSIZE) (take n1 p)) s))"
  by pat_completeness auto
termination
proof (relation "measure (\<lambda>(din, off, p, s). length p)")
  fix din off s fbn n1 and p :: "u8 list" and din' s' d x r y z
  assume "p \<noteq> []" "fbn = off div BSIZE" "n1 = min (length p) ((fbn + 1) * BSIZE - off)"
  moreover have "off < (off div BSIZE + 1) * BSIZE"
    using mod_less_divisor [of BSIZE off] div_mult_mod_eq [of off BSIZE] by (simp add: BSIZE_def)
  ultimately show "((din', off + n1, drop n1 p, s'), din, off, p, s) \<in> measure (\<lambda>(din, off, p, s). length p)"
    by (cases p) (auto simp: min_def)
qed (rule wf_measure)

declare iappend_loop.simps [simp del]

definition iappend :: "u32 \<Rightarrow> u8 list \<Rightarrow> mkfs \<Rightarrow> mkfs option" where
  "iappend inum p s =
     (case rinode inum s of
        None \<Rightarrow> None
      | Some din \<Rightarrow>
          (case iappend_loop din (unat (i_size din)) p s of
             None \<Rightarrow> None
           | Some (din, off, s) \<Rightarrow> winode inum (din\<lparr>i_size := of_nat off\<rparr>) s))"

section \<open>Building an image\<close>

definition strip_name :: "u8 list \<Rightarrow> u8 list" where
  "strip_name arg =
     (let user = map of_char ''user/''
      in if take 5 arg = user then drop 5 arg else arg)"

definition skip_underscore :: "u8 list \<Rightarrow> u8 list" where
  "skip_underscore name = (if name \<noteq> [] \<and> hd name = of_char CHR ''_'' then tl name else name)"

text \<open>The read loop: a host file arrives in pieces of a block.\<close>

function append_file :: "u32 \<Rightarrow> u8 list \<Rightarrow> mkfs \<Rightarrow> mkfs option" where
  "append_file inum content s =
     (if content = [] then Some s
      else case iappend inum (take BSIZE content) s of
             None \<Rightarrow> None
           | Some s \<Rightarrow> append_file inum (drop BSIZE content) s)"
  by pat_completeness auto
termination
  by (relation "measure (\<lambda>(inum, content, s). length content)") (auto simp: BSIZE_def)

declare append_file.simps [simp del]

fun add_files :: "u32 \<Rightarrow> (u8 list \<times> u8 list) list \<Rightarrow> mkfs \<Rightarrow> mkfs option" where
  "add_files rootino [] s = Some s"
| "add_files rootino ((arg, content) # files) s =
     (let shortname = strip_name arg
      in if of_char CHR ''/'' \<in> set shortname then None
         else let shortname = skip_underscore shortname
           in case mk_ialloc T_FILE s of
                None \<Rightarrow> None
              | Some (inum, s) \<Rightarrow>
                  (case iappend rootino (dirent shortname inum) s of
                     None \<Rightarrow> None
                   | Some s \<Rightarrow>
                       (case append_file inum content s of
                          None \<Rightarrow> None
                        | Some s \<Rightarrow> add_files rootino files s)))"

text \<open>The last steps of \<^verbatim>\<open>main\<close>: the size of the root directory is rounded up, then the bitmap.\<close>

definition fix_root :: "u32 \<Rightarrow> mkfs \<Rightarrow> mkfs option" where
  "fix_root rootino s =
     (case rinode rootino s of
        None \<Rightarrow> None
      | Some din \<Rightarrow>
          (let off = (unat (i_size din) div BSIZE + 1) * BSIZE
           in winode rootino (din\<lparr>i_size := of_nat off\<rparr>) s))"

definition empty_image :: mkfs where
  "empty_image = \<lparr>img = (\<lambda>sec. if unat sec < FSSIZE then Some (replicate BSIZE 0) else None),
     freeinode = 1, freeblock = of_nat nmeta\<rparr>"

definition mk_main :: "(u8 list \<times> u8 list) list \<Rightarrow> mkfs option" where
  "mk_main files =
     (let s = wsect 1 (encode_sb mk_sb (replicate BSIZE 0)) empty_image
      in case mk_ialloc T_DIR s of
           None \<Rightarrow> None
         | Some (rootino, s) \<Rightarrow>
             if rootino \<noteq> ROOTINO then None
             else Option.bind (iappend rootino (dirent [46] rootino) s) (\<lambda>s.
               Option.bind (iappend rootino (dirent [46, 46] rootino) s) (\<lambda>s.
               Option.bind (add_files rootino files s) (\<lambda>s.
               Option.bind (fix_root rootino s) (\<lambda>s. mk_balloc (unat (freeblock s)) s)))))"

section \<open>What the kernel reads\<close>

lemma decode_encode_sb: "32 \<le> length d \<Longrightarrow> decode_sb (encode_sb x d) = x"
  by (simp add: decode_sb_def encode_sb_def Let_def)

lemma layout: "nmeta = 46" "nblocks = 1954" "unat (sb_bmapstart mk_sb) = 45" "unat (sb_inodestart mk_sb) = 32"
  by (simp_all add: nmeta_def nblocks_def mk_sb_def nbitmap_def ninodeblocks_def nlog_def LOGSIZE_def IPB_def BSIZE_def
      FSSIZE_def NINODES_def)

lemma length_mk_bits [simp]: "length (mk_bits i k d) = length d"
  by (induction i k d rule: mk_bits.induct) simp_all

lemma bit_clear_iff: "bit_clear d j \<longleftrightarrow> \<not> bit (d ! (j div 8)) (j mod 8)"
  unfolding bit_clear_def
  by (metis and_exp_eq_0_iff_not_bit push_bit_of_1)

lemma mk_bits_clear:
  "i + k \<le> 8 * length d \<Longrightarrow> j < 8 * length d \<Longrightarrow>
   bit_clear (mk_bits i k d) j \<longleftrightarrow> bit_clear d j \<and> \<not> (i \<le> j \<and> j < i + k)"
proof (induction i k d rule: mk_bits.induct)
  case (2 i k d)
  let ?d = "d[i div 8 := d ! (i div 8) OR push_bit (i mod 8) 1]"
  have "i div 8 < length d" using 2(2) by simp
  then have "bit_clear ?d j \<longleftrightarrow> bit_clear d j \<and> j \<noteq> i"
  proof (cases "j div 8 = i div 8")
    case True
    then have "j = i \<longleftrightarrow> j mod 8 = i mod 8" by (metis div_mult_mod_eq)
    then show ?thesis
      using True \<open>i div 8 < length d\<close> by (auto simp: bit_clear_iff bit_simps)
  next
    case False
    then show ?thesis by (auto simp: bit_clear_iff)
  qed
  then show ?case using 2 by auto
qed simp

section \<open>An image with an empty root directory\<close>

lemma put_addrs_length [simp]: "length (put_addrs d i as) = length d"
  by (induction d i as rule: put_addrs.induct) simp_all

lemma put_addrs_before:
  "j + 4 \<le> i \<Longrightarrow> get32 (put_addrs d i as) j = get32 d j"
  "j + 2 \<le> i \<Longrightarrow> get16 (put_addrs d i as) j = get16 d j"
  by (induction d i as rule: put_addrs.induct) simp_all

lemma put_addrs_nth:
  "k < length as \<Longrightarrow> i + 4 * length as \<le> length d \<Longrightarrow> get32 (put_addrs d i as) (i + 4 * k) = as ! k"
proof (induction d i as arbitrary: k rule: put_addrs.induct)
  case (2 d i a as)
  then show ?case
  proof (cases k)
    case 0
    then show ?thesis using 2(3) by (simp add: put_addrs_before)
  next
    case (Suc j)
    then show ?thesis using 2(1) [of j] 2(2,3) by (simp add: add.assoc)
  qed
qed simp

lemma read_write_dinode:
  assumes "i + 64 \<le> length d" and "length (i_addrs ip) = NDIRECT + 1"
  shows "read_dinode (write_dinode d i ip) i jp =
    jp\<lparr>i_type := i_type ip, i_major := i_major ip, i_minor := i_minor ip, i_nlink := i_nlink ip,
       i_size := i_size ip, i_addrs := i_addrs ip\<rparr>"
proof -
  have "map (\<lambda>k. get32 (write_dinode d i ip) (i + 12 + 4 * k)) [0..<NDIRECT + 1] = i_addrs ip"
    using assms by (intro nth_equalityI) (auto simp: write_dinode_def Let_def NDIRECT_def put_addrs_nth)
  then show ?thesis
    using assms by (simp add: read_dinode_def) (simp add: write_dinode_def Let_def put_addrs_before)
qed

lemma rinode_winode:
  assumes "winode inum ip s = Some s'" and "length (i_addrs ip) = NDIRECT + 1"
    and "\<And>d. img s (IBLOCK inum mk_sb) = Some d \<Longrightarrow> length d = BSIZE"
  shows "rinode inum s' = Some (inode0\<lparr>i_type := i_type ip, i_major := i_major ip, i_minor := i_minor ip,
    i_nlink := i_nlink ip, i_size := i_size ip, i_addrs := i_addrs ip\<rparr>)"
proof -
  obtain d where d: "img s (IBLOCK inum mk_sb) = Some d"
    and s': "s' = wsect (IBLOCK inum mk_sb) (write_dinode d (dinode_off inum) ip) s"
    using assms(1) by (auto simp: winode_def rsect_def Let_def)
  have "unat inum mod IPB < 16" by (simp add: IPB_def BSIZE_def)
  then have "dinode_off inum + 64 \<le> length d" using assms(3) [OF d] by (simp add: dinode_off_def BSIZE_def)
  then show ?thesis using read_write_dinode assms(2) by (simp add: rinode_def rsect_def s' wsect_def)
qed

text \<open>Every sector of the image is there.\<close>

definition full_image :: "mkfs \<Rightarrow> bool" where
  "full_image s \<longleftrightarrow> (\<forall>sec. unat sec < FSSIZE \<longrightarrow> (\<exists>d. img s sec = Some d \<and> length d = BSIZE))"

lemma full_wsect: "full_image s \<Longrightarrow> length d = BSIZE \<Longrightarrow> full_image (wsect sec d s)"
  by (simp add: full_image_def wsect_def)

lemma write_dinode_length [simp]: "length (write_dinode d i ip) = length d"
  by (simp add: write_dinode_def Let_def)

lemma winode_full:
  assumes "full_image s" and "unat (IBLOCK inum mk_sb) < FSSIZE" and "length (i_addrs ip) = NDIRECT + 1"
  shows "\<exists>s'. winode inum ip s = Some s' \<and> full_image s' \<and> freeblock s' = freeblock s \<and> freeinode s' = freeinode s \<and>
    rinode inum s' = Some (inode0\<lparr>i_type := i_type ip, i_major := i_major ip, i_minor := i_minor ip,
      i_nlink := i_nlink ip, i_size := i_size ip, i_addrs := i_addrs ip\<rparr>)"
proof -
  obtain d where d: "img s (IBLOCK inum mk_sb) = Some d" "length d = BSIZE" using assms by (auto simp: full_image_def)
  let ?s = "wsect (IBLOCK inum mk_sb) (write_dinode d (dinode_off inum) ip) s"
  have w: "winode inum ip s = Some ?s" using d by (simp add: winode_def rsect_def Let_def)
  have "full_image ?s" using full_wsect [OF assms(1)] d(2) by simp
  moreover have "freeblock ?s = freeblock s" "freeinode ?s = freeinode s" by (simp_all add: wsect_def)
  ultimately show ?thesis using w rinode_winode [OF w assms(3)] d by auto
qed

lemma iappend_loop_Nil: "iappend_loop din off [] s = Some (din, off, s)"
  by (subst iappend_loop.simps) simp

text \<open>An append that stays in the first block of a file.\<close>

lemma iappend_first_block:
  assumes full: "full_image s" and ino: "rinode inum s = Some din" "unat (IBLOCK inum mk_sb) < FSSIZE" "length (i_addrs din) = NDIRECT + 1"
    and p: "p \<noteq> []" "unat (i_size din) + length p < BSIZE"
    and blk: "unat (if i_addrs din ! 0 = 0 then freeblock s else i_addrs din ! 0) < FSSIZE"
  shows "\<exists>s' din'. iappend inum p s = Some s' \<and> full_image s' \<and> rinode inum s' = Some din' \<and>
    i_size din' = i_size din + of_nat (length p) \<and> freeblock s' = (if i_addrs din ! 0 = 0 then freeblock s + 1 else freeblock s) \<and>
    i_addrs din' = (i_addrs din)[0 := if i_addrs din ! 0 = 0 then freeblock s else i_addrs din ! 0]"
proof -
  define b where "b = (if i_addrs din ! 0 = 0 then freeblock s else i_addrs din ! 0)"
  let ?din = "din\<lparr>i_addrs := (i_addrs din)[0 := b]\<rparr>"
  define s1 where "s1 = (if i_addrs din ! 0 = 0 then s\<lparr>freeblock := freeblock s + 1\<rparr> else s)"
  have f: "file_block 0 din s = Some (b, ?din, s1)"
    by (simp add: file_block_def NDIRECT_def take_block_def s1_def b_def)
  have s1: "full_image s1" using full by (simp add: full_image_def s1_def)
  obtain d where d: "img s1 b = Some d" "length d = BSIZE" using s1 blk by (auto simp: full_image_def b_def [symmetric])
  have z: "unat (i_size din) div BSIZE = 0" and m: "min (length p) (BSIZE - unat (i_size din)) = length p"
    using p(2) by simp_all
  let ?s2 = "wsect b (blit d (unat (i_size din)) p) s1" and ?off = "unat (i_size din) + length p"
  have l: "iappend_loop din (unat (i_size din)) p s = Some (?din, ?off, ?s2)"
    using f d p(1) z m by (subst iappend_loop.simps) (simp add: MAXFILE_def NDIRECT_def rsect_def iappend_loop_Nil)
  have "full_image ?s2" using full_wsect [OF s1] d(2) p(2) by simp
  then obtain s' where w: "winode inum (?din\<lparr>i_size := of_nat ?off\<rparr>) ?s2 = Some s'" "full_image s'" "freeblock s' = freeblock s1"
    "rinode inum s' = Some (inode0\<lparr>i_type := i_type din, i_major := i_major din, i_minor := i_minor din,
      i_nlink := i_nlink din, i_size := of_nat ?off, i_addrs := (i_addrs din)[0 := b]\<rparr>)"
    using winode_full [of ?s2 inum "?din\<lparr>i_size := of_nat ?off\<rparr>"] ino by (auto simp: wsect_def)
  have "iappend inum p s = Some s'" using ino(1) l w(1) by (simp add: iappend_def)
  then show ?thesis unfolding b_def [symmetric] using w by (intro exI [of _ s'] exI) (auto simp: s1_def)
qed

lemma dirent_length: "length (dirent name inum) = 16"
proof -
  have "length (strncpy_buf t n) = n" for t n by (induction t n rule: strncpy_buf.induct) simp_all
  then show ?thesis by (simp add: dirent_def DIRSIZ_def)
qed

lemma demo_image: "\<exists>s. mk_main [] = Some s"
proof -
  have c: "unat (IBLOCK 1 mk_sb) < FSSIZE" "46 < FSSIZE" "unat (of_nat nmeta :: u32) = 46" "(of_nat nmeta :: u32) \<noteq> 0"
    by (simp_all add: IBLOCK_def mk_sb_def nlog_def LOGSIZE_def IPB_def BSIZE_def layout FSSIZE_def)
  let ?s0 = "wsect 1 (encode_sb mk_sb (replicate BSIZE 0)) empty_image"
  have f0: "full_image (?s0\<lparr>freeinode := 2\<rparr>)" by (simp add: full_image_def wsect_def empty_image_def encode_sb_def Let_def)
  obtain s1 where s1: "mk_ialloc T_DIR ?s0 = Some (1, s1)" "full_image s1" "freeblock s1 = of_nat nmeta"
    and r1: "\<exists>din. rinode 1 s1 = Some din \<and> i_size din = 0 \<and> i_addrs din = replicate 13 0"
    using winode_full [OF f0 c(1), of "inode0\<lparr>i_type := T_DIR, i_nlink := 1, i_size := 0\<rparr>"]
    by (auto simp: mk_ialloc_def wsect_def empty_image_def inode0_def NDIRECT_def)
  obtain din where din: "rinode 1 s1 = Some din" "i_size din = 0" "i_addrs din = replicate 13 0" using r1 by blast
  have p: "dirent n i \<noteq> []" "length (dirent n i) = 16" for n i using dirent_length [of n i] by auto
  obtain s2 din2 where s2: "iappend 1 (dirent [46] 1) s1 = Some s2" "full_image s2" "rinode 1 s2 = Some din2"
    "i_size din2 = 16" "freeblock s2 = of_nat nmeta + 1" "i_addrs din2 = (replicate 13 0)[0 := of_nat nmeta]"
    using iappend_first_block [OF s1(2) din(1) c(1) _ p(1), of "[46]" 1] din s1(3) c
    by (auto simp: p(2) NDIRECT_def BSIZE_def)
  obtain s3 din3 where s3: "iappend 1 (dirent [46, 46] 1) s2 = Some s3" "full_image s3" "rinode 1 s3 = Some din3"
    "length (i_addrs din3) = NDIRECT + 1" "freeblock s3 = of_nat nmeta + 1"
    using iappend_first_block [OF s2(2,3) c(1) _ p(1), of "[46, 46]" 1] s2(4-6) c
    by (auto simp: p(2) NDIRECT_def BSIZE_def)
  obtain s4 where s4: "fix_root 1 s3 = Some s4" "freeblock s4 = of_nat nmeta + 1"
    using winode_full [OF s3(2) c(1), of "din3\<lparr>i_size := of_nat ((unat (i_size din3) div BSIZE + 1) * BSIZE)\<rparr>"] s3(3-5)
    by (auto simp: fix_root_def Let_def)
  have "unat (freeblock s4) < BSIZE * 8" by (simp add: s4(2) layout BSIZE_def)
  then show ?thesis using s1(1) s2(1) s3(1) s4(1) by (simp add: mk_main_def Let_def ROOTINO_def mk_balloc_def)
qed

section \<open>The first free block\<close>

lemma mk_main_bitmap:
  assumes "mk_main files = Some s"
  shows "unat (freeblock s) < 8 * BSIZE" and "img s (sb_bmapstart mk_sb) = Some (mk_bits 0 (unat (freeblock s)) (replicate BSIZE 0))"
proof -
  obtain s' where "mk_balloc (unat (freeblock s')) s' = Some s"
    using assms by (auto simp: mk_main_def Let_def bind_eq_Some_conv split: option.splits if_splits)
  then show "unat (freeblock s) < 8 * BSIZE"
    "img s (sb_bmapstart mk_sb) = Some (mk_bits 0 (unat (freeblock s)) (replicate BSIZE 0))"
    by (auto simp: mk_balloc_def wsect_def split: if_splits)
qed

lemma balloc_scan_first:
  "(\<And>x. x < i + k \<Longrightarrow> bit_clear d x \<longleftrightarrow> u \<le> x) \<Longrightarrow> i \<le> u \<Longrightarrow> balloc_scan i k d = (if u < i + k then Some u else None)"
proof (induction i k d rule: balloc_scan.induct)
  case (2 i k d)
  then show ?case by (cases "u = i") auto
qed simp

end
