(* ===== verification/Spinlock.thy ===== *)
theory Spinlock
  imports Prelude
begin

text \<open>
  Spin locks and the nesting of interrupt disabling, \<^verbatim>\<open>kernel/spinlock.c\<close>, on a
  machine with several CPUs whose instructions interleave. The rest of the development runs
  the critical sections of the kernel atomically; this theory shows what that rests on: the
  locks exclude each other, interrupts are off while a CPU holds one, and the checks of
  \<^verbatim>\<open>release\<close> and \<^verbatim>\<open>pop_off\<close> never fire in matched use.

  A lock is a number, as is a CPU. Of \<^verbatim>\<open>struct cpu\<close> the record has the two fields
  these routines use; the other two are in the theory of the scheduler. \<open>sie\<close> is the
  interrupt enable bit of the CPU's status register, which \<^verbatim>\<open>intr_get\<close> reads.
\<close>

section \<open>State and operations\<close>

record spinlock =
  lk_locked :: bool
  lk_cpu :: "nat option"

record cpu =
  noff :: int
  intena :: bool
  sie :: bool

record smp =
  lks :: "nat \<Rightarrow> spinlock"
  cpus :: "nat \<Rightarrow> cpu"

definition upd_lk :: "nat \<Rightarrow> (spinlock \<Rightarrow> spinlock) \<Rightarrow> 'z smp_scheme \<Rightarrow> 'z smp_scheme" where
  "upd_lk l f s = s\<lparr>lks := (lks s)(l := f (lks s l))\<rparr>"

definition upd_cpu :: "nat \<Rightarrow> (cpu \<Rightarrow> cpu) \<Rightarrow> 'z smp_scheme \<Rightarrow> 'z smp_scheme" where
  "upd_cpu c f s = s\<lparr>cpus := (cpus s)(c := f (cpus s c))\<rparr>"

definition initlock :: "nat \<Rightarrow> 'z smp_scheme \<Rightarrow> 'z smp_scheme" where
  "initlock l s = upd_lk l (\<lambda>_. \<lparr>lk_locked = False, lk_cpu = None\<rparr>) s"

definition holding :: "nat \<Rightarrow> nat \<Rightarrow> 'z smp_scheme \<Rightarrow> bool" where
  "holding c l s \<longleftrightarrow> lk_locked (lks s l) \<and> lk_cpu (lks s l) = Some c"

definition push_off :: "nat \<Rightarrow> 'z smp_scheme \<Rightarrow> 'z smp_scheme" where
  "push_off c s =
     (let old = sie (cpus s c);
          s = upd_cpu c (\<lambda>x. x\<lparr>sie := False\<rparr>) s;
          s = (if noff (cpus s c) = 0 then upd_cpu c (\<lambda>x. x\<lparr>intena := old\<rparr>) s else s)
      in upd_cpu c (\<lambda>x. x\<lparr>noff := noff x + 1\<rparr>) s)"

definition pop_off :: "nat \<Rightarrow> 'z smp_scheme \<Rightarrow> (unit, 'z smp_scheme) outcome" where
  "pop_off c s =
     (if sie (cpus s c) then Panic ''pop_off - interruptible''
      else if noff (cpus s c) < 1 then Panic ''pop_off''
      else
        let s = upd_cpu c (\<lambda>x. x\<lparr>noff := noff x - 1\<rparr>) s
        in if noff (cpus s c) = 0 \<and> intena (cpus s c) then Ok () (upd_cpu c (\<lambda>x. x\<lparr>sie := True\<rparr>) s)
           else Ok () s)"

text \<open>
  \<^verbatim>\<open>acquire\<close> in the pieces other CPUs can interleave with: up to the spin loop, one
  round of the loop with its atomic swap, and the recording of the holder.
\<close>

definition acquire_enter :: "nat \<Rightarrow> nat \<Rightarrow> 'z smp_scheme \<Rightarrow> (unit, 'z smp_scheme) outcome" where
  "acquire_enter c l s =
     (let s = push_off c s in if holding c l s then Panic ''acquire'' else Ok () s)"

definition test_and_set :: "nat \<Rightarrow> 'z smp_scheme \<Rightarrow> bool \<times> 'z smp_scheme" where
  "test_and_set l s = (lk_locked (lks s l), upd_lk l (\<lambda>x. x\<lparr>lk_locked := True\<rparr>) s)"

definition acquire_leave :: "nat \<Rightarrow> nat \<Rightarrow> 'z smp_scheme \<Rightarrow> 'z smp_scheme" where
  "acquire_leave c l s = upd_lk l (\<lambda>x. x\<lparr>lk_cpu := Some c\<rparr>) s"

text \<open>\<^verbatim>\<open>release\<close> likewise: up to the clearing of the holder, the atomic store, and the pop.\<close>

definition release_enter :: "nat \<Rightarrow> nat \<Rightarrow> 'z smp_scheme \<Rightarrow> (unit, 'z smp_scheme) outcome" where
  "release_enter c l s =
     (if \<not> holding c l s then Panic ''release'' else Ok () (upd_lk l (\<lambda>x. x\<lparr>lk_cpu := None\<rparr>) s))"

definition sync_release :: "nat \<Rightarrow> 'z smp_scheme \<Rightarrow> 'z smp_scheme" where
  "sync_release l s = upd_lk l (\<lambda>x. x\<lparr>lk_locked := False\<rparr>) s"

text \<open>The two routines run by one CPU without interference.\<close>

definition acquire :: "nat \<Rightarrow> nat \<Rightarrow> 'z smp_scheme \<Rightarrow> (unit, 'z smp_scheme) outcome" where
  "acquire c l s =
     obind (acquire_enter c l s) (\<lambda>_ s.
       case test_and_set l s of (old, s) \<Rightarrow> if old then Diverges else Ok () (acquire_leave c l s))"

definition release :: "nat \<Rightarrow> nat \<Rightarrow> 'z smp_scheme \<Rightarrow> (unit, 'z smp_scheme) outcome" where
  "release c l s = obind (release_enter c l s) (\<lambda>_ s. pop_off c (sync_release l s))"

section \<open>CPUs that interleave\<close>

text \<open>
  Where a CPU is inside the two routines, and, as history, the locks it has acquired and not
  begun to release and how many calls of \<^verbatim>\<open>push_off\<close> outside \<^verbatim>\<open>acquire\<close>, as in
  \<^verbatim>\<open>myproc\<close> and \<^verbatim>\<open>uartputc_sync\<close>, it has not undone.
\<close>

datatype pc = Run | Spin nat | Got nat | Unlock nat | Pop

record sys = smp +
  at :: "nat \<Rightarrow> pc"
  held :: "nat \<Rightarrow> nat set"
  bare :: "nat \<Rightarrow> nat"

definition goes :: "nat \<Rightarrow> pc \<Rightarrow> nat set \<Rightarrow> sys \<Rightarrow> sys" where
  "goes c q h s = s\<lparr>at := (at s)(c := q), held := (held s)(c := h)\<rparr>"

text \<open>
  Kernel code on a CPU acquires any lock and releases any lock it holds, and calls
  \<^verbatim>\<open>push_off\<close> and, to match, \<^verbatim>\<open>pop_off\<close>; code that has undone all of them may
  switch interrupts on or off.
\<close>

inductive sstep :: "sys \<Rightarrow> sys \<Rightarrow> bool" where
  enter: "at s c = Run \<Longrightarrow> acquire_enter c l s = Ok () t \<Longrightarrow> sstep s (goes c (Spin l) (held s c) t)"
| spin: "at s c = Spin l \<Longrightarrow> test_and_set l s = (True, t) \<Longrightarrow> sstep s t"
| swap: "at s c = Spin l \<Longrightarrow> test_and_set l s = (False, t) \<Longrightarrow> sstep s (goes c (Got l) (held s c) t)"
| leave: "at s c = Got l \<Longrightarrow> sstep s (goes c Run (insert l (held s c)) (acquire_leave c l s))"
| drop: "at s c = Run \<Longrightarrow> l \<in> held s c \<Longrightarrow> release_enter c l s = Ok () t \<Longrightarrow>
    sstep s (goes c (Unlock l) (held s c - {l}) t)"
| unlock: "at s c = Unlock l \<Longrightarrow> sstep s (goes c Pop (held s c) (sync_release l s))"
| pop: "at s c = Pop \<Longrightarrow> pop_off c s = Ok () t \<Longrightarrow> sstep s (goes c Run (held s c) t)"
| push1: "at s c = Run \<Longrightarrow> sstep s (push_off c (s\<lparr>bare := (bare s)(c := Suc (bare s c))\<rparr>))"
| pop1: "at s c = Run \<Longrightarrow> 0 < bare s c \<Longrightarrow> pop_off c s = Ok () t \<Longrightarrow>
    sstep s (t\<lparr>bare := (bare t)(c := bare t c - 1)\<rparr>)"
| intr: "at s c = Run \<Longrightarrow> noff (cpus s c) = 0 \<Longrightarrow> sstep s (upd_cpu c (\<lambda>x. x\<lparr>sie := on\<rparr>) s)"

definition sys0 :: "sys \<Rightarrow> bool" where
  "sys0 s \<longleftrightarrow> (\<forall>l. lks s l = \<lparr>lk_locked = False, lk_cpu = None\<rparr>) \<and>
     (\<forall>c. noff (cpus s c) = 0 \<and> at s c = Run \<and> held s c = {} \<and> bare s c = 0)"

inductive reach :: "sys \<Rightarrow> bool" where
  start: "sys0 s \<Longrightarrow> reach s"
| step: "reach s \<Longrightarrow> sstep s t \<Longrightarrow> reach t"

text \<open>
  The invariant. A CPU owns a lock from its swap to its atomic store; a locked lock has one
  owner, which is also recorded in the lock except in the two windows after the swap and
  before the store.
\<close>

fun pending :: "pc \<Rightarrow> nat" where
  "pending Run = 0"
| "pending _ = 1"

definition owns :: "nat \<Rightarrow> nat \<Rightarrow> sys \<Rightarrow> bool" where
  "owns c l s \<longleftrightarrow> l \<in> held s c \<or> at s c = Got l \<or> at s c = Unlock l"

definition lock_inv :: "sys \<Rightarrow> bool" where
  "lock_inv s \<longleftrightarrow>
     (\<forall>l c c'. owns c l s \<and> owns c' l s \<longrightarrow> c = c') \<and>
     (\<forall>l. lk_locked (lks s l) \<longleftrightarrow> (\<exists>c. owns c l s)) \<and>
     (\<forall>c l. lk_cpu (lks s l) = Some c \<longleftrightarrow> l \<in> held s c) \<and>
     (\<forall>c l. at s c = Got l \<or> at s c = Unlock l \<longrightarrow> l \<notin> held s c)"

definition cpu_inv :: "sys \<Rightarrow> bool" where
  "cpu_inv s \<longleftrightarrow>
     (\<forall>c. finite (held s c) \<and> noff (cpus s c) = int (card (held s c) + bare s c + pending (at s c)) \<and>
        (noff (cpus s c) > 0 \<longrightarrow> \<not> sie (cpus s c)))"

text \<open>The effect of each piece on the components of the state.\<close>

lemma push_off_eq:
  "push_off c s = s\<lparr>cpus := (cpus s)(c := \<lparr>noff = noff (cpus s c) + 1,
     intena = (if noff (cpus s c) = 0 then sie (cpus s c) else intena (cpus s c)), sie = False\<rparr>)\<rparr>"
  by (simp add: push_off_def upd_cpu_def Let_def fun_eq_iff)

lemma pop_off_Ok:
  assumes "pop_off c s = Ok () t"
  shows "\<not> sie (cpus s c)" and "0 < noff (cpus s c)"
    and "t = s\<lparr>cpus := (cpus s)(c := (cpus s c)\<lparr>noff := noff (cpus s c) - 1,
      sie := noff (cpus s c) = 1 \<and> intena (cpus s c)\<rparr>)\<rparr>"
  using assms by (cases "cpus s c"; auto simp: pop_off_def upd_cpu_def Let_def split: if_splits)+

lemma acquire_enter_Ok:
  "acquire_enter c l s = Ok () t \<longleftrightarrow> \<not> holding c l s \<and> t = push_off c s"
  by (auto simp: acquire_enter_def push_off_eq holding_def Let_def)

lemma release_enter_Ok:
  "release_enter c l s = Ok () t \<longleftrightarrow> holding c l s \<and> t = upd_lk l (\<lambda>x. x\<lparr>lk_cpu := None\<rparr>) s"
  by (auto simp: release_enter_def)

lemmas piece_simps = acquire_enter_Ok release_enter_Ok push_off_eq test_and_set_def acquire_leave_def
  sync_release_def upd_lk_def upd_cpu_def goes_def

lemma sstep_cpu_inv: "sstep s t \<Longrightarrow> cpu_inv s \<Longrightarrow> lock_inv s \<Longrightarrow> cpu_inv t"
proof (induction rule: sstep.induct)
  case (leave s c l)
  then have "l \<notin> held s c" by (simp add: lock_inv_def)
  then show ?case using leave by (simp add: cpu_inv_def piece_simps)
next
  case (drop s c l t)
  then have "card (held s c) = Suc (card (held s c - {l}))"
    by (metis card.remove cpu_inv_def)
  then show ?case using drop by (simp add: cpu_inv_def piece_simps)
next
  case (pop s c t)
  then show ?case using pop_off_Ok [OF pop(2)] by (auto simp: cpu_inv_def goes_def)
next
  case (pop1 s c t)
  then show ?case using pop_off_Ok [OF pop1(3)] by (auto simp: cpu_inv_def)
qed (auto simp: cpu_inv_def piece_simps)

lemma owns_goes:
  "owns c' l (goes c q h s) \<longleftrightarrow> (if c' = c then l \<in> h \<or> q = Got l \<or> q = Unlock l else owns c' l s)"
  by (simp add: owns_def goes_def)

lemma lock_inv_same:
  assumes "lock_inv s" and "lks t = lks s" and "held t = held s" and "\<And>c l. owns c l t = owns c l s"
    and "\<And>c l. at t c = Got l \<or> at t c = Unlock l \<Longrightarrow> at s c = Got l \<or> at s c = Unlock l"
  shows "lock_inv t"
  using assms unfolding lock_inv_def by simp blast

lemma lock_invD:
  assumes "lock_inv s"
  shows "owns c l s \<Longrightarrow> owns c' l s \<Longrightarrow> c = c'" and "lk_locked (lks s l) \<longleftrightarrow> (\<exists>c. owns c l s)"
    and "lk_cpu (lks s l) = Some c \<longleftrightarrow> l \<in> held s c" and "at s c = Got l \<or> at s c = Unlock l \<Longrightarrow> l \<notin> held s c"
  using assms by (auto simp: lock_inv_def)

lemma lock_inv_swap:
  assumes inv: "lock_inv s" and "at s c = Spin l" and "\<not> lk_locked (lks s l)"
  shows "lock_inv (goes c (Got l) (held s c) (upd_lk l (\<lambda>x. x\<lparr>lk_locked := True\<rparr>) s))" (is "lock_inv ?t")
proof -
  have no: "\<not> owns c' l s" for c' using lock_invD(2) [OF inv, of l] assms(3) by blast
  have o: "owns c' l' ?t \<longleftrightarrow> owns c' l' s \<or> c' = c \<and> l' = l" for c' l'
    using assms(2) by (auto simp: owns_def goes_def upd_lk_def)
  show ?thesis
    unfolding lock_inv_def o
  proof (intro conjI allI impI)
    show "c1 = c2" if "(owns c1 l' s \<or> c1 = c \<and> l' = l) \<and> (owns c2 l' s \<or> c2 = c \<and> l' = l)" for l' c1 c2
      using that no lock_invD(1) [OF inv] by blast
    show "lk_locked (lks ?t l') \<longleftrightarrow> (\<exists>c'. owns c' l' s \<or> c' = c \<and> l' = l)" for l'
      using lock_invD(2) [OF inv, of l'] by (auto simp: goes_def upd_lk_def)
    show "(lk_cpu (lks ?t l') = Some c') = (l' \<in> held ?t c')" for c' l'
      using lock_invD(3) [OF inv, of l' c'] by (auto simp: goes_def upd_lk_def)
    show "l' \<notin> held ?t c'" if "at ?t c' = Got l' \<or> at ?t c' = Unlock l'" for c' l'
      using that no lock_invD(4) [OF inv, of c' l'] assms(2)
      by (auto simp: goes_def upd_lk_def owns_def split: if_splits)
  qed
qed

lemma lock_inv_leave:
  assumes inv: "lock_inv s" and "at s c = Got l"
  shows "lock_inv (goes c Run (insert l (held s c)) (acquire_leave c l s))" (is "lock_inv ?t")
proof -
  have own: "owns c l s" using assms(2) by (simp add: owns_def)
  then have only: "l \<in> held s c' \<Longrightarrow> c' = c" for c'
    using lock_invD(1) [OF inv, of c' l c] by (simp add: owns_def)
  have o: "owns c' l' ?t \<longleftrightarrow> owns c' l' s" for c' l'
    using assms(2) by (auto simp: owns_def goes_def acquire_leave_def upd_lk_def)
  show ?thesis
    unfolding lock_inv_def o
  proof (intro conjI allI impI)
    show "c1 = c2" if "owns c1 l' s \<and> owns c2 l' s" for l' c1 c2
      using that lock_invD(1) [OF inv] by blast
    show "lk_locked (lks ?t l') \<longleftrightarrow> (\<exists>c'. owns c' l' s)" for l'
      using lock_invD(2) [OF inv, of l'] by (auto simp: goes_def acquire_leave_def upd_lk_def)
    show "(lk_cpu (lks ?t l') = Some c') = (l' \<in> held ?t c')" for c' l'
      using lock_invD(3) [OF inv, of l' c'] only by (auto simp: goes_def acquire_leave_def upd_lk_def)
    show "l' \<notin> held ?t c'" if "at ?t c' = Got l' \<or> at ?t c' = Unlock l'" for c' l'
      using that lock_invD(4) [OF inv, of c' l']
      by (auto simp: goes_def acquire_leave_def upd_lk_def split: if_splits)
  qed
qed

lemma lock_inv_drop:
  assumes inv: "lock_inv s" and "at s c = Run" and "l \<in> held s c"
  shows "lock_inv (goes c (Unlock l) (held s c - {l}) (upd_lk l (\<lambda>x. x\<lparr>lk_cpu := None\<rparr>) s))" (is "lock_inv ?t")
proof -
  have own: "owns c l s" using assms(3) by (simp add: owns_def)
  then have only: "l \<in> held s c' \<Longrightarrow> c' = c" for c'
    using lock_invD(1) [OF inv, of c' l c] by (simp add: owns_def)
  have o: "owns c' l' ?t \<longleftrightarrow> owns c' l' s" for c' l'
    using assms(2,3) by (auto simp: owns_def goes_def upd_lk_def)
  show ?thesis
    unfolding lock_inv_def o
  proof (intro conjI allI impI)
    show "c1 = c2" if "owns c1 l' s \<and> owns c2 l' s" for l' c1 c2
      using that lock_invD(1) [OF inv] by blast
    show "lk_locked (lks ?t l') \<longleftrightarrow> (\<exists>c'. owns c' l' s)" for l'
      using lock_invD(2) [OF inv, of l'] by (auto simp: goes_def upd_lk_def)
    show "(lk_cpu (lks ?t l') = Some c') = (l' \<in> held ?t c')" for c' l'
      using lock_invD(3) [OF inv, of l' c'] only by (auto simp: goes_def upd_lk_def)
    show "l' \<notin> held ?t c'" if "at ?t c' = Got l' \<or> at ?t c' = Unlock l'" for c' l'
      using that lock_invD(4) [OF inv, of c' l'] by (auto simp: goes_def upd_lk_def split: if_splits)
  qed
qed

lemma lock_inv_unlock:
  assumes inv: "lock_inv s" and "at s c = Unlock l"
  shows "lock_inv (goes c Pop (held s c) (sync_release l s))" (is "lock_inv ?t")
proof -
  have own: "owns c l s" and no: "l \<notin> held s c" using assms(2) lock_invD(4) [OF inv] by (simp_all add: owns_def)
  have o: "owns c' l' ?t \<longleftrightarrow> owns c' l' s \<and> l' \<noteq> l" for c' l'
  proof (cases "c' = c")
    case False
    then have "\<not> owns c' l s" using lock_invD(1) [OF inv own] by blast
    then show ?thesis using False by (auto simp: owns_def goes_def sync_release_def upd_lk_def)
  qed (use assms(2) no in \<open>auto simp: owns_def goes_def sync_release_def upd_lk_def\<close>)
  show ?thesis
    unfolding lock_inv_def o
  proof (intro conjI allI impI)
    show "c1 = c2" if "(owns c1 l' s \<and> l' \<noteq> l) \<and> owns c2 l' s \<and> l' \<noteq> l" for l' c1 c2
      using that lock_invD(1) [OF inv] by blast
    show "lk_locked (lks ?t l') \<longleftrightarrow> (\<exists>c'. owns c' l' s \<and> l' \<noteq> l)" for l'
      using lock_invD(2) [OF inv, of l'] by (auto simp: goes_def sync_release_def upd_lk_def)
    show "(lk_cpu (lks ?t l') = Some c') = (l' \<in> held ?t c')" for c' l'
      using lock_invD(3) [OF inv, of l' c'] by (auto simp: goes_def sync_release_def upd_lk_def)
    show "l' \<notin> held ?t c'" if "at ?t c' = Got l' \<or> at ?t c' = Unlock l'" for c' l'
      using that lock_invD(4) [OF inv, of c' l']
      by (auto simp: goes_def sync_release_def upd_lk_def split: if_splits)
  qed
qed

lemma sstep_lock_inv: "sstep s t \<Longrightarrow> lock_inv s \<Longrightarrow> lock_inv t"
proof (induction rule: sstep.induct)
  case (enter s c l t)
  have t: "t = push_off c s" using enter.hyps(2) by (simp add: acquire_enter_Ok)
  show ?case
    unfolding t using enter.hyps(1)
    by (intro lock_inv_same [OF enter.prems]) (auto simp: push_off_eq goes_def owns_def split: if_splits)
next
  case (spin s c l t)
  have "t = s"
  proof -
    have "(lks s l)\<lparr>lk_locked := True\<rparr> = lks s l" and "t = s\<lparr>lks := (lks s)(l := (lks s l)\<lparr>lk_locked := True\<rparr>)\<rparr>"
      using spin.hyps(2) by (simp_all add: test_and_set_def upd_lk_def)
    then show ?thesis by simp
  qed
  then show ?case using spin by simp
next
  case (swap s c l t)
  then show ?case using lock_inv_swap [of s c l] by (simp add: test_and_set_def)
next
  case (leave s c l)
  then show ?case using lock_inv_leave by simp
next
  case (drop s c l t)
  then show ?case using lock_inv_drop [of s c l] by (simp add: release_enter_Ok)
next
  case (unlock s c l)
  then show ?case using lock_inv_unlock by simp
next
  case (pop s c t)
  note t = pop_off_Ok(3) [OF pop.hyps(2)]
  show ?case
    unfolding t using pop.hyps(1)
    by (intro lock_inv_same [OF pop.prems]) (auto simp: goes_def owns_def split: if_splits)
next
  case (push1 s c)
  then show ?case by (intro lock_inv_same [OF push1.prems]) (simp_all add: push_off_eq owns_def)
next
  case (pop1 s c t)
  note t = pop_off_Ok(3) [OF pop1.hyps(3)]
  show ?case unfolding t by (intro lock_inv_same [OF pop1.prems]) (simp_all add: owns_def)
next
  case (intr s c on)
  then show ?case by (intro lock_inv_same [OF intr.prems]) (simp_all add: upd_cpu_def owns_def)
qed

lemma reach_inv: "reach s \<Longrightarrow> lock_inv s \<and> cpu_inv s"
proof (induction rule: reach.induct)
  case (start s)
  then show ?case by (auto simp: sys0_def lock_inv_def cpu_inv_def owns_def)
next
  case (step s t)
  then show ?case using sstep_lock_inv sstep_cpu_inv by blast
qed

text \<open>A machine at rest, and CPU 1 after it has acquired lock 5.\<close>

definition sys_rest :: sys where
  "sys_rest = \<lparr>lks = \<lambda>_. \<lparr>lk_locked = False, lk_cpu = None\<rparr>,
     cpus = \<lambda>_. \<lparr>noff = 0, intena = False, sie = True\<rparr>, at = \<lambda>_. Run, held = \<lambda>_. {},
     bare = \<lambda>_. 0\<rparr>"

lemma reach_held: "\<exists>s. reach s \<and> held s 1 = {5} \<and> at s 1 = Run \<and> bare s 1 = 0 \<and> intena (cpus s 1)"
proof -
  let ?a = "goes 1 (Spin 5) {} (push_off 1 sys_rest)"
  let ?b = "goes 1 (Got 5) {} (snd (test_and_set 5 ?a))"
  let ?c = "goes 1 Run {5} (acquire_leave 1 5 ?b)"
  have r: "reach sys_rest" by (rule reach.start) (simp add: sys0_def sys_rest_def)
  have a: "sstep sys_rest ?a"
    using sstep.enter [of sys_rest 1 5 "push_off 1 sys_rest"]
    by (simp add: acquire_enter_Ok holding_def sys_rest_def)
  have b: "sstep ?a ?b"
    using sstep.swap [of ?a 1 5 "snd (test_and_set 5 ?a)"]
    by (simp add: test_and_set_def goes_def push_off_eq sys_rest_def)
  have c: "sstep ?b ?c" using sstep.leave [of ?b 1 5] by (simp add: goes_def)
  have "reach ?c" using reach.step [OF reach.step [OF reach.step [OF r a] b] c] .
  then show ?thesis
    by (intro exI [of _ ?c]) (simp add: goes_def acquire_leave_def upd_lk_def test_and_set_def push_off_eq sys_rest_def)
qed

text \<open>C9. Spin locks exclude each other under every interleaving: in no reachable state of any
  number of CPUs do two of them hold the same lock.
\<close>

theorem lock_mutual_exclusion:
  assumes "reach s" and "l \<in> held s c" and "l \<in> held s c'"
  shows "c = c'"
  using lock_invD(1) [OF conjunct1 [OF reach_inv [OF assms(1)]], of c l c'] assms(2,3) by (simp add: owns_def)

theorem lock_mutual_exclusion_witness: "\<exists>s. reach s \<and> 5 \<in> held s 1 \<and> (\<forall>c. 5 \<in> held s c \<longrightarrow> c = 1)"
proof -
  obtain s where "reach s" "held s 1 = {5}" using reach_held by blast
  then show ?thesis using lock_mutual_exclusion [of s 5 _ 1] by auto
qed

text \<open>C10. While a CPU holds a lock, is inside \<^verbatim>\<open>acquire\<close> or \<^verbatim>\<open>release\<close>, or has
  a \<^verbatim>\<open>push_off\<close> of its own to undo, its interrupts are off, and its nesting depth is the
  number of its locks and such calls, plus one inside the two routines: no interrupt handler can run on a CPU that holds a lock.
\<close>

theorem interrupts_off_while_locked:
  assumes "reach s" and "held s c \<noteq> {} \<or> at s c \<noteq> Run \<or> 0 < bare s c"
  shows "\<not> sie (cpus s c) \<and> noff (cpus s c) = int (card (held s c)) + int (bare s c) + (if at s c = Run then 0 else 1)"
proof -
  have inv: "finite (held s c)" "noff (cpus s c) = int (card (held s c) + bare s c + pending (at s c))"
      "noff (cpus s c) > 0 \<longrightarrow> \<not> sie (cpus s c)"
    using reach_inv [OF assms(1)] by (auto simp: cpu_inv_def)
  have p: "pending (at s c) = (if at s c = Run then 0 else 1)" by (cases "at s c") auto
  have "0 < card (held s c) + bare s c + pending (at s c)" using assms(2) inv(1) p by (auto simp: card_gt_0_iff)
  then show ?thesis using inv(2,3) p by (auto split: if_splits)
qed

theorem interrupts_off_while_locked_witness: "\<exists>s. reach s \<and> \<not> sie (cpus s 1) \<and> noff (cpus s 1) = 1"
proof -
  obtain s where s: "reach s" "held s 1 = {5}" "at s 1 = Run" "bare s 1 = 0" using reach_held by blast
  then show ?thesis using interrupts_off_while_locked [OF s(1), of 1] by auto
qed

text \<open>C11. The checks of the two routines do not fire: releasing a lock the CPU holds and undoing
  an interrupt nesting never panic, and acquiring panics exactly when the CPU already holds
  the lock.
\<close>

theorem lock_checks_hold:
  assumes "reach s"
  shows "(at s c = Run \<and> l \<in> held s c \<longrightarrow> (\<exists>t. release_enter c l s = Ok () t)) \<and>
    (at s c = Pop \<or> at s c = Run \<and> 0 < bare s c \<longrightarrow> (\<exists>t. pop_off c s = Ok () t)) \<and>
    (acquire_enter c l s = Panic ''acquire'' \<longleftrightarrow> l \<in> held s c)"
proof -
  have L: "lock_inv s" and C: "cpu_inv s" using reach_inv [OF assms] by auto
  have h: "holding c l s \<longleftrightarrow> l \<in> held s c"
    using lock_invD(2,3) [OF L] by (auto simp: holding_def owns_def)
  have "acquire_enter c l s = Panic ''acquire'' \<longleftrightarrow> l \<in> held s c"
    using h by (simp add: acquire_enter_def push_off_eq holding_def Let_def)
  moreover have "\<exists>t. pop_off c s = Ok () t" if "at s c = Pop \<or> at s c = Run \<and> 0 < bare s c"
    using C that by (auto simp: pop_off_def cpu_inv_def Let_def)
  ultimately show ?thesis using h by (auto simp: release_enter_Ok)
qed

theorem lock_checks_hold_witness:
  "\<exists>s t. reach s \<and> release_enter 1 5 s = Ok () t \<and> acquire_enter 1 5 s = Panic ''acquire'' \<and>
     acquire_enter 1 6 s \<noteq> Panic ''acquire''"
proof -
  obtain s where s: "reach s" "held s 1 = {5}" "at s 1 = Run" using reach_held by blast
  then show ?thesis using lock_checks_hold [OF s(1), of 1 5] lock_checks_hold [OF s(1), of 1 6] by auto
qed

text \<open>C12. An acquire and its release, run by a CPU whose interrupts were in any state, put the lock
  and the CPU back as they were: the nesting depth, the interrupt enable bit and, inside
  another critical section, the interrupt state \<^verbatim>\<open>intena\<close> that its last \<^verbatim>\<open>pop_off\<close> is to
  restore. Outside one, \<^verbatim>\<open>intena\<close> is left as the enable bit the acquire found. No other CPU's
  state changes.
\<close>

theorem acquire_release_restores:
  assumes "lks s l = \<lparr>lk_locked = False, lk_cpu = None\<rparr>" and "0 \<le> noff (cpus s c)"
    and "0 < noff (cpus s c) \<Longrightarrow> \<not> sie (cpus s c)"
  shows "\<exists>t u. acquire c l s = Ok () t \<and> holding c l t \<and> \<not> sie (cpus t c) \<and>
    release c l t = Ok () u \<and> lks u = lks s \<and> noff (cpus u c) = noff (cpus s c) \<and>
    sie (cpus u c) = sie (cpus s c) \<and>
    intena (cpus u c) = (if 0 < noff (cpus s c) then intena (cpus s c) else sie (cpus s c)) \<and>
    (\<forall>c'. c' \<noteq> c \<longrightarrow> cpus u c' = cpus s c')"
proof -
  let ?t = "acquire_leave c l (upd_lk l (\<lambda>x. x\<lparr>lk_locked := True\<rparr>) (push_off c s))"
  have "acquire c l s = Ok () ?t"
    using assms(1) by (simp add: acquire_def acquire_enter_def holding_def push_off_eq test_and_set_def Let_def)
  moreover have "holding c l ?t" "\<not> sie (cpus ?t c)"
    by (simp_all add: holding_def acquire_leave_def upd_lk_def push_off_eq)
  moreover have "\<exists>u. release c l ?t = Ok () u \<and> lks u = lks s \<and> noff (cpus u c) = noff (cpus s c) \<and>
      sie (cpus u c) = sie (cpus s c) \<and>
      intena (cpus u c) = (if 0 < noff (cpus s c) then intena (cpus s c) else sie (cpus s c)) \<and>
      (\<forall>c'. c' \<noteq> c \<longrightarrow> cpus u c' = cpus s c')"
    using assms
    by (auto simp: release_def release_enter_def holding_def acquire_leave_def upd_lk_def push_off_eq
        sync_release_def pop_off_def upd_cpu_def Let_def fun_eq_iff)
  ultimately show ?thesis by blast
qed

text \<open>CPU 0 inside a critical section that found interrupts on.\<close>

definition sys_nested :: sys where
  "sys_nested = push_off 0 sys_rest"

theorem acquire_release_restores_witness:
  "(\<exists>t u. acquire 0 3 sys_rest = Ok () t \<and> release 0 3 t = Ok () u \<and> sie (cpus u 0)) \<and>
   (\<exists>t u. acquire 0 3 sys_nested = Ok () t \<and> release 0 3 t = Ok () u \<and>
      cpus u 0 = \<lparr>noff = 1, intena = True, sie = False\<rparr>)"
proof
  show "\<exists>t u. acquire 0 3 sys_rest = Ok () t \<and> release 0 3 t = Ok () u \<and> sie (cpus u 0)"
    using acquire_release_restores [of sys_rest 3 0] by (force simp: sys_rest_def)
  have z: "noff (cpus sys_nested 0) = 1" "\<not> sie (cpus sys_nested 0)" "intena (cpus sys_nested 0)"
      "lks sys_nested 3 = \<lparr>lk_locked = False, lk_cpu = None\<rparr>"
    by (simp_all add: sys_nested_def push_off_eq sys_rest_def)
  then obtain t u where "acquire 0 3 sys_nested = Ok () t" "release 0 3 t = Ok () u"
      "noff (cpus u 0) = 1" "\<not> sie (cpus u 0)" "intena (cpus u 0)"
    using acquire_release_restores [of sys_nested 3 0] by auto
  then show "\<exists>t u. acquire 0 3 sys_nested = Ok () t \<and> release 0 3 t = Ok () u \<and>
      cpus u 0 = \<lparr>noff = 1, intena = True, sie = False\<rparr>"
    by (cases "cpus u 0") auto
qed

end
