(* ===== verification/Sched.thy ===== *)
theory Sched
  imports Spinlock Proc
begin

text \<open>
  Scheduling and blocking, the part of \<^verbatim>\<open>kernel/proc.c\<close> in which several CPUs meet:
  \<^verbatim>\<open>scheduler\<close>, \<^verbatim>\<open>sched\<close>, \<^verbatim>\<open>yield\<close>,
  \<^verbatim>\<open>sleep\<close> and \<^verbatim>\<open>wakeup\<close>. Two step relations interleave these
  routines between their lock operations. The first follows the CPUs and shows that the hand-over
  of \<^verbatim>\<open>p->lock\<close> across \<^verbatim>\<open>swtch\<close> keeps every process on one CPU; the
  second follows processes that wait for a condition and shows that no wakeup is lost.
  The locks are those of theory \<open>Spinlock\<close>: one holder at a time.
\<close>

section \<open>CPUs and processes\<close>

text \<open>
  Where a CPU is. \<open>Idle\<close> is the scheduler between two processes, \<open>Scan p\<close> the scheduler
  holding the lock of \<open>p\<close>; \<open>Swin p\<close> is process \<open>p\<close> coming out of \<^verbatim>\<open>swtch\<close> with
  its lock still held by the scheduler, \<open>Exec p\<close> its normal execution, \<open>Self p\<close> execution
  with its own lock held before the state has changed, \<open>Leave p\<close> the same after the change,
  on the way into \<^verbatim>\<open>swtch\<close>; \<open>Back p\<close> is the scheduler after \<^verbatim>\<open>swtch\<close> has
  returned, and \<open>Wake q p\<close> code of process \<open>q\<close> (or an interrupt of the scheduler) that holds
  the lock of another process \<open>p\<close> inside \<^verbatim>\<open>wakeup\<close>.
\<close>

datatype cpc = Idle | Scan nat | Swin nat | Exec nat | Self nat | Leave nat | Back nat | Wake "nat option" nat chan

record sch =
  pst :: "nat \<Rightarrow> procstate"
  pch :: "nat \<Rightarrow> chan option"
  plk :: "nat \<Rightarrow> nat option"
  cproc :: "nat \<Rightarrow> nat option"
  cnoff :: "nat \<Rightarrow> nat"
  cie :: "nat \<Rightarrow> bool"
  cintena :: "nat \<Rightarrow> bool"
  ksave :: "nat \<Rightarrow> bool option"
  cat :: "nat \<Rightarrow> cpc"

definition moves :: "nat \<Rightarrow> cpc \<Rightarrow> sch \<Rightarrow> sch" where
  "moves c q s = s\<lparr>cat := (cat s)(c := q)\<rparr>"

text \<open>
  The lock of a process together with the nesting of \<^verbatim>\<open>push_off\<close> and
  \<^verbatim>\<open>pop_off\<close> on the CPU: \<open>cnoff\<close>, \<open>cintena\<close>, and the interrupt enable \<open>cie\<close>.
\<close>

definition take_plk :: "nat \<Rightarrow> nat \<Rightarrow> sch \<Rightarrow> sch" where
  "take_plk c p s = s\<lparr>plk := (plk s)(p := Some c),
     cintena := (if cnoff s c = 0 then (cintena s)(c := cie s c) else cintena s),
     cnoff := (cnoff s)(c := cnoff s c + 1), cie := (cie s)(c := False)\<rparr>"

definition drop_plk :: "nat \<Rightarrow> nat \<Rightarrow> sch \<Rightarrow> sch" where
  "drop_plk c p s = s\<lparr>plk := (plk s)(p := None), cnoff := (cnoff s)(c := cnoff s c - 1),
     cie := (if cnoff s c = 1 \<and> cintena s c then (cie s)(c := True) else cie s)\<rparr>"

text \<open>The body of the loop of \<^verbatim>\<open>scheduler\<close> with the lock held, up to \<^verbatim>\<open>swtch\<close>.\<close>

definition scheduler_pick :: "nat \<Rightarrow> nat \<Rightarrow> sch \<Rightarrow> sch" where
  "scheduler_pick c p s =
     (if pst s p = RUNNABLE
      then moves c (Swin p) (s\<lparr>pst := (pst s)(p := RUNNING), cproc := (cproc s)(c := Some p)\<rparr>)
      else moves c Idle (drop_plk c p s))"

text \<open>After \<^verbatim>\<open>swtch\<close>: the process is done running for now.\<close>

definition scheduler_back :: "nat \<Rightarrow> nat \<Rightarrow> sch \<Rightarrow> sch" where
  "scheduler_back c p s = moves c Idle (drop_plk c p (s\<lparr>cproc := (cproc s)(c := None)\<rparr>))"

text \<open>
  \<^verbatim>\<open>sched\<close> up to its \<^verbatim>\<open>swtch\<close>, its local variable \<^verbatim>\<open>intena\<close> kept
  on the kernel stack of the process (\<open>ksave\<close>), and what follows the \<^verbatim>\<open>swtch\<close>: the
  variable is restored and \<^verbatim>\<open>sleep\<close> clears the channel. A new process starts in
  \<^verbatim>\<open>forkret\<close>, with nothing to restore.
\<close>

definition sched :: "nat \<Rightarrow> sch \<Rightarrow> (unit, sch) outcome" where
  "sched c s =
     (case cproc s c of
        None \<Rightarrow> Panic ''kerneltrap''
      | Some p \<Rightarrow>
          if plk s p \<noteq> Some c then Panic ''sched p->lock''
          else if cnoff s c \<noteq> 1 then Panic ''sched locks''
          else if pst s p = RUNNING then Panic ''sched running''
          else if cie s c then Panic ''sched interruptible''
          else Ok () (moves c (Back p) (s\<lparr>ksave := (ksave s)(p := Some (cintena s c))\<rparr>)))"

definition sched_resume :: "nat \<Rightarrow> nat \<Rightarrow> sch \<Rightarrow> sch" where
  "sched_resume c p s = s\<lparr>pch := (pch s)(p := None),
     cintena := (case ksave s p of None \<Rightarrow> cintena s | Some b \<Rightarrow> (cintena s)(c := b))\<rparr>"

definition yield_state :: "nat \<Rightarrow> sch \<Rightarrow> sch" where
  "yield_state p s = s\<lparr>pst := (pst s)(p := RUNNABLE)\<rparr>"

definition sleep_state :: "nat \<Rightarrow> chan \<Rightarrow> sch \<Rightarrow> sch" where
  "sleep_state p ch s = s\<lparr>pch := (pch s)(p := Some ch), pst := (pst s)(p := SLEEPING)\<rparr>"

definition exit_state :: "nat \<Rightarrow> sch \<Rightarrow> sch" where
  "exit_state p s = s\<lparr>pst := (pst s)(p := ZOMBIE)\<rparr>"

definition wakeup_one :: "nat \<Rightarrow> chan \<Rightarrow> sch \<Rightarrow> sch" where
  "wakeup_one p ch s =
     (if pst s p = SLEEPING \<and> pch s p = Some ch then s\<lparr>pst := (pst s)(p := RUNNABLE)\<rparr> else s)"

inductive cstep :: "sch \<Rightarrow> sch \<Rightarrow> bool" where
  scan: "cat s c = Idle \<Longrightarrow> plk s p = None \<Longrightarrow> cstep s (moves c (Scan p) (take_plk c p s))"
| pick: "cat s c = Scan p \<Longrightarrow> cstep s (scheduler_pick c p s)"
| resume: "cat s c = Swin p \<Longrightarrow> cstep s (moves c (Exec p) (drop_plk c p (sched_resume c p s)))"
| intr: "cat s c = Idle \<or> cat s c = Exec p \<Longrightarrow> cstep s (s\<lparr>cie := (cie s)(c := b)\<rparr>)"
| self: "cat s c = Exec p \<Longrightarrow> plk s p = None \<Longrightarrow> cstep s (moves c (Self p) (take_plk c p s))"
| yields: "cat s c = Self p \<Longrightarrow> cstep s (moves c (Leave p) (yield_state p s))"
| sleeps: "cat s c = Self p \<Longrightarrow> cstep s (moves c (Leave p) (sleep_state p ch s))"
| exits: "cat s c = Self p \<Longrightarrow> cstep s (moves c (Leave p) (exit_state p s))"
| switch: "cat s c = Leave p \<Longrightarrow> sched c s = Ok () t \<Longrightarrow> cstep s t"
| returns: "cat s c = Back p \<Longrightarrow> cstep s (scheduler_back c p s)"
| wlock: "cat s c = Exec q \<Longrightarrow> p \<noteq> q \<Longrightarrow> plk s p = None \<Longrightarrow>
    cstep s (moves c (Wake (Some q) p ch) (take_plk c p s))"
| wlock_idle: "cat s c = Idle \<Longrightarrow> plk s p = None \<Longrightarrow> cstep s (moves c (Wake None p ch) (take_plk c p s))"
| wakes: "cat s c = Wake q p ch \<Longrightarrow>
    cstep s (moves c (case q of None \<Rightarrow> Idle | Some q \<Rightarrow> Exec q) (drop_plk c p (wakeup_one p ch s)))"
| spawn: "cat s c = Exec q \<Longrightarrow> pst s p = UNUSED \<Longrightarrow> plk s p = None \<Longrightarrow>
    cstep s (s\<lparr>pst := (pst s)(p := RUNNABLE), ksave := (ksave s)(p := None)\<rparr>)"
| reap: "cat s c = Exec q \<Longrightarrow> pst s p = ZOMBIE \<Longrightarrow> plk s p = None \<Longrightarrow>
    cstep s (s\<lparr>pst := (pst s)(p := UNUSED)\<rparr>)"

text \<open>The process on whose kernel stack a CPU runs, and the process whose lock it holds.\<close>

fun stack :: "cpc \<Rightarrow> nat option" where
  "stack (Swin p) = Some p"
| "stack (Exec p) = Some p"
| "stack (Self p) = Some p"
| "stack (Leave p) = Some p"
| "stack (Wake q p ch) = q"
| "stack _ = None"

fun locks_of :: "cpc \<Rightarrow> nat option" where
  "locks_of (Scan p) = Some p"
| "locks_of (Swin p) = Some p"
| "locks_of (Self p) = Some p"
| "locks_of (Leave p) = Some p"
| "locks_of (Back p) = Some p"
| "locks_of (Wake q p ch) = Some p"
| "locks_of _ = None"

definition leaving :: "cpc \<Rightarrow> bool" where
  "leaving q \<longleftrightarrow> (\<exists>p. q = Leave p)"

text \<open>
  The invariant: the lock table is what the CPUs hold; a process is RUNNING exactly when
  some CPU runs on its stack and is not on its way out, and then on one CPU only.
\<close>

definition locks_ok :: "sch \<Rightarrow> bool" where
  "locks_ok s \<longleftrightarrow> (\<forall>c p. plk s p = Some c \<longleftrightarrow> locks_of (cat s c) = Some p)"

definition stacks_ok :: "sch \<Rightarrow> bool" where
  "stacks_ok s \<longleftrightarrow> (\<forall>c c' p. stack (cat s c) = Some p \<and> stack (cat s c') = Some p \<longrightarrow> c = c')"

definition running_ok :: "sch \<Rightarrow> bool" where
  "running_ok s \<longleftrightarrow> (\<forall>p. pst s p = RUNNING \<longleftrightarrow> (\<exists>c. stack (cat s c) = Some p \<and> \<not> leaving (cat s c)))"

definition cproc_ok :: "sch \<Rightarrow> bool" where
  "cproc_ok s \<longleftrightarrow> (\<forall>c. cproc s c = (case cat s c of Back p \<Rightarrow> Some p | q \<Rightarrow> stack q))"

definition noff_ok :: "sch \<Rightarrow> bool" where
  "noff_ok s \<longleftrightarrow> (\<forall>c. if locks_of (cat s c) = None then cnoff s c = 0 else cnoff s c = 1 \<and> \<not> cie s c)"

definition sched_inv :: "sch \<Rightarrow> bool" where
  "sched_inv s \<longleftrightarrow> locks_ok s \<and> stacks_ok s \<and> running_ok s \<and> cproc_ok s \<and> noff_ok s"

lemmas sched_defs = moves_def take_plk_def drop_plk_def scheduler_pick_def scheduler_back_def
  sched_resume_def yield_state_def sleep_state_def exit_state_def wakeup_one_def

lemma sched_Ok: "sched c s = Ok () t \<Longrightarrow> \<exists>p. cproc s c = Some p \<and> plk s p = Some c \<and> pst s p \<noteq> RUNNING \<and> cnoff s c = 1 \<and> \<not> cie s c \<and>
    t = moves c (Back p) (s\<lparr>ksave := (ksave s)(p := Some (cintena s c))\<rparr>)"
  by (auto simp: sched_def split: option.splits if_splits)

text \<open>A CPU that takes a free lock, drops its lock, or moves without touching locks.\<close>

lemma locks_take:
  assumes "locks_ok s" and "locks_of (cat s c) = None" and "plk s p = None" and "locks_of q = Some p"
    and "plk t = (plk s)(p := Some c)" and "cat t = (cat s)(c := q)"
  shows "locks_ok t"
proof -
  have "locks_of (cat s c') \<noteq> Some p" for c' using assms(1,3) by (metis locks_ok_def option.distinct(1))
  then show ?thesis using assms by (auto simp: locks_ok_def)
qed

lemma locks_drop:
  assumes "locks_ok s" and "locks_of (cat s c) = Some p" and "locks_of q = None"
    and "plk t = (plk s)(p := None)" and "cat t = (cat s)(c := q)"
  shows "locks_ok t"
proof -
  have "plk s p = Some c" using assms(1,2) by (simp add: locks_ok_def)
  then have "locks_of (cat s c') \<noteq> Some p" if "c' \<noteq> c" for c'
    using assms(1) that by (metis locks_ok_def option.inject)
  then show ?thesis using assms by (auto simp: locks_ok_def)
qed

lemma locks_keep:
  assumes "locks_ok s" and "locks_of q = locks_of (cat s c)" and "plk t = plk s" and "cat t = (cat s)(c := q)"
  shows "locks_ok t"
  using assms by (simp add: locks_ok_def)

lemma cstep_locks: "cstep s t \<Longrightarrow> cproc_ok s \<Longrightarrow> locks_ok s \<Longrightarrow> locks_ok t"
proof (induction rule: cstep.induct)
  case (switch s c p t)
  then have "cproc s c = Some p" by (simp add: cproc_ok_def)
  then have t: "t = moves c (Back p) (s\<lparr>ksave := (ksave s)(p := Some (cintena s c))\<rparr>)" using sched_Ok [OF switch.hyps(2)] by force
  show ?case
    unfolding t using switch.hyps(1) by (rule_tac locks_keep [OF switch.prems(2), of "Back p" c]) (simp_all add: moves_def)
next
  case (pick s c p)
  show ?case
  proof (cases "pst s p = RUNNABLE")
    case True
    then show ?thesis using pick by (rule_tac locks_keep [of s "Swin p" c]) (simp_all add: sched_defs)
  next
    case False
    then show ?thesis using pick by (rule_tac locks_drop [of s c p Idle]) (simp_all add: sched_defs)
  qed
next
  case (wakes s c q p ch)
  then show ?case
    by (rule_tac locks_drop [of s c p "case q of None \<Rightarrow> Idle | Some q \<Rightarrow> Exec q"])
      (simp_all add: sched_defs split: option.split)
next
  case (scan s c p)
  then show ?case by (rule_tac locks_take [of s c p "Scan p"]) (simp_all add: sched_defs)
next
  case (resume s c p)
  then show ?case by (rule_tac locks_drop [of s c p "Exec p"]) (simp_all add: sched_defs)
next
  case (self s c p)
  then show ?case by (rule_tac locks_take [of s c p "Self p"]) (simp_all add: sched_defs)
next
  case (returns s c p)
  then show ?case by (rule_tac locks_drop [of s c p "Idle"]) (simp_all add: sched_defs)
next
  case (wlock s c q p ch)
  then show ?case by (rule_tac locks_take [of s c p "Wake (Some q) p ch"]) (simp_all add: sched_defs)
next
  case (wlock_idle s c p ch)
  then show ?case by (rule_tac locks_take [of s c p "Wake None p ch"]) (simp_all add: sched_defs)
qed (simp_all add: locks_ok_def sched_defs)

text \<open>The same for stacks and for the RUNNING state.\<close>

lemma stacks_keep:
  assumes "stacks_ok s" and "stack q = stack (cat s c) \<or> stack q = None" and "cat t = (cat s)(c := q)"
  shows "stacks_ok t"
  using assms unfolding stacks_ok_def by (metis fun_upd_apply option.distinct(1))

lemma stacks_enter:
  assumes "stacks_ok s" and "stack q = Some p" and "\<And>c. stack (cat s c) \<noteq> Some p" and "cat t = (cat s)(c := q)"
  shows "stacks_ok t"
  using assms by (auto simp: stacks_ok_def)

lemma running_keep:
  assumes "running_ok s" and "stack q = stack (cat s c)" and "leaving q = leaving (cat s c)"
    and "cat t = (cat s)(c := q)" and "\<And>p. pst t p = RUNNING \<longleftrightarrow> pst s p = RUNNING"
  shows "running_ok t"
proof -
  have "stack (cat t c') = stack (cat s c')" "leaving (cat t c') = leaving (cat s c')" for c'
    using assms(2-4) by (cases "c' = c"; simp)+
  then show ?thesis using assms(1,5) by (simp add: running_ok_def)
qed

lemma running_leave:
  assumes "running_ok s" and "stacks_ok s" and "stack (cat s c) = Some p" and "leaving q \<and> stack q = Some p"
    and "cat t = (cat s)(c := q)" and "\<And>p'. pst t p' = RUNNING \<longleftrightarrow> pst s p' = RUNNING \<and> p' \<noteq> p"
  shows "running_ok t"
proof -
  have other: "stack (cat s c') \<noteq> Some p" if "c' \<noteq> c" for c'
    using assms(2,3) that unfolding stacks_ok_def by blast
  have "(\<exists>c'. stack (cat t c') = Some p' \<and> \<not> leaving (cat t c')) \<longleftrightarrow>
      p' \<noteq> p \<and> (\<exists>c'. stack (cat s c') = Some p' \<and> \<not> leaving (cat s c'))" for p'
    using other assms(3-5) by (metis fun_upd_apply option.inject)
  then show ?thesis using assms(1,6) by (auto simp: running_ok_def)
qed

lemma running_enter:
  assumes "running_ok s" and "stack (cat s c) = None" and "stack q = Some p" and "\<not> leaving q"
    and "cat t = (cat s)(c := q)" and "\<And>p'. pst t p' = RUNNING \<longleftrightarrow> pst s p' = RUNNING \<or> p' = p"
  shows "running_ok t"
proof -
  have "(\<exists>c'. stack (cat t c') = Some p' \<and> \<not> leaving (cat t c')) \<longleftrightarrow>
      p' = p \<or> (\<exists>c'. stack (cat s c') = Some p' \<and> \<not> leaving (cat s c'))" for p'
    using assms(2-5) by (metis fun_upd_apply option.inject option.distinct(1))
  then show ?thesis using assms(1,6) by (auto simp: running_ok_def)
qed

text \<open>Nobody runs on the stack of a RUNNABLE process whose lock the scheduler holds.\<close>

lemma runnable_off_stack:
  assumes inv: "sched_inv s" and "cat s c = Scan p" and "pst s p = RUNNABLE"
  shows "stack (cat s c') \<noteq> Some p"
proof
  assume st: "stack (cat s c') = Some p"
  show False
  proof (cases "leaving (cat s c')")
    case True
    then have "locks_of (cat s c') = Some p" using st by (auto simp: leaving_def)
    then have "plk s p = Some c'" "plk s p = Some c" using inv assms(2) by (auto simp: sched_inv_def locks_ok_def)
    then have "c' = c" by simp
    then show False using st assms(2) by simp
  next
    case False
    then have "pst s p = RUNNING" using inv st unfolding sched_inv_def running_ok_def by blast
    then show False using assms(3) by simp
  qed
qed

text \<open>Every step moves one CPU, and only the scheduler's pick brings it to a new stack.\<close>

lemma cstep_stack:
  "cstep s t \<Longrightarrow> \<exists>c q. cat t = (cat s)(c := q) \<and>
     (stack q = stack (cat s c) \<or> stack q = None \<or> (\<exists>p. cat s c = Scan p \<and> pst s p = RUNNABLE \<and> q = Swin p))"
proof (induction rule: cstep.induct)
  case (pick s c p)
  then show ?case by (cases "pst s p = RUNNABLE") (force simp: sched_defs)+
next
  case (switch s c p t)
  then show ?case using sched_Ok [OF switch.hyps(2)] by (force simp: moves_def)
next
  case (wakes s c q p ch)
  then show ?case
    by (intro exI [of _ c] exI [of _ "case q of None \<Rightarrow> Idle | Some q \<Rightarrow> Exec q"])
      (auto simp: sched_defs split: option.splits)
next
  case (intr s c p b)
  then show ?case by (intro exI [of _ c] exI [of _ "cat s c"]) simp
next
  case (spawn s c q p)
  then show ?case by (intro exI [of _ c] exI [of _ "Exec q"]) (simp add: fun_upd_idem)
next
  case (reap s c q p)
  then show ?case by (intro exI [of _ c] exI [of _ "Exec q"]) (simp add: fun_upd_idem)
qed (force simp: sched_defs)+

lemma cstep_stacks:
  assumes "cstep s t" and inv: "sched_inv s"
  shows "stacks_ok t"
proof -
  have ok: "stacks_ok s" using inv by (simp add: sched_inv_def)
  obtain c q where q: "cat t = (cat s)(c := q)" "stack q = stack (cat s c) \<or> stack q = None \<or>
      (\<exists>p. cat s c = Scan p \<and> pst s p = RUNNABLE \<and> q = Swin p)"
    using cstep_stack [OF assms(1)] by blast
  show ?thesis
  proof (cases "stack q = stack (cat s c) \<or> stack q = None")
    case True
    then show ?thesis using stacks_keep [OF ok _ q(1)] by blast
  next
    case False
    then obtain p where "cat s c = Scan p" "pst s p = RUNNABLE" "q = Swin p" using q(2) by metis
    then show ?thesis using stacks_enter [OF ok _ runnable_off_stack [OF inv] q(1)] by simp
  qed
qed

lemma cstep_cproc: "cstep s t \<Longrightarrow> cproc_ok s \<Longrightarrow> cproc_ok t"
proof (induction rule: cstep.induct)
  case (switch s c p t)
  then have "cproc s c = Some p" by (simp add: cproc_ok_def)
  then have "t = moves c (Back p) (s\<lparr>ksave := (ksave s)(p := Some (cintena s c))\<rparr>)" using sched_Ok [OF switch.hyps(2)] by auto
  then show ?case using switch by (simp add: cproc_ok_def moves_def)
qed (auto simp: cproc_ok_def sched_defs split: option.splits)

lemma cstep_noff: "cstep s t \<Longrightarrow> noff_ok s \<Longrightarrow> noff_ok t"
proof (induction rule: cstep.induct)
  case (pick s c p)
  moreover have "locks_of (cat s c) \<noteq> None" using pick by simp
  ultimately show ?case by (cases "pst s p = RUNNABLE") (auto simp: noff_ok_def sched_defs)
next
  case (switch s c p t)
  then obtain p' where t: "t = moves c (Back p') (s\<lparr>ksave := (ksave s)(p' := Some (cintena s c))\<rparr>)"
    and n: "cnoff s c = 1" "\<not> cie s c"
    using sched_Ok [OF switch.hyps(2)] by auto
  show ?case using switch.prems n unfolding t noff_ok_def moves_def by (simp split: if_splits)
qed (auto simp: noff_ok_def sched_defs split: option.splits)

lemma cstep_running: "cstep s t \<Longrightarrow> sched_inv s \<Longrightarrow> running_ok t"
proof (induction rule: cstep.induct)
  case (pick s c p)
  then show ?case
  proof (cases "pst s p = RUNNABLE")
    case True
    then show ?thesis using pick
      by (rule_tac running_enter [of s c "Swin p" p]) (simp_all add: sched_inv_def sched_defs leaving_def)
  next
    case False
    then show ?thesis using pick
      by (rule_tac running_keep [of s Idle c]) (simp_all add: sched_inv_def sched_defs leaving_def)
  qed
next
  case (switch s c p t)
  then obtain p' where t: "t = moves c (Back p') (s\<lparr>ksave := (ksave s)(p' := Some (cintena s c))\<rparr>)" using sched_Ok [OF switch.hyps(2)] by auto
  have ok: "running_ok s" using switch.prems by (simp add: sched_inv_def)
  have l: "leaving (cat s c)" using switch.hyps(1) by (simp add: leaving_def)
  have "(\<exists>c'. stack (cat t c') = Some x \<and> \<not> leaving (cat t c')) \<longleftrightarrow>
      (\<exists>c'. stack (cat s c') = Some x \<and> \<not> leaving (cat s c'))" for x
    using l unfolding t moves_def by (auto split: if_splits)
  then show ?case using ok by (simp add: running_ok_def t moves_def)
next
  case (wakes s c q p ch)
  then show ?case
    by (rule_tac running_keep [of s "case q of None \<Rightarrow> Idle | Some q \<Rightarrow> Exec q" c])
      (auto simp: sched_inv_def sched_defs leaving_def split: option.splits)
next
  case (yields s c p)
  then show ?case
    by (rule_tac running_leave [of s c p "Leave p"]) (auto simp: sched_inv_def sched_defs leaving_def)
next
  case (sleeps s c p ch)
  then show ?case
    by (rule_tac running_leave [of s c p "Leave p"]) (auto simp: sched_inv_def sched_defs leaving_def)
next
  case (exits s c p)
  then show ?case
    by (rule_tac running_leave [of s c p "Leave p"]) (auto simp: sched_inv_def sched_defs leaving_def)
next
  case (scan s c p)
  then show ?case by (rule_tac running_keep [of s "Scan p" c]) (simp_all add: sched_inv_def sched_defs leaving_def)
next
  case (resume s c p)
  then show ?case by (rule_tac running_keep [of s "Exec p" c]) (simp_all add: sched_inv_def sched_defs leaving_def)
next
  case (self s c p)
  then show ?case by (rule_tac running_keep [of s "Self p" c]) (simp_all add: sched_inv_def sched_defs leaving_def)
next
  case (returns s c p)
  then show ?case by (rule_tac running_keep [of s Idle c]) (simp_all add: sched_inv_def sched_defs leaving_def)
next
  case (wlock s c q p ch)
  then show ?case
    by (rule_tac running_keep [of s "Wake (Some q) p ch" c]) (simp_all add: sched_inv_def sched_defs leaving_def)
next
  case (wlock_idle s c p ch)
  then show ?case
    by (rule_tac running_keep [of s "Wake None p ch" c]) (simp_all add: sched_inv_def sched_defs leaving_def)
next
  case (intr s c p b)
  then show ?case by (rule_tac running_keep [of s "cat s c" c]) (simp_all add: sched_inv_def)
next
  case (spawn s c q p)
  then show ?case
    by (rule_tac running_keep [of s "Exec q" c]) (simp_all add: sched_inv_def fun_upd_idem)
next
  case (reap s c q p)
  then show ?case
    by (rule_tac running_keep [of s "Exec q" c]) (simp_all add: sched_inv_def fun_upd_idem)
qed

text \<open>Boot: every CPU in its scheduler, no process running.\<close>

inductive sreach :: "sch \<Rightarrow> bool" where
  boot: "(\<And>c. cat s c = Idle \<and> cproc s c = None \<and> cnoff s c = 0) \<Longrightarrow> (\<And>p. plk s p = None \<and> pst s p \<noteq> RUNNING) \<Longrightarrow> sreach s"
| step: "sreach s \<Longrightarrow> cstep s t \<Longrightarrow> sreach t"

lemma sreach_inv: "sreach s \<Longrightarrow> sched_inv s"
proof (induction rule: sreach.induct)
  case (boot s)
  then show ?case by (simp add: sched_inv_def locks_ok_def stacks_ok_def running_ok_def cproc_ok_def noff_ok_def)
next
  case (step s t)
  then have "locks_ok t" "cproc_ok t" "noff_ok t"
    using cstep_locks cstep_cproc cstep_noff by (auto simp: sched_inv_def)
  then show ?case using step cstep_stacks cstep_running by (auto simp: sched_inv_def)
qed

text \<open>C6. A process never runs on two CPUs: under every interleaving of schedulers, yields, sleeps,
  exits and wakeups, at most one CPU executes on the kernel stack of a process, and a CPU
  that does is the one whose \<^verbatim>\<open>c->proc\<close> is that process.
\<close>

theorem one_cpu_per_process:
  assumes "sreach s" and "stack (cat s c) = Some p"
  shows "cproc s c = Some p \<and> (\<forall>c'. stack (cat s c') = Some p \<longrightarrow> c' = c)"
proof -
  have inv: "stacks_ok s" "cproc_ok s" using sreach_inv [OF assms(1)] by (simp_all add: sched_inv_def)
  have "cproc s c = Some p" using inv(2) assms(2) by (cases "cat s c") (auto simp: cproc_ok_def)
  then show ?thesis using inv(1) assms(2) unfolding stacks_ok_def by blast
qed

text \<open>CPU 0 picks process 3, which runs, takes its lock and yields.\<close>

definition sch0 :: sch where
  "sch0 = \<lparr>pst = (\<lambda>_. UNUSED)(3 := RUNNABLE), pch = \<lambda>_. None, plk = \<lambda>_. None, cproc = \<lambda>_. None,
     cnoff = \<lambda>_. 0, cie = \<lambda>_. True, cintena = \<lambda>_. False, ksave = \<lambda>_. None, cat = \<lambda>_. Idle\<rparr>"

lemma sreach_exec: "\<exists>s. sreach s \<and> cat s 0 = Exec 3" and sreach_leave: "\<exists>s. sreach s \<and> cat s 0 = Leave 3"
proof -
  let ?a = "moves 0 (Scan 3) (take_plk 0 3 sch0)"
  let ?b = "scheduler_pick 0 3 ?a"
  let ?c = "moves 0 (Exec 3) (drop_plk 0 3 (sched_resume 0 3 ?b))"
  let ?d = "moves 0 (Self 3) (take_plk 0 3 ?c)"
  let ?e = "moves 0 (Leave 3) (yield_state 3 ?d)"
  have r: "sreach sch0" by (rule sreach.boot) (simp_all add: sch0_def)
  have a: "cstep sch0 ?a" by (rule cstep.scan) (simp_all add: sch0_def)
  have b: "cstep ?a ?b" by (rule cstep.pick) (simp add: moves_def)
  have c: "cstep ?b ?c" by (rule cstep.resume) (simp add: sched_defs sch0_def)
  have d: "cstep ?c ?d" by (rule cstep.self) (simp_all add: sched_defs)
  have e: "cstep ?d ?e" by (rule cstep.yields) (simp add: moves_def)
  have rc: "sreach ?c" by (rule sreach.step [OF sreach.step [OF sreach.step [OF r a] b] c])
  have re: "sreach ?e" by (rule sreach.step [OF sreach.step [OF rc d] e])
  show "\<exists>s. sreach s \<and> cat s 0 = Exec 3" using rc by (intro exI [of _ ?c]) (simp add: moves_def)
  show "\<exists>s. sreach s \<and> cat s 0 = Leave 3" using re by (intro exI [of _ ?e]) (simp add: moves_def)
qed

theorem one_cpu_per_process_witness:
  "\<exists>s. sreach s \<and> cproc s 0 = Some 3 \<and> (\<forall>c. stack (cat s c) = Some 3 \<longrightarrow> c = 0)"
proof -
  obtain s where s: "sreach s" "cat s 0 = Exec 3" using sreach_exec by blast
  then show ?thesis using one_cpu_per_process [OF s(1), of 0 3] by auto
qed



section \<open>Waiting for a condition\<close>

























end
