(* ===== verification/Ulib.thy ===== *)
theory Ulib
  imports Memory "HOL-Library.List_Lexorder"
begin

text \<open>
  The C library of user programs, \<^verbatim>\<open>user/ulib.c\<close>, on the byte memory of a process. A loop
  that looks for a terminator may run for ever, so it is a partial function with result \<open>None\<close>.
  \<^verbatim>\<open>char\<close> is unsigned on this target. \<open>cstr m p xs\<close> says that the C string at \<open>p\<close> is
  \<open>xs\<close>; the lemmas relate each routine to the list of characters it reads or writes.
\<close>

section \<open>Routines\<close>

partial_function (option) strcpy_loop_u :: "mem \<Rightarrow> u64 \<Rightarrow> u64 \<Rightarrow> mem option" where
  "strcpy_loop_u m s t = (let m = m(s := m t) in if m s = 0 then Some m else strcpy_loop_u m (s + 1) (t + 1))"

definition strcpy_u :: "mem \<Rightarrow> u64 \<Rightarrow> u64 \<Rightarrow> (u64 \<times> mem) option" where
  "strcpy_u m s t = map_option (\<lambda>m. (s, m)) (strcpy_loop_u m s t)"

partial_function (option) strcmp_u :: "mem \<Rightarrow> u64 \<Rightarrow> u64 \<Rightarrow> int option" where
  "strcmp_u m p q = (if m p \<noteq> 0 \<and> m p = m q then strcmp_u m (p + 1) (q + 1) else Some (uint (m p) - uint (m q)))"

partial_function (option) strlen_loop_u :: "mem \<Rightarrow> u64 \<Rightarrow> nat \<Rightarrow> nat option" where
  "strlen_loop_u m s n = (if m (s + of_nat n) = 0 then Some n else strlen_loop_u m s (Suc n))"

definition strlen_u :: "mem \<Rightarrow> u64 \<Rightarrow> u32 option" where
  "strlen_u m s = map_option of_nat (strlen_loop_u m s 0)"

fun memset_loop_u :: "mem \<Rightarrow> u64 \<Rightarrow> u8 \<Rightarrow> nat \<Rightarrow> mem" where
  "memset_loop_u m cdst c 0 = m"
| "memset_loop_u m cdst c (Suc k) = memset_loop_u (m(cdst := c)) (cdst + 1) c k"

definition memset_u :: "mem \<Rightarrow> u64 \<Rightarrow> u32 \<Rightarrow> u32 \<Rightarrow> u64 \<times> mem" where
  "memset_u m dst c n = (dst, memset_loop_u m dst (ucast c) (unat n))"

partial_function (option) strchr_u :: "mem \<Rightarrow> u64 \<Rightarrow> u8 \<Rightarrow> u64 option" where
  "strchr_u m s c = (if m s = 0 then Some 0 else if m s = c then Some s else strchr_u m (s + 1) c)"

partial_function (option) atoi_loop_u :: "mem \<Rightarrow> u64 \<Rightarrow> u32 \<Rightarrow> u32 option" where
  "atoi_loop_u m s n =
     (if 48 \<le> m s \<and> m s \<le> 57 then atoi_loop_u m (s + 1) (n * 10 + ucast (m s) - 48) else Some n)"

definition atoi_u :: "mem \<Rightarrow> u64 \<Rightarrow> u32 option" where
  "atoi_u m s = atoi_loop_u m s 0"

text \<open>The count of \<^verbatim>\<open>memmove\<close> is an \<^verbatim>\<open>int\<close>: a negative one copies nothing.\<close>

definition memmove_u :: "mem \<Rightarrow> u64 \<Rightarrow> u64 \<Rightarrow> int \<Rightarrow> u64 \<times> mem" where
  "memmove_u m vdst vsrc n =
     (vdst,
      if vsrc > vdst then copy_up m vdst vsrc (nat n)
      else copy_down m (vdst + of_int n) (vsrc + of_int n) (nat n))"

fun memcmp_loop_u :: "mem \<Rightarrow> u64 \<Rightarrow> u64 \<Rightarrow> nat \<Rightarrow> int" where
  "memcmp_loop_u m p1 p2 0 = 0"
| "memcmp_loop_u m p1 p2 (Suc n) =
     (if m p1 \<noteq> m p2 then uint (m p1) - uint (m p2) else memcmp_loop_u m (p1 + 1) (p2 + 1) n)"

definition memcmp_u :: "mem \<Rightarrow> u64 \<Rightarrow> u64 \<Rightarrow> u32 \<Rightarrow> int" where
  "memcmp_u m s1 s2 n = memcmp_loop_u m s1 s2 (unat n)"

definition memcpy_u :: "mem \<Rightarrow> u64 \<Rightarrow> u64 \<Rightarrow> u32 \<Rightarrow> u64 \<times> mem" where
  "memcpy_u m dst src n = memmove_u m dst src (sint n)"

text \<open>
  \<^verbatim>\<open>gets\<close> reads one byte at a time; \<open>input\<close> is what the reads return, and they return
  nothing more at its end.
\<close>

fun gets_loop :: "u8 list \<Rightarrow> nat \<Rightarrow> u8 list \<Rightarrow> u8 list \<times> u8 list" where
  "gets_loop buf 0 input = (buf, input)"
| "gets_loop buf (Suc k) [] = (buf, [])"
| "gets_loop buf (Suc k) (c # input) =
     (if c = 10 \<or> c = 13 then (buf @ [c], input) else gets_loop (buf @ [c]) k input)"

definition gets :: "int \<Rightarrow> u8 list \<Rightarrow> u8 list \<times> u8 list" where
  "gets mx input = (let (buf, rest) = gets_loop [] (nat (mx - 1)) input in (buf @ [0], rest))"

section \<open>C strings as lists\<close>

fun cstr :: "mem \<Rightarrow> u64 \<Rightarrow> u8 list \<Rightarrow> bool" where
  "cstr m p [] \<longleftrightarrow> m p = 0"
| "cstr m p (x # xs) \<longleftrightarrow> x \<noteq> 0 \<and> m p = x \<and> cstr m (p + 1) xs"

lemma cstr_cong: "cstr m p xs \<Longrightarrow> (\<And>i. i \<le> length xs \<Longrightarrow> m' (p + of_nat i) = m (p + of_nat i)) \<Longrightarrow> cstr m' p xs"
proof (induction xs arbitrary: p)
  case Nil
  then show ?case using Nil.prems(2) [of 0] by simp
next
  case (Cons x xs)
  have "m' (p + 1 + of_nat i) = m (p + 1 + of_nat i)" if "i \<le> length xs" for i
    using Cons.prems(2) [of "Suc i"] that by (simp add: add.assoc)
  then show ?case using Cons.prems(1) Cons.prems(2) [of 0] Cons.IH [of "p + 1"] by simp
qed

lemma cstr_nth: "cstr m p xs \<Longrightarrow> i < length xs \<Longrightarrow> m (p + of_nat i) = xs ! i"
proof (induction xs arbitrary: p i)
  case Nil
  then show ?case by simp
next
  case (Cons x xs)
  then show ?case by (cases i) (simp_all add: add.assoc [symmetric])
qed

lemma cstr_end: "cstr m p xs \<Longrightarrow> m (p + of_nat (length xs)) = 0"
  by (induction xs arbitrary: p) (simp_all add: add.assoc [symmetric])

lemma strlen_loop_cstr: "cstr m (s + of_nat n) xs \<Longrightarrow> strlen_loop_u m s n = Some (n + length xs)"
proof (induction xs arbitrary: n)
  case Nil
  then show ?case by (subst strlen_loop_u.simps) simp
next
  case (Cons x xs)
  then have "strlen_loop_u m s (Suc n) = Some (Suc n + length xs)" by (intro Cons.IH) (simp add: ac_simps)
  then show ?case using Cons.prems by (subst strlen_loop_u.simps) simp
qed

lemma strchr_cstr:
  "cstr m s xs \<Longrightarrow> c \<noteq> 0 \<Longrightarrow>
   strchr_u m s c = Some (if c \<in> set xs then s + of_nat (length (takeWhile (\<lambda>x. x \<noteq> c) xs)) else 0)"
proof (induction xs arbitrary: s)
  case Nil
  then show ?case by (subst strchr_u.simps) simp
next
  case (Cons x xs)
  then show ?case by (subst strchr_u.simps) (auto simp: add.assoc [symmetric])
qed

lemma uint_pos: "x \<noteq> 0 \<Longrightarrow> 0 < uint (x :: u8)"
  using uint_ge_0 [of x] uint_0_iff [of x] by linarith

text \<open>C36. \<^verbatim>\<open>strcmp\<close> returns on every two C strings, and its result has the sign of their
  lexicographic order by unsigned characters: 0 exactly for equal strings.
\<close>

theorem strcmp_orders_strings:
  assumes "cstr m p xs" and "cstr m q ys"
  shows "\<exists>d. strcmp_u m p q = Some d \<and> (d < 0 \<longleftrightarrow> xs < ys) \<and> (d = 0 \<longleftrightarrow> xs = ys)"
  using assms
proof (induction xs arbitrary: p q ys)
  case Nil
  then show ?case by (cases ys) (subst strcmp_u.simps; auto dest: uint_pos)+
next
  case (Cons x xs)
  show ?case
  proof (cases ys)
    case Nil
    then show ?thesis using Cons.prems by (subst strcmp_u.simps) (auto dest: uint_pos)
  next
    case (Cons y ys')
    show ?thesis
    proof (cases "x = y")
      case True
      then have "strcmp_u m p q = strcmp_u m (p + 1) (q + 1)" using Cons.prems Cons by (subst strcmp_u.simps) auto
      then show ?thesis using Cons.IH [of "p + 1" "q + 1" ys'] Cons.prems Cons True by auto
    next
      case False
      then have "strcmp_u m p q = Some (uint x - uint y)" using Cons.prems Cons by (subst strcmp_u.simps) auto
      moreover have "uint x \<noteq> uint y" using False by (simp add: word_uint_eq_iff)
      ultimately show ?thesis using Cons False by (auto simp: word_less_def)
    qed
  qed
qed

theorem strcmp_orders_strings_witness:
  "\<exists>d. strcmp_u ((\<lambda>_. 0)(1 := 97, 2 := 98, 11 := 97, 12 := 99)) 1 11 = Some d \<and> d < 0"
proof -
  let ?m = "(\<lambda>_. 0)(1 := 97, 2 := 98, 11 := 97, 12 := 99) :: mem"
  have c: "cstr ?m 1 [97, 98]" "cstr ?m 11 [97, 99]" and lt: "[97, 98] < [97, 99 :: u8]" by simp_all
  obtain d where "strcmp_u ?m 1 11 = Some d" "d < 0 \<longleftrightarrow> [97, 98] < [97, 99 :: u8]"
    using strcmp_orders_strings [OF c] by blast
  then show ?thesis using lt by blast
qed

section \<open>Copying a string\<close>

lemma strcpy_loop_cstr:
  assumes "cstr m t xs" and "\<And>i j. i < j \<Longrightarrow> j \<le> length xs \<Longrightarrow> s + of_nat i \<noteq> t + of_nat j"
  shows "strcpy_loop_u m s t = Some (write_bytes m s (xs @ [0]))"
  using assms
proof (induction xs arbitrary: m s t)
  case Nil
  then show ?case by (subst strcpy_loop_u.simps) (simp add: Let_def)
next
  case (Cons x xs)
  let ?m = "m(s := x)"
  have off: "?m (t + 1 + of_nat i) = m (t + 1 + of_nat i)" if "i \<le> length xs" for i
    using Cons.prems(2) [of 0 "Suc i"] that by (simp add: add.assoc fun_upd_other)
  have c: "cstr ?m (t + 1) xs" using cstr_cong [of m "t + 1" xs ?m, OF _ off] Cons.prems(1) by simp
  have "s + 1 + of_nat i \<noteq> t + 1 + of_nat j" if "i < j" "j \<le> length xs" for i j
    using Cons.prems(2) [of "Suc i" "Suc j"] that by (simp add: add.assoc)
  then have "strcpy_loop_u ?m (s + 1) (t + 1) = Some (write_bytes ?m (s + 1) (xs @ [0]))" using Cons.IH [OF c] by blast
  then show ?case using Cons.prems(1) by (subst strcpy_loop_u.simps) (simp add: Let_def)
qed

end
