(* ===== verification/Uprintf.thy ===== *)
theory Uprintf
  imports Ulib
begin

text \<open>
  Formatted output of user programs, \<^verbatim>\<open>user/printf.c\<close>. Output is the list of bytes handed to
  \<^verbatim>\<open>putc\<close>, each of which is one \<^verbatim>\<open>write\<close>; a format that asks for an argument of
  another kind than it is given has no meaning in C and yields \<open>None\<close>.
\<close>

definition ascii :: "string \<Rightarrow> u8 list" where
  "ascii s = map of_char s"

definition digits_u :: "u8 list" where
  "digits_u = ascii ''0123456789ABCDEF''"

text \<open>The digits in the order the loop stores them, least significant first.\<close>

function printint_loop_u :: "u32 \<Rightarrow> u32 \<Rightarrow> u8 list" where
  "printint_loop_u x base =
     digits_u ! unat (x mod base) # (if base < 2 \<or> x div base = 0 then [] else printint_loop_u (x div base) base)"
  by pat_completeness auto
termination
proof (relation "measure (\<lambda>(x, base). unat x)")
  fix x base :: u32
  assume a: "\<not> (base < 2 \<or> x div base = 0)"
  then have "unat base \<ge> 2" by (simp add: word_less_nat_alt)
  moreover have "unat x \<noteq> 0" using a by (auto simp: unat_eq_0)
  ultimately show "((x div base, base), x, base) \<in> measure (\<lambda>(x, base). unat x)"
    by (simp add: unat_div_distrib div_less_dividend)
qed simp

declare printint_loop_u.simps [simp del]

text \<open>The contents of \<^verbatim>\<open>buf\<close> before it is written out backwards.\<close>

definition printint_buf :: "u32 \<Rightarrow> u32 \<Rightarrow> bool \<Rightarrow> u8 list" where
  "printint_buf xx base sg =
     (let neg = sg \<and> sint xx < 0;
          x = (if neg then - xx else xx)
      in printint_loop_u x base @ (if neg then ascii ''-'' else []))"

definition printint_u :: "u32 \<Rightarrow> u32 \<Rightarrow> bool \<Rightarrow> u8 list" where
  "printint_u xx base sg = rev (printint_buf xx base sg)"

fun printptr_loop_u :: "nat \<Rightarrow> u64 \<Rightarrow> u8 list" where
  "printptr_loop_u 0 x = []"
| "printptr_loop_u (Suc n) x = digits_u ! unat (drop_bit 60 x) # printptr_loop_u n (push_bit 4 x)"

definition printptr_u :: "u64 \<Rightarrow> u8 list" where
  "printptr_u x = ascii ''0x'' @ printptr_loop_u 16 x"

datatype uarg = UInt u32 | ULong u64 | UStr "u8 list option"

fun vprintf :: "bool \<Rightarrow> u8 list \<Rightarrow> uarg list \<Rightarrow> u8 list option" where
  "vprintf state [] args = Some []"
| "vprintf False (c # fmt) args =
     (if c = of_char CHR ''%'' then vprintf True fmt args
      else map_option (\<lambda>out. c # out) (vprintf False fmt args))"
| "vprintf True (c # fmt) args =
     (if c = of_char CHR ''d'' then
        (case args of UInt x # args \<Rightarrow> map_option (\<lambda>out. printint_u x 10 True @ out) (vprintf False fmt args) | _ \<Rightarrow> None)
      else if c = of_char CHR ''l'' then
        (case args of ULong x # args \<Rightarrow> map_option (\<lambda>out. printint_u (ucast x) 10 False @ out) (vprintf False fmt args) | _ \<Rightarrow> None)
      else if c = of_char CHR ''x'' then
        (case args of UInt x # args \<Rightarrow> map_option (\<lambda>out. printint_u x 16 False @ out) (vprintf False fmt args) | _ \<Rightarrow> None)
      else if c = of_char CHR ''p'' then
        (case args of ULong x # args \<Rightarrow> map_option (\<lambda>out. printptr_u x @ out) (vprintf False fmt args) | _ \<Rightarrow> None)
      else if c = of_char CHR ''s'' then
        (case args of
           UStr t # args \<Rightarrow>
             map_option (\<lambda>out. (case t of None \<Rightarrow> ascii ''(null)'' | Some t \<Rightarrow> t) @ out) (vprintf False fmt args)
         | _ \<Rightarrow> None)
      else if c = of_char CHR ''c'' then
        (case args of UInt x # args \<Rightarrow> map_option (\<lambda>out. ucast x # out) (vprintf False fmt args) | _ \<Rightarrow> None)
      else if c = of_char CHR ''%'' then map_option (\<lambda>out. c # out) (vprintf False fmt args)
      else map_option (\<lambda>out. of_char CHR ''%'' # c # out) (vprintf False fmt args))"

definition fprintf :: "string \<Rightarrow> uarg list \<Rightarrow> u8 list option" where
  "fprintf fmt args = vprintf False (ascii fmt) args"

section \<open>Decimal numbers\<close>

lemma digits_nth: "i < 10 \<Longrightarrow> digits_u ! i = 48 + of_nat i"
proof -
  assume "i < 10"
  then have "i \<in> {0, 1, 2, 3, 4, 5, 6, 7, 8, 9}" by auto
  then show ?thesis by (auto simp: digits_u_def ascii_def)
qed

lemma mod_ten: "unat (x mod 10 :: u32) < 10"
  by (simp add: unat_mod_distrib)

definition atoi_step :: "u32 \<Rightarrow> u8 \<Rightarrow> u32" where
  "atoi_step n c = n * 10 + ucast c - 48"

lemma digit_step: "atoi_step n (digits_u ! unat (x mod 10 :: u32)) = n * 10 + x mod 10"
proof -
  have d: "digits_u ! unat (x mod 10) = 48 + of_nat (unat (x mod 10))" by (rule digits_nth [OF mod_ten])
  have "unat (48 + of_nat (unat (x mod 10)) :: u8) = 48 + unat (x mod 10)"
    using mod_ten [of x] by (simp add: unat_word_ariths unat_of_nat)
  then have "ucast (digits_u ! unat (x mod 10)) = (48 + x mod 10 :: u32)"
    unfolding d by (simp add: word_unat_eq_iff unat_word_ariths)
  then show ?thesis by (simp add: atoi_step_def)
qed

lemma foldl_digits: "foldl atoi_step 0 (rev (printint_loop_u x 10)) = x"
proof (induction x "10 :: u32" rule: printint_loop_u.induct)
  case (1 x)
  show ?case
  proof (cases "x div 10 = 0")
    case True
    then have "x mod 10 = x" using div_mult_mod_eq [of x 10] by simp
    then show ?thesis using True digit_step [of 0 x] by (subst printint_loop_u.simps) simp
  next
    case False
    then have "foldl atoi_step 0 (rev (printint_loop_u (x div 10) 10)) = x div 10" using 1 by simp
    then show ?thesis using False digit_step [of "x div 10" x] div_mult_mod_eq [of x 10]
      by (subst printint_loop_u.simps) simp
  qed
qed

lemma digits_range: "c \<in> set (printint_loop_u x 10) \<Longrightarrow> 48 \<le> c \<and> c \<le> 57"
proof (induction x "10 :: u32" rule: printint_loop_u.induct)
  case (1 x)
  have "48 \<le> digits_u ! unat (x mod 10) \<and> digits_u ! unat (x mod 10) \<le> 57"
    unfolding digits_nth [OF mod_ten] using mod_ten [of x] by (simp add: word_le_nat_alt unat_word_ariths unat_of_nat)
  then show ?case using 1 by (subst (asm) printint_loop_u.simps) (auto split: if_splits)
qed

lemma atoi_loop_cstr:
  "cstr m s xs \<Longrightarrow> (\<And>c. c \<in> set xs \<Longrightarrow> 48 \<le> c \<and> c \<le> 57) \<Longrightarrow> atoi_loop_u m s n = Some (foldl atoi_step n xs)"
proof (induction xs arbitrary: s n)
  case Nil
  then show ?case by (subst atoi_loop_u.simps) simp
next
  case (Cons x xs)
  then show ?case by (subst atoi_loop_u.simps) (simp add: atoi_step_def [symmetric])
qed

text \<open>C34. Decimal output reads back: for every non-negative \<^verbatim>\<open>int\<close>, \<^verbatim>\<open>atoi\<close> of the
  characters \<^verbatim>\<open>printint\<close> writes for it in base ten is that number.
\<close>

theorem atoi_printint_roundtrip:
  assumes "0 \<le> sint x" and "cstr m s (printint_u x 10 True)"
  shows "atoi_u m s = Some x"
proof -
  have p: "printint_u x 10 True = rev (printint_loop_u x 10)"
    using assms(1) by (simp add: printint_u_def printint_buf_def)
  show ?thesis
    using atoi_loop_cstr [OF assms(2), of 0] digits_range foldl_digits unfolding atoi_u_def p by auto
qed

theorem atoi_printint_roundtrip_witness:
  "atoi_u ((\<lambda>_. 0)(64 := 52, 65 := 50)) 64 = Some 42"
proof -
  have "printint_u 42 10 True = [52, 50]"
    by (simp add: printint_u_def printint_buf_def printint_loop_u.simps digits_u_def ascii_def)
  then show ?thesis using atoi_printint_roundtrip [of 42 "(\<lambda>_. 0)(64 := 52, 65 := 50)" 64] by simp
qed

text \<open>The loop stores at most ten digits in base ten or above.\<close>

lemma printint_loop_length:
  "10 \<le> base \<Longrightarrow> unat x < 10 ^ k \<Longrightarrow> 0 < k \<Longrightarrow> length (printint_loop_u x base) \<le> k"
proof (induction k arbitrary: x)
  case 0
  then show ?case by simp
next
  case (Suc k)
  have b: "10 \<le> unat base" using Suc.prems(1) by (simp add: word_le_nat_alt)
  show ?case
  proof (cases "x div base = 0")
    case True
    then show ?thesis by (subst printint_loop_u.simps) simp
  next
    case False
    have "unat (x div base) \<le> unat x div 10" unfolding unat_div_distrib using b by (rule div_le_mono2 [rotated]) simp
    also have "\<dots> < 10 ^ k" using Suc.prems(2) by (simp add: less_mult_imp_div_less)
    finally have lt: "unat (x div base) < 10 ^ k" .
    have "0 < unat (x div base)" using False by (simp only: unat_gt_0 not_False_eq_True)
    then have "k \<noteq> 0" using lt by (cases k) simp_all
    with lt have "length (printint_loop_u (x div base) base) \<le> k" using Suc.IH Suc.prems(1) by simp
    then show ?thesis by (subst printint_loop_u.simps) simp
  qed
qed

text \<open>C35. \<^verbatim>\<open>printint\<close> never writes past its buffer: in base ten and in base sixteen the digits and
  the sign take at most 11 of the 16 bytes of \<^verbatim>\<open>buf\<close>, and at least one.
\<close>

theorem printint_fits_buffer:
  assumes "base = 10 \<or> base = 16"
  shows "printint_buf xx base sg \<noteq> [] \<and> length (printint_buf xx base sg) \<le> 11"
proof -
  have ten: "length (printint_loop_u x base) \<le> 10" for x
  proof (rule printint_loop_length)
    have "unat x < 2 ^ 32" using unat_lt_two_power [of x] by simp
    then show "unat x < 10 ^ 10" by simp
    show "10 \<le> base" using assms by (auto simp: word_le_nat_alt)
  qed simp
  moreover have "printint_loop_u x base \<noteq> []" for x by (subst printint_loop_u.simps) simp
  ultimately show ?thesis using le_trans [OF ten, of 11 xx]
    by (simp add: printint_buf_def Let_def ascii_def)
qed

theorem printint_fits_buffer_witness:
  "printint_buf 2147483648 10 True \<noteq> [] \<and> length (printint_buf 2147483648 10 True) \<le> 11"
  using printint_fits_buffer [of 10 2147483648 True] by simp

end
