(* ===== verification/Grep.thy ===== *)
theory Grep
  imports Uprintf
begin

text \<open>
  The pattern search program, \<^verbatim>\<open>user/grep.c\<close>. A C string is the list of its bytes before
  the terminating NUL. The system call \<^verbatim>\<open>read\<close> is what a user program sees of it: the input
  arrives in pieces, a call returns at most the number of bytes asked for, and what is left of the
  piece stays for the next call.
\<close>

section \<open>Reading\<close>

datatype delivery = Piece "u8 list" | Fail

fun uread :: "nat \<Rightarrow> delivery list \<Rightarrow> (u8 list option \<times> delivery list)" where
  "uread n [] = (Some [], [])"
| "uread n (Fail # ds) = (None, ds)"
| "uread n (Piece bs # ds) =
     (Some (take n bs), if length bs \<le> n then ds else Piece (drop n bs) # ds)"

primrec content :: "delivery list \<Rightarrow> u8 list" where
  "content [] = []"
| "content (d # ds) = (case d of Piece bs \<Rightarrow> bs | Fail \<Rightarrow> []) @ content ds"

fun live :: "delivery \<Rightarrow> bool" where
  "live (Piece bs) = (bs \<noteq> [])"
| "live Fail = False"

lemma uread_content:
  "uread n ds = (Some bs, ds') \<Longrightarrow> content ds = bs @ content ds' \<and> length bs \<le> n"
  by (cases "(n, ds)" rule: uread.cases) (auto split: if_splits)

lemma uread_live:
  "\<forall>d\<in>set ds. live d \<Longrightarrow> 0 < n \<Longrightarrow>
   \<exists>bs ds'. uread n ds = (Some bs, ds') \<and> (bs = [] \<longrightarrow> content ds = []) \<and> (\<forall>d\<in>set ds'. live d)"
  by (cases "(n, ds)" rule: uread.cases) auto

section \<open>The matcher\<close>

function matchhere :: "u8 list \<Rightarrow> u8 list \<Rightarrow> bool"
  and matchstar :: "u8 \<Rightarrow> u8 list \<Rightarrow> u8 list \<Rightarrow> bool" where
  "matchhere [] tx = True"
| "matchhere (c # re) tx =
     (if re \<noteq> [] \<and> hd re = of_char CHR ''*'' then matchstar c (tl re) tx
      else if c = of_char CHR ''$'' \<and> re = [] then tx = []
      else if tx \<noteq> [] \<and> (c = of_char CHR ''.'' \<or> c = hd tx) then matchhere re (tl tx)
      else False)"
| "matchstar c re tx =
     (if matchhere re tx then True
      else if tx \<noteq> [] \<and> (hd tx = c \<or> c = of_char CHR ''.'') then matchstar c re (tl tx)
      else False)"
  by pat_completeness auto
termination
  by (relation "measures [\<lambda>x. case x of Inl (re, tx) \<Rightarrow> 2 * length re | Inr (c, re, tx) \<Rightarrow> 2 * length re + 1,
                          \<lambda>x. case x of Inl (re, tx) \<Rightarrow> length tx | Inr (c, re, tx) \<Rightarrow> length tx]")
     auto

declare matchhere.simps [simp del] matchstar.simps [simp del]

text \<open>The do-while loop of \<^verbatim>\<open>match\<close>, which looks at the empty suffix too.\<close>

fun match_loop :: "u8 list \<Rightarrow> u8 list \<Rightarrow> bool" where
  "match_loop re [] = matchhere re []"
| "match_loop re (c # tx) = (if matchhere re (c # tx) then True else match_loop re tx)"

definition match :: "u8 list \<Rightarrow> u8 list \<Rightarrow> bool" where
  "match re tx =
     (if re \<noteq> [] \<and> hd re = of_char CHR ''^'' then matchhere (tl re) tx else match_loop re tx)"

section \<open>The search loop\<close>

text \<open>
  The inner loop over the bytes of \<^verbatim>\<open>buf\<close> from \<^verbatim>\<open>p\<close> on. \<^verbatim>\<open>strchr\<close> looks
  for the newline before the first NUL only. The result is what is written and the bytes from the
  final \<^verbatim>\<open>p\<close> on.
\<close>

function grep_lines :: "u8 list \<Rightarrow> u8 list \<Rightarrow> u8 list \<times> u8 list" where
  "grep_lines pattern p =
     (if 10 \<in> set (takeWhile (\<lambda>c. c \<noteq> 0) p) then
        let line = takeWhile (\<lambda>c. c \<noteq> 10) p;
            (out, rest) = grep_lines pattern (tl (dropWhile (\<lambda>c. c \<noteq> 10) p))
        in ((if match pattern line then line @ [10] else []) @ out, rest)
      else ([], p))"
  by pat_completeness auto
termination
proof (relation "measure (\<lambda>(pattern, p). length p)")
  fix pattern p :: "u8 list"
  assume "10 \<in> set (takeWhile (\<lambda>c. c \<noteq> 0) p)"
  then have "p \<noteq> []" by auto
  then show "((pattern, tl (dropWhile (\<lambda>c. c \<noteq> 10) p)), pattern, p) \<in> measure (\<lambda>(pattern, p). length p)"
    using length_dropWhile_le [of "\<lambda>c. c \<noteq> 10" p] by (cases p) auto
qed simp

declare grep_lines.simps [simp del]

text \<open>\<^verbatim>\<open>buf\<close> holds \<^verbatim>\<open>m\<close> bytes and a NUL: 1024 bytes with room for one NUL.\<close>

function grep_loop :: "u8 list \<Rightarrow> u8 list \<Rightarrow> delivery list \<Rightarrow> u8 list" where
  "grep_loop pattern buf ds =
     (case uread (1024 - length buf - 1) ds of
        (None, ds) \<Rightarrow> []
      | (Some bs, ds') \<Rightarrow>
          if bs = [] then []
          else let (out, rest) = grep_lines pattern (buf @ bs) in out @ grep_loop pattern rest ds')"
  by pat_completeness auto
termination
proof (relation "measure (\<lambda>(pattern, buf, ds). length (content ds))")
  fix pattern buf :: "u8 list" and ds ds' bs r
  assume "(r, ds') = uread (1024 - length buf - 1) ds" "r = Some bs" "bs \<noteq> []"
  then have "content ds = bs @ content ds'" "bs \<noteq> []" by (metis uread_content)+
  then show "((pattern, x, ds'), pattern, buf, ds) \<in> measure (\<lambda>(pattern, buf, ds). length (content ds))" for x
    by (cases bs) auto
qed (rule wf_measure)

declare grep_loop.simps [simp del]

definition grep :: "u8 list \<Rightarrow> delivery list \<Rightarrow> u8 list" where
  "grep pattern ds = grep_loop pattern [] ds"

section \<open>What a pattern means\<close>

datatype item = One u8 | Many u8

text \<open>A pattern is a list of items and whether a final dollar sign anchors it at the end.\<close>

fun items :: "u8 list \<Rightarrow> item list \<times> bool" where
  "items [] = ([], False)"
| "items [c] = (if c = of_char CHR ''$'' then ([], True) else ([One c], False))"
| "items (c # d # re) =
     (if d = of_char CHR ''*'' then apfst (Cons (Many c)) (items re)
      else apfst (Cons (One c)) (items (d # re)))"

definition accepts :: "u8 \<Rightarrow> u8 \<Rightarrow> bool" where
  "accepts c x = (c = of_char CHR ''.'' \<or> c = x)"

fun denotes :: "item list \<Rightarrow> u8 list \<Rightarrow> bool" where
  "denotes [] w = (w = [])"
| "denotes (One c # is) w = (\<exists>x v. w = x # v \<and> accepts c x \<and> denotes is v)"
| "denotes (Many c # is) w = (\<exists>u v. w = u @ v \<and> list_all (accepts c) u \<and> denotes is v)"

definition anchored :: "bool \<Rightarrow> u8 list \<Rightarrow> bool" where
  "anchored eol rest = (if eol then rest = [] else True)"

definition found_at :: "u8 list \<Rightarrow> u8 list \<Rightarrow> bool" where
  "found_at re tx =
     (\<exists>w rest. tx = w @ rest \<and> denotes (fst (items re)) w \<and> anchored (snd (items re)) rest)"

definition found :: "u8 list \<Rightarrow> u8 list \<Rightarrow> bool" where
  "found re tx =
     (if re \<noteq> [] \<and> hd re = of_char CHR ''^'' then found_at (tl re) tx
      else (\<exists>pre rest. tx = pre @ rest \<and> found_at re rest))"

lemma found_at_Many:
  "found_at (c # of_char CHR ''*'' # re) tx = (\<exists>u v. tx = u @ v \<and> list_all (accepts c) u \<and> found_at re v)"
  unfolding found_at_def by simp (metis append_assoc)

lemma found_at_One:
  assumes "\<not> (re \<noteq> [] \<and> hd re = of_char CHR ''*'')" and "\<not> (c = of_char CHR ''$'' \<and> re = [])"
  shows "found_at (c # re) tx = (\<exists>x v. tx = x # v \<and> accepts c x \<and> found_at re v)"
proof -
  have "items (c # re) = apfst (Cons (One c)) (items re)"
    using assms by (cases re) auto
  then show ?thesis unfolding found_at_def by (simp add: Cons_eq_append_conv) (metis append_Cons)
qed

lemma found_star_unfold:
  "(\<exists>u v. tx = u @ v \<and> list_all (accepts c) u \<and> found_at re v) =
   (found_at re tx \<or> (\<exists>x t. tx = x # t \<and> accepts c x \<and>
      (\<exists>u v. t = u @ v \<and> list_all (accepts c) u \<and> found_at re v)))" (is "?L = ?R")
proof
  assume ?L
  then obtain u v where uv: "tx = u @ v" "list_all (accepts c) u" "found_at re v" by blast
  then show ?R by (cases u) auto
next
  assume ?R
  then show ?L
  proof
    assume "found_at re tx"
    then show ?L by (metis append_Nil list.pred_inject(1))
  next
    assume "\<exists>x t. tx = x # t \<and> accepts c x \<and> (\<exists>u v. t = u @ v \<and> list_all (accepts c) u \<and> found_at re v)"
    then show ?L by (metis append_Cons list.pred_inject(2))
  qed
qed

lemma matchhere_found:
  "matchhere re tx = found_at re tx"
  "matchstar c re tx = (\<exists>u v. tx = u @ v \<and> list_all (accepts c) u \<and> found_at re v)"
proof (induction re tx and c re tx rule: matchhere_matchstar.induct)
  case (1 tx)
  then show ?case by (simp add: matchhere.simps found_at_def anchored_def)
next
  case (2 c re tx)
  consider (star) re' where "re = of_char CHR ''*'' # re'" | (eol) "re = []" "c = of_char CHR ''$''"
    | (one) "\<not> (re \<noteq> [] \<and> hd re = of_char CHR ''*'')" "\<not> (c = of_char CHR ''$'' \<and> re = [])"
    by (cases re) auto
  then show ?case
  proof cases
    case star
    then show ?thesis using 2(1) found_at_Many [of c re' tx] by (simp add: matchhere.simps(2))
  next
    case eol
    then show ?thesis by (simp add: matchhere.simps(2) found_at_def anchored_def)
  next
    case one
    show ?thesis
      unfolding matchhere.simps(2) if_not_P [OF one(1)] if_not_P [OF one(2)] found_at_One [OF one]
      using 2(2) [OF one] by (cases tx) (auto simp: accepts_def)
  qed
next
  case (3 c re tx)
  have "(hd tx = c \<or> c = of_char CHR ''.'') = accepts c (hd tx)" by (auto simp: accepts_def)
  then show ?case
    unfolding found_star_unfold [of tx] using 3 by (subst matchstar.simps) (cases tx; simp)
qed

lemma match_loop_found:
  "match_loop re tx = (\<exists>pre rest. tx = pre @ rest \<and> found_at re rest)"
proof (induction tx)
  case Nil
  then show ?case by (simp add: matchhere_found)
next
  case (Cons c tx)
  then show ?case by (simp add: matchhere_found Cons_eq_append_conv) (metis append_Nil)
qed

lemma match_found_eq: "match re tx = found re tx"
  by (simp add: match_def found_def matchhere_found match_loop_found)

text \<open>C27. The recursive matcher decides the language of its patterns: \<^verbatim>\<open>match(re, text)\<close> is true
  exactly when some part of the text is in the language the pattern denotes, with the part at the
  start of the text for a leading caret and at its end for a final dollar sign.
\<close>

theorem match_decides_pattern: "match re tx = found re tx"
  by (rule match_found_eq)

section \<open>What the search prints\<close>

text \<open>The complete lines of an input, and what follows its last newline.\<close>

fun split_lines :: "u8 list \<Rightarrow> u8 list list \<times> u8 list" where
  "split_lines [] = ([], [])"
| "split_lines (c # s) =
     (case split_lines s of
        (ls, f) \<Rightarrow>
          if c = 10 then ([] # ls, f)
          else (case ls of [] \<Rightarrow> ([], c # f) | l # ls \<Rightarrow> ((c # l) # ls, f)))"

definition matching_lines :: "u8 list \<Rightarrow> u8 list \<Rightarrow> u8 list" where
  "matching_lines pattern s =
     concat (map (\<lambda>l. l @ [10]) (filter (match pattern) (fst (split_lines s))))"

definition fits_buffer :: "u8 list \<Rightarrow> bool" where
  "fits_buffer s = list_all (\<lambda>l. length l < 1023) (snd (split_lines s) # fst (split_lines s))"

lemma split_open:
  "10 \<notin> set f \<Longrightarrow>
   split_lines (f @ s) = (case split_lines s of ([], g) \<Rightarrow> ([], f @ g) | (l # ls, g) \<Rightarrow> ((f @ l) # ls, g))"
  by (induction f) (auto split: prod.splits list.splits)

lemma split_line: "10 \<notin> set l \<Longrightarrow> split_lines (l @ 10 # s) = (l # fst (split_lines s), snd (split_lines s))"
  by (simp add: split_open split: prod.splits)

lemma split_last: "10 \<notin> set f \<Longrightarrow> split_lines f = ([], f)"
  using split_open [of f "[]"] by simp

lemma split_rest_open: "10 \<notin> set (snd (split_lines s))"
  by (induction s) (auto split: prod.splits list.splits)

lemma split_rest_sub: "set (snd (split_lines s)) \<subseteq> set s"
  by (induction s) (auto split: prod.splits list.splits)

lemma split_append:
  "split_lines (a @ b) =
     (fst (split_lines a) @ fst (split_lines (snd (split_lines a) @ b)), snd (split_lines (snd (split_lines a) @ b)))"
proof (induction a)
  case Nil
  then show ?case by simp
next
  case (Cons c a)
  obtain ls f where a: "split_lines a = (ls, f)" by fastforce
  show ?case using Cons a by (cases ls) (auto split: prod.splits list.splits)
qed

lemma matching_append:
  "matching_lines pattern (a @ b) = matching_lines pattern a @ matching_lines pattern (snd (split_lines a) @ b)"
  unfolding matching_lines_def by (subst split_append) simp

lemma fits_append:
  assumes "fits_buffer (a @ b)"
  shows "fits_buffer (snd (split_lines a) @ b)" and "length (snd (split_lines a)) < 1023"
proof -
  let ?f = "snd (split_lines a)"
  show 1: "fits_buffer (?f @ b)"
    using assms unfolding fits_buffer_def by (subst (asm) (1 2) split_append) simp
  show "length ?f < 1023"
    using 1 unfolding fits_buffer_def split_open [OF split_rest_open] by (auto split: prod.splits list.splits)
qed

lemma takeWhile_open: "10 \<notin> set (takeWhile (\<lambda>c. c \<noteq> (10 :: u8)) p)"
  by (induction p) auto

lemma line_split:
  "10 \<in> set p \<Longrightarrow> takeWhile (\<lambda>c. c \<noteq> (10 :: u8)) p @ 10 # tl (dropWhile (\<lambda>c. c \<noteq> 10) p) = p"
  by (induction p) auto

lemma no_nul_takeWhile: "0 \<notin> set p \<Longrightarrow> takeWhile (\<lambda>c. c \<noteq> (0 :: u8)) p = p"
  by (induction p) auto

lemma grep_lines_spec:
  "0 \<notin> set p \<Longrightarrow> grep_lines pattern p = (matching_lines pattern p, snd (split_lines p))"
proof (induction pattern p rule: grep_lines.induct)
  case (1 pattern p)
  let ?l = "takeWhile (\<lambda>c. c \<noteq> 10) p" and ?r = "tl (dropWhile (\<lambda>c. c \<noteq> 10) p)"
  have nul: "10 \<in> set (takeWhile (\<lambda>c. c \<noteq> 0) p) \<longleftrightarrow> 10 \<in> set p" by (simp only: no_nul_takeWhile [OF 1(2)])
  show ?case
  proof (cases "10 \<in> set p")
    case True
    note p = line_split [OF True]
    have "0 \<notin> set ?r" using 1(2) p by (metis Un_iff list.set_intros(2) set_append)
    then have r: "grep_lines pattern ?r = (matching_lines pattern ?r, snd (split_lines ?r))"
      using 1(1) True nul by simp
    have s: "split_lines p = (?l # fst (split_lines ?r), snd (split_lines ?r))"
      using split_line [OF takeWhile_open, of p ?r] unfolding p .
    show ?thesis
      using True nul r by (subst grep_lines.simps) (simp add: s matching_lines_def)
  next
    case False
    then show ?thesis using nul by (subst grep_lines.simps) (simp add: split_last matching_lines_def)
  qed
qed

lemma matching_open: "10 \<notin> set s \<Longrightarrow> matching_lines pattern s = []"
  by (simp add: matching_lines_def split_last)

lemma grep_loop_spec:
  "0 \<notin> set (buf @ content ds) \<Longrightarrow> 10 \<notin> set buf \<Longrightarrow> fits_buffer (buf @ content ds) \<Longrightarrow>
   \<forall>d\<in>set ds. live d \<Longrightarrow> grep_loop pattern buf ds = matching_lines pattern (buf @ content ds)"
proof (induction pattern buf ds rule: grep_loop.induct)
  case (1 pattern buf ds)
  have "length buf < 1023" using fits_append(2) [OF 1(4)] split_last [OF 1(3)] by simp
  then have n: "0 < 1024 - length buf - 1" by simp
  obtain bs ds' where u: "uread (1024 - length buf - 1) ds = (Some bs, ds')"
    and eof: "bs = [] \<longrightarrow> content ds = []" and live: "\<forall>d\<in>set ds'. live d"
    using uread_live [OF 1(5) n] by blast
  have c: "content ds = bs @ content ds'" using uread_content [OF u] by simp
  show ?case
  proof (cases "bs = []")
    case True
    then show ?thesis using u eof matching_open [OF 1(3)] by (subst grep_loop.simps) simp
  next
    case False
    let ?rest = "snd (split_lines (buf @ bs))"
    have nul: "0 \<notin> set (buf @ bs)" using 1(2) c by simp
    have g: "grep_lines pattern (buf @ bs) = (matching_lines pattern (buf @ bs), ?rest)"
      by (rule grep_lines_spec [OF nul])
    have f: "fits_buffer (?rest @ content ds')" using fits_append(1) [of "buf @ bs" "content ds'"] 1(4) c by simp
    have z: "0 \<notin> set (?rest @ content ds')" using 1(2) c split_rest_sub [of "buf @ bs"] by auto
    have "grep_loop pattern ?rest ds' = matching_lines pattern (?rest @ content ds')"
      using 1(1) [OF u [symmetric] refl False refl g [symmetric] z split_rest_open f live] .
    moreover have "buf @ content ds = (buf @ bs) @ content ds'" using c by simp
    ultimately show ?thesis
      using u False g matching_append [of pattern "buf @ bs" "content ds'"] by (subst grep_loop.simps) simp
  qed
qed

text \<open>C28. \<^verbatim>\<open>grep\<close> prints the matching lines: for an input without NUL bytes whose lines have fewer
  than 1023 bytes, however \<^verbatim>\<open>read\<close> cuts it into pieces, the output is the complete lines the
  pattern matches, in order, each with its newline.
\<close>

theorem grep_prints_matching_lines:
  assumes "\<forall>d\<in>set ds. live d" and "0 \<notin> set (content ds)" and "fits_buffer (content ds)"
  shows "grep pattern ds =
         concat (map (\<lambda>l. l @ [10]) (filter (found pattern) (fst (split_lines (content ds)))))"
proof -
  have f: "found pattern = match pattern"
    by (rule ext) (simp add: match_found_eq)
  show ?thesis
    using grep_loop_spec [of "[]" ds pattern] assms by (simp add: grep_def f matching_lines_def)
qed

theorem grep_prints_matching_lines_witness:
  "grep [97] [Piece [98, 97], Piece [10, 98, 10]] =
   concat (map (\<lambda>l. l @ [10]) (filter (found [97]) (fst (split_lines [98, 97, 10, 98, 10]))))"
  using grep_prints_matching_lines [of "[Piece [98, 97], Piece [10, 98, 10]]" "[97]"]
  by (simp add: fits_buffer_def)

section \<open>A line that does not fit\<close>

lemma uread_prefix:
  assumes "\<forall>d\<in>set ds. live d" and "content ds \<noteq> []" and "0 < n"
  shows "\<exists>bs ds'. uread n (ds @ es) = (Some bs, ds' @ es) \<and> bs \<noteq> [] \<and> length bs \<le> n \<and>
    content ds = bs @ content ds' \<and> (\<forall>d\<in>set ds'. live d)"
proof (cases ds)
  case (Cons d ds')
  then obtain bs where d: "d = Piece bs" "bs \<noteq> []" using assms(1) by (cases d) auto
  show ?thesis
  proof (cases "length bs \<le> n")
    case True
    then show ?thesis using assms Cons d by (intro exI [of _ bs] exI [of _ ds']) simp
  next
    case False
    then show ?thesis using assms Cons d
      by (intro exI [of _ "take n bs"] exI [of _ "Piece (drop n bs) # ds'"]) auto
  qed
qed (use assms in simp)

lemma grep_lines_open: "10 \<notin> set p \<Longrightarrow> grep_lines pattern p = ([], p)"
  by (subst grep_lines.simps) (auto dest: set_takeWhileD)

text \<open>A full buffer leaves no room to read into, and no bytes read is the end of the input.\<close>

lemma grep_loop_full: "1023 \<le> length buf \<Longrightarrow> grep_loop pattern buf ds = []"
  by (subst grep_loop.simps, cases "(0 :: nat, ds)" rule: uread.cases) simp_all

lemma grep_loop_long:
  assumes "\<forall>d\<in>set ds. live d" and "1023 \<le> length (buf @ content ds)"
    and "10 \<notin> set (take 1023 (buf @ content ds))" and "length buf \<le> 1023"
  shows "grep_loop pattern buf (ds @ es) = []"
  using assms
proof (induction "length (content ds)" arbitrary: buf ds rule: less_induct)
  case less
  show ?case
  proof (cases "1023 \<le> length buf")
    case False
    then have n: "0 < 1024 - length buf - 1" and ne: "content ds \<noteq> []" using less.prems(2) by auto
    obtain bs ds' where u: "uread (1024 - length buf - 1) (ds @ es) = (Some bs, ds' @ es)" "bs \<noteq> []"
        "length bs \<le> 1024 - length buf - 1" "content ds = bs @ content ds'" "\<forall>d\<in>set ds'. live d"
      using uread_prefix [OF less.prems(1) ne n] by blast
    have le: "length (buf @ bs) \<le> 1023" using u(3) n by simp
    have "set (buf @ bs) \<subseteq> set (take 1023 (buf @ content ds))" using le u(4) by auto
    then have g: "grep_lines pattern (buf @ bs) = ([], buf @ bs)"
      using less.prems(3) by (intro grep_lines_open) blast
    have "grep_loop pattern (buf @ bs) (ds' @ es) = []"
      using less.prems(2,3) u le by (intro less.hyps) simp_all
    then show ?thesis using u(1,2) g by (subst grep_loop.simps) simp
  qed (rule grep_loop_full)
qed

text \<open>Whole lines in front of something that has no newline.\<close>

lemma complete_line:
  assumes "snd (split_lines a) = []" and "a \<noteq> []"
  shows "\<exists>l b. a = l @ 10 # b \<and> 10 \<notin> set l \<and> snd (split_lines b) = [] \<and>
    split_lines a = (l # fst (split_lines b), [])"
proof -
  have "10 \<in> set a" using assms split_last [of a] by (metis snd_conv)
  note a = line_split [OF this]
  let ?l = "takeWhile (\<lambda>c. c \<noteq> 10) a" and ?b = "tl (dropWhile (\<lambda>c. c \<noteq> 10) a)"
  have "split_lines a = (?l # fst (split_lines ?b), snd (split_lines ?b))"
    using split_line [OF takeWhile_open, of a ?b] unfolding a .
  then show ?thesis using a assms(1) by (intro exI [of _ ?l] exI [of _ ?b]) (simp add: takeWhile_open)
qed

lemma grep_lines_complete:
  "snd (split_lines a) = [] \<Longrightarrow> 0 \<notin> set a \<Longrightarrow> 10 \<notin> set l \<Longrightarrow>
   grep_lines pattern (a @ l) = (matching_lines pattern a, l)"
proof (induction "length a" arbitrary: a rule: less_induct)
  case less
  show ?case
  proof (cases "a = []")
    case True
    then show ?thesis using grep_lines_open [OF less.prems(3)] by (simp add: matching_lines_def)
  next
    case False
    obtain k b where a: "a = k @ 10 # b" "10 \<notin> set k" "snd (split_lines b) = []"
        "split_lines a = (k # fst (split_lines b), [])"
      using complete_line [OF less.prems(1) False] by blast
    have "0 \<notin> set (k @ [10])" using less.prems(2) a(1) by auto
    then have "takeWhile (\<lambda>c. c \<noteq> 0) (a @ l) = (k @ [10]) @ takeWhile (\<lambda>c. c \<noteq> 0) (b @ l)"
      unfolding a(1) by (subst takeWhile_append2 [symmetric]) auto
    then have nl: "10 \<in> set (takeWhile (\<lambda>c. c \<noteq> 0) (a @ l))" by simp
    have k: "takeWhile (\<lambda>c. c \<noteq> 10) (a @ l) = k" "tl (dropWhile (\<lambda>c. c \<noteq> 10) (a @ l)) = b @ l"
      using a(2) unfolding a(1) by (auto simp: takeWhile_append dropWhile_append dropWhile_eq_Nil_conv)
    have "grep_lines pattern (b @ l) = (matching_lines pattern b, l)"
      using less.prems(2,3) a by (intro less.hyps) simp_all
    then show ?thesis using nl k by (subst grep_lines.simps) (simp add: matching_lines_def a(4))
  qed
qed

lemma fits_complete:
  assumes "fits_buffer (a @ b)" and "snd (split_lines (a @ b)) = []"
  shows "fits_buffer (snd (split_lines a) @ b)" and "snd (split_lines (snd (split_lines a) @ b)) = []"
  using fits_append(1) [OF assms(1)] assms(2) split_append [of a b] by simp_all

lemma open_buffer:
  assumes "buf @ x = k @ c # y" and "c \<notin> set buf"
  shows "length buf \<le> length k"
proof (rule ccontr)
  assume "\<not> length buf \<le> length k"
  then have "buf ! length k = c \<and> length k < length buf"
    using assms(1) by (metis not_le nth_append nth_append_length)
  then show False using assms(2) nth_mem by metis
qed

lemma grep_loop_until_long:
  assumes "\<forall>d\<in>set ds. live d" and "buf @ content ds = a @ r" and "10 \<notin> set buf" and "length buf \<le> 1023"
    and "0 \<notin> set a" and "snd (split_lines a) = []" and "fits_buffer a"
    and "1023 \<le> length r" and "10 \<notin> set (take 1023 r)"
  shows "grep_loop pattern buf (ds @ es) = matching_lines pattern a"
  using assms
proof (induction "length (content ds)" arbitrary: buf ds a rule: less_induct)
  case less
  note P = less.prems
  show ?case
  proof (cases "a = []")
    case True
    then show ?thesis using grep_loop_long [OF P(1), of buf pattern es] P(2,4,8,9) by (simp add: matching_lines_def)
  next
    case False
    obtain k b where a: "a = k @ 10 # b" "10 \<notin> set k" "split_lines a = (k # fst (split_lines b), [])"
      using complete_line [OF P(6) False] by blast
    have k: "length k < 1023" using P(7) a(3) by (simp add: fits_buffer_def)
    have "length buf \<le> length k" using open_buffer [of buf _ k 10 "b @ r"] P(2,3) a(1) by simp
    then have n: "0 < 1024 - length buf - 1" and ne: "content ds \<noteq> []" using k P(2) a(1) by auto
    obtain bs ds' where u: "uread (1024 - length buf - 1) (ds @ es) = (Some bs, ds' @ es)" "bs \<noteq> []"
        "length bs \<le> 1024 - length buf - 1" "content ds = bs @ content ds'" "\<forall>d\<in>set ds'. live d"
      using uread_prefix [OF P(1) ne n] by blast
    have le: "length (buf @ bs) \<le> 1023" using u(3) n by simp
    have sm: "length (content ds') < length (content ds)" using u(2,4) by simp
    have all: "(buf @ bs) @ content ds' = a @ r" using P(2) u(4) by simp
    then consider (inside) c where "a = (buf @ bs) @ c" "content ds' = c @ r"
      | (past) l where "buf @ bs = a @ l" "r = l @ content ds'"
      unfolding append_eq_append_conv2 [of "buf @ bs"] by metis
    then show ?thesis
    proof cases
      case inside
      let ?rest = "snd (split_lines (buf @ bs))"
      have z: "0 \<notin> set (buf @ bs)" "0 \<notin> set (?rest @ c)"
        using P(5) inside(1) split_rest_sub [of "buf @ bs"] by auto
      have rl: "length ?rest \<le> 1023"
        using fits_append(2) [of "buf @ bs" c] P(7) inside(1) by simp
      have "grep_loop pattern ?rest (ds' @ es) = matching_lines pattern (?rest @ c)"
        using fits_complete [of "buf @ bs" c] P(6,7,8,9) inside z(2) u(5) split_rest_open rl sm
        by (intro less.hyps) simp_all
      then show ?thesis
        using u(1,2) grep_lines_spec [OF z(1), of pattern] matching_append [of pattern "buf @ bs" c] inside(1)
        by (subst grep_loop.simps) simp
    next
      case past
      have l: "10 \<notin> set l" using P(9) le past by auto
      have "grep_loop pattern l (ds' @ es) = []"
        using P(8,9) past le u(5) by (intro grep_loop_long) simp_all
      then show ?thesis
        using u(1,2) grep_lines_complete [OF P(6,5) l, of pattern] past(1) by (subst grep_loop.simps) simp
    qed
  qed
qed

text \<open>C29. A line that does not fit ends the search: after any number of complete lines of fewer than
  1023 bytes, a line with no newline in its first 1023 bytes fills the buffer, \<^verbatim>\<open>grep\<close> asks
  \<^verbatim>\<open>read\<close> for no bytes and takes the answer for the end of the file. However the input is cut
  into pieces, the output is the matching lines before the long one and nothing else, whatever
  follows.
\<close>

theorem grep_stops_at_long_line:
  assumes "\<forall>d\<in>set ds. live d" and "content ds = a @ r"
    and "0 \<notin> set a" and "snd (split_lines a) = []" and "fits_buffer a"
    and "1023 \<le> length r" and "10 \<notin> set (take 1023 r)"
  shows "grep pattern (ds @ es) =
         concat (map (\<lambda>l. l @ [10]) (filter (found pattern) (fst (split_lines a))))"
proof -
  have f: "found pattern = match pattern"
    by (rule ext) (simp add: match_found_eq)
  show ?thesis
    using grep_loop_until_long [of ds "[]" a r pattern es] assms by (simp add: grep_def f matching_lines_def)
qed

theorem grep_stops_at_long_line_witness:
  "grep [97] ([Piece [97, 10, 98], Piece (replicate 1022 97 @ [10])] @ [Piece [97, 10]]) = [97, 10]"
proof -
  let ?ds = "[Piece [97, 10, 98], Piece (replicate 1022 97 @ [10])]"
  have "grep [97] (?ds @ [Piece [97, 10]]) =
      concat (map (\<lambda>l. l @ [10]) (filter (found [97]) (fst (split_lines [97, 10]))))"
    by (rule grep_stops_at_long_line [where r = "98 # replicate 1022 97 @ [10]"]) (simp_all add: fits_buffer_def)
  moreover have "found [97] [97]" by (simp flip: match_found_eq add: match_def matchhere.simps)
  ultimately show ?thesis by simp
qed

end
