(* ===== verification/Sh.thy ===== *)
theory Sh
  imports Grep
begin

text \<open>
  The shell, \<^verbatim>\<open>user/sh.c\<close>: its tokenizer, its recursive-descent parser, the pass that
  terminates the strings of a parsed command, and \<^verbatim>\<open>runcmd\<close>. A pointer into the line is its
  offset; the line is the list of its bytes and \<^verbatim>\<open>es\<close> is its length, where the NUL is.
  \<^verbatim>\<open>panic\<close> ends the process and is an error value. \<^verbatim>\<open>malloc\<close> is taken to
  succeed, as the code takes it to.
\<close>

section \<open>Parsed commands\<close>

datatype cmd =
    Exec "(nat \<times> nat) list"
  | Redir cmd nat nat nat nat
  | Pipe cmd cmd
  | List cmd cmd
  | Back cmd

definition MAXARGS :: nat where
  "MAXARGS = 10"

definition execcmd :: cmd where
  "execcmd = Exec []"

definition redircmd :: "cmd \<Rightarrow> nat \<Rightarrow> nat \<Rightarrow> nat \<Rightarrow> nat \<Rightarrow> cmd" where
  "redircmd subcmd file efile mode fd = Redir subcmd file efile mode fd"

definition pipecmd :: "cmd \<Rightarrow> cmd \<Rightarrow> cmd" where
  "pipecmd left right = Pipe left right"

definition listcmd :: "cmd \<Rightarrow> cmd \<Rightarrow> cmd" where
  "listcmd left right = List left right"

definition backcmd :: "cmd \<Rightarrow> cmd" where
  "backcmd subcmd = Back subcmd"

lemmas cmd_cons = execcmd_def redircmd_def pipecmd_def listcmd_def backcmd_def

section \<open>Tokens\<close>

definition white :: "u8 list" where
  "white = ascii '' '' @ [9, 13, 10, 11]"

definition symbols :: "u8 list" where
  "symbols = ascii ''<|>&;()''"

definition ch :: "u8 list \<Rightarrow> nat \<Rightarrow> u8" where
  "ch s i = (if i < length s then s ! i else 0)"

text \<open>The loop that skips white space, and the loop over the characters of a word.\<close>

function skip_white :: "u8 list \<Rightarrow> nat \<Rightarrow> nat" where
  "skip_white s i = (if i < length s \<and> ch s i \<in> set white then skip_white s (i + 1) else i)"
  by pat_completeness auto
termination
  by (relation "measure (\<lambda>(s, i). length s - i)") auto

function skip_word :: "u8 list \<Rightarrow> nat \<Rightarrow> nat" where
  "skip_word s i =
     (if i < length s \<and> ch s i \<notin> set white \<and> ch s i \<notin> set symbols then skip_word s (i + 1) else i)"
  by pat_completeness auto
termination
  by (relation "measure (\<lambda>(s, i). length s - i)") auto

declare skip_white.simps [simp del] skip_word.simps [simp del]

text \<open>The token and where it ends.\<close>

definition scan :: "u8 list \<Rightarrow> nat \<Rightarrow> u8 \<times> nat" where
  "scan s i =
     (if ch s i = 0 then (0, i)
      else if ch s i \<in> set (ascii ''|();&<'') then (ch s i, i + 1)
      else if ch s i = of_char CHR ''>'' then
        (if ch s (i + 1) = of_char CHR ''>'' then (of_char CHR ''+'', i + 2) else (ch s i, i + 1))
      else (of_char CHR ''a'', skip_word s i))"

text \<open>The result: the token, \<^verbatim>\<open>*q\<close>, \<^verbatim>\<open>*eq\<close> and the new \<^verbatim>\<open>*ps\<close>.\<close>

definition gettoken :: "u8 list \<Rightarrow> nat \<Rightarrow> u8 \<times> nat \<times> nat \<times> nat" where
  "gettoken s ps =
     (let q = skip_white s ps; (ret, eq) = scan s q
      in (ret, q, eq, skip_white s eq))"

definition peek :: "u8 list \<Rightarrow> nat \<Rightarrow> u8 list \<Rightarrow> bool \<times> nat" where
  "peek s ps toks = (let i = skip_white s ps in (ch s i \<noteq> 0 \<and> ch s i \<in> set toks, i))"

text \<open>Where the pointers go.\<close>

lemma skip_white_ge: "i \<le> skip_white s i"
  by (induction s i rule: skip_white.induct) (subst skip_white.simps, auto)

lemma skip_white_le: "i \<le> length s \<Longrightarrow> skip_white s i \<le> length s"
  by (induction s i rule: skip_white.induct) (subst skip_white.simps, auto)

lemma skip_white_stops:
  "skip_white s i < length s \<Longrightarrow> ch s (skip_white s i) \<notin> set white"
  by (induction s i rule: skip_white.induct) (subst (asm) skip_white.simps, subst skip_white.simps, auto split: if_splits)

lemma skip_white_idem: "skip_white s (skip_white s i) = skip_white s i"
  using skip_white_stops [of s i] by (subst skip_white.simps) auto

lemma skip_word_ge: "i \<le> skip_word s i"
  by (induction s i rule: skip_word.induct) (subst skip_word.simps, auto)

lemma skip_word_le: "i \<le> length s \<Longrightarrow> skip_word s i \<le> length s"
  by (induction s i rule: skip_word.induct) (subst skip_word.simps, auto)

lemma ch_nonzero: "ch s i \<noteq> 0 \<Longrightarrow> i < length s"
  by (auto simp: ch_def split: if_splits)

lemma scan_range:
  assumes "i \<le> length s"
  shows "i \<le> snd (scan s i) \<and> snd (scan s i) \<le> length s"
proof (cases "ch s i = 0")
  case False
  then have "i < length s" by (rule ch_nonzero)
  moreover have "ch s (i + 1) = of_char CHR ''>'' \<Longrightarrow> i + 1 < length s"
    by (rule ch_nonzero) simp
  ultimately show ?thesis
    using False skip_word_ge [of i s] skip_word_le [of i s] by (auto simp: scan_def)
qed (use assms in \<open>simp add: scan_def\<close>)

lemma scan_advances:
  assumes "fst (scan s i) \<noteq> 0" and "ch s i \<notin> set white"
  shows "i < snd (scan s i)"
proof -
  have i: "ch s i \<noteq> 0" using assms(1) by (auto simp: scan_def)
  then have l: "i < length s" by (rule ch_nonzero)
  have sym: "c \<in> set symbols \<longleftrightarrow> c \<in> set (ascii ''|();&<'') \<or> c = of_char CHR ''>''" for c
    by (auto simp: symbols_def ascii_def)
  show ?thesis
  proof (cases "ch s i \<in> set symbols")
    case True
    then show ?thesis using i unfolding scan_def sym by auto
  next
    case False
    then have "skip_word s i = skip_word s (i + 1)" using l assms(2) by (subst skip_word.simps) simp
    then have "i < skip_word s i" using skip_word_ge [of "i + 1" s] by simp
    then show ?thesis using i False unfolding scan_def sym by auto
  qed
qed

lemma gettoken_range:
  assumes "gettoken s i = (ret, q, eq, j)" and "i \<le> length s"
  shows "i \<le> q" "q \<le> eq" "eq \<le> j" "j \<le> length s"
proof -
  have q: "q = skip_white s i" and e: "(ret, eq) = scan s q" and j: "j = skip_white s eq"
    using assms(1) by (auto simp: gettoken_def Let_def split: prod.splits)
  have r: "q \<le> eq \<and> eq \<le> length s"
    using scan_range [of q s] skip_white_le [OF assms(2)] unfolding q [symmetric] e [symmetric] by simp
  show "i \<le> q" unfolding q by (rule skip_white_ge)
  show "q \<le> eq" using r by simp
  show "eq \<le> j" unfolding j by (rule skip_white_ge)
  show "j \<le> length s" unfolding j using skip_white_le r by simp
qed

lemma gettoken_advances:
  assumes "gettoken s i = (ret, q, eq, j)" and "ret \<noteq> 0"
  shows "q < eq" "i < j" "q < length s"
proof -
  have q: "q = skip_white s i" and e: "(ret, eq) = scan s q" and j: "j = skip_white s eq"
    using assms(1) by (auto simp: gettoken_def Let_def split: prod.splits)
  have "ch s q \<noteq> 0" using e assms(2) by (auto simp: scan_def split: if_splits)
  then show l: "q < length s" by (rule ch_nonzero)
  have "ch s q \<notin> set white" using skip_white_stops [of s i] l unfolding q by simp
  then show qe: "q < eq" using scan_advances [of s q] e assms(2) by (metis fst_conv snd_conv)
  show "i < j" using skip_white_ge [of i s] skip_white_ge [of eq s] qe unfolding q j by linarith
qed

lemma peek_range:
  "peek s i toks = (b, j) \<Longrightarrow> i \<le> length s \<Longrightarrow> i \<le> j \<and> j \<le> length s"
  by (auto simp: peek_def Let_def skip_white_ge skip_white_le)

lemma peek_token:
  assumes "peek s i toks = (True, j)" and "gettoken s j = (ret, q, eq, k)"
  shows "ret \<noteq> 0"
proof -
  have j: "j = skip_white s i" and c: "ch s j \<noteq> 0" using assms(1) by (auto simp: peek_def Let_def)
  have "q = j" "(ret, eq) = scan s j"
    using assms(2) skip_white_idem [of s i] j by (auto simp: gettoken_def Let_def split: prod.splits)
  then show ?thesis using c by (auto simp: scan_def split: if_splits)
qed

lemma peek_advances:
  assumes "peek s i toks = (True, j)" and "gettoken s j = (ret, q, eq, k)"
  shows "i < k" "j < length s"
proof -
  have j: "j = skip_white s i" and c: "ch s j \<noteq> 0" using assms(1) by (auto simp: peek_def Let_def)
  show "j < length s" using c by (rule ch_nonzero)
  show "i < k" using gettoken_advances(2) [OF assms(2) peek_token [OF assms]] skip_white_ge [of i s] j by simp
qed

section \<open>The parser\<close>

text \<open>A command, the message of a \<^verbatim>\<open>panic\<close>, or recursion deeper than the bound given.\<close>

datatype 'a pres = Got 'a | Err string | Out

fun pbind :: "'a pres \<Rightarrow> ('a \<Rightarrow> 'b pres) \<Rightarrow> 'b pres" where
  "pbind (Got x) f = f x"
| "pbind (Err e) f = Err e"
| "pbind Out f = Out"

lemma pbind_Got: "pbind r f = Got y \<longleftrightarrow> (\<exists>x. r = Got x \<and> f x = Got y)"
  by (cases r) auto

lemma pbind_Out: "pbind r f = Out \<longleftrightarrow> r = Out \<or> (\<exists>x. r = Got x \<and> f x = Out)"
  by (cases r) auto

definition redir_for :: "u8 \<Rightarrow> cmd \<Rightarrow> nat \<Rightarrow> nat \<Rightarrow> cmd" where
  "redir_for tok cmd q eq =
     (if tok = of_char CHR ''<'' then redircmd cmd q eq 0 0
      else if tok = of_char CHR ''>'' then redircmd cmd q eq (0x001 + 0x200 + 0x400) 1
      else if tok = of_char CHR ''+'' then redircmd cmd q eq (0x001 + 0x200) 1
      else cmd)"

function parseredirs :: "u8 list \<Rightarrow> cmd \<Rightarrow> nat \<Rightarrow> (cmd \<times> nat) pres" where
  "parseredirs s cmd i =
     (case peek s i (ascii ''<>'') of
        (False, i) \<Rightarrow> Got (cmd, i)
      | (True, i) \<Rightarrow>
          (case gettoken s i of
             (tok, _, _, i) \<Rightarrow>
               (case gettoken s i of
                  (t, q, eq, i) \<Rightarrow>
                    if t \<noteq> of_char CHR ''a'' then Err ''missing file for redirection''
                    else parseredirs s (redir_for tok cmd q eq) i)))"
  by pat_completeness auto
termination
proof (relation "measure (\<lambda>(s, cmd, i). length s - i)")
  fix s cmd i and b j tok r1 q1 r2 e1 k t r3 q r4 eq l
  assume p: "(b, j) = peek s i (ascii ''<>'')" "b = True"
    and g: "(tok, r1) = gettoken s j" "(q1, r2) = r1" "(e1, k) = r2"
    and h: "(t, r3) = gettoken s k" "(q, r4) = r3" "(eq, l) = r4" and t: "\<not> t \<noteq> of_char CHR ''a''"
  have "i < k" "j < length s" using peek_advances [of s i _ j tok q1 e1 k] p g by auto
  moreover have "k < l" using gettoken_advances(2) [of s k t q eq l] h t by auto
  moreover have "i \<le> j" using p skip_white_ge [of i s] by (auto simp: peek_def Let_def)
  ultimately show "((s, redir_for tok cmd q eq, l), s, cmd, i) \<in> measure (\<lambda>(s, cmd, i). length s - i)" by auto
qed (rule wf_measure)

declare parseredirs.simps [simp del]

text \<open>
  A store through the \<^verbatim>\<open>execcmd\<close> pointer that \<^verbatim>\<open>parseexec\<close> keeps, which lies under the
  redirections wrapped around it.
\<close>

fun add_arg :: "cmd \<Rightarrow> nat \<times> nat \<Rightarrow> cmd" where
  "add_arg (Exec args) a = Exec (args @ [a])"
| "add_arg (Redir c q eq mode fd) a = Redir (add_arg c a) q eq mode fd"
| "add_arg c a = c"

definition word :: "u8 list \<Rightarrow> nat \<times> nat \<Rightarrow> bool" where
  "word s = (\<lambda>(q, e). q < e \<and> e \<le> length s \<and>
     list_all (\<lambda>k. ch s k \<notin> set white \<union> set symbols) [q..<e] \<and>
     (e = length s \<or> ch s e \<in> set white \<union> set symbols))"

lemma skip_word_word:
  "q \<le> k \<Longrightarrow> k < skip_word s q \<Longrightarrow> ch s k \<notin> set white \<union> set symbols"
proof (induction s q rule: skip_word.induct)
  case (1 s i)
  then show ?case by (subst (asm) (2) skip_word.simps) (cases "k = i"; auto split: if_splits)
qed

lemma skip_word_end:
  "q \<le> length s \<Longrightarrow> skip_word s q = length s \<or> ch s (skip_word s q) \<in> set white \<union> set symbols"
proof (induction s q rule: skip_word.induct)
  case (1 s i)
  then show ?case by (subst (1 2) skip_word.simps) auto
qed

lemma gettoken_word:
  assumes g: "gettoken s i = (ret, q, eq, j)" and a: "ret = of_char CHR ''a''"
  shows "word s (q, eq)"
proof -
  have nz: "ret \<noteq> 0" using a by simp
  note adv = gettoken_advances [OF g nz]
  have "(ret, eq) = scan s q"
    using g by (auto simp: gettoken_def Let_def split: prod.splits)
  then have e: "eq = skip_word s q"
    using a by (auto simp: scan_def ascii_def split: if_splits)
  show ?thesis
    using adv skip_word_word [of q _ s] skip_word_end [of q s] skip_word_le [of q s]
    by (auto simp: word_def e list_all_iff)
qed

fun cmd_wf :: "u8 list \<Rightarrow> cmd \<Rightarrow> bool" where
  "cmd_wf s (Exec args) = (length args < MAXARGS \<and> list_all (word s) args)"
| "cmd_wf s (Redir c q eq mode fd) = (cmd_wf s c \<and> word s (q, eq) \<and> fd \<le> 1)"
| "cmd_wf s (Pipe l r) = (cmd_wf s l \<and> cmd_wf s r)"
| "cmd_wf s (List l r) = (cmd_wf s l \<and> cmd_wf s r)"
| "cmd_wf s (Back c) = cmd_wf s c"

text \<open>The number of arguments of the \<^verbatim>\<open>execcmd\<close> under redirections, if it is one.\<close>

fun nargs :: "cmd \<Rightarrow> nat option" where
  "nargs (Exec args) = Some (length args)"
| "nargs (Redir c q eq mode fd) = nargs c"
| "nargs c = None"

lemma nargs_add: "nargs c = Some n \<Longrightarrow> nargs (add_arg c a) = Some (Suc n)"
  by (induction c a rule: add_arg.induct) auto

lemma wf_add:
  "cmd_wf s c \<Longrightarrow> nargs c = Some n \<Longrightarrow> Suc n < MAXARGS \<Longrightarrow> word s a \<Longrightarrow> cmd_wf s (add_arg c a)"
  by (induction c a rule: add_arg.induct) auto

lemma nargs_redir: "nargs (redir_for tok c q eq) = nargs c"
  by (simp add: redir_for_def redircmd_def)

lemma wf_redir: "cmd_wf s c \<Longrightarrow> word s (q, eq) \<Longrightarrow> cmd_wf s (redir_for tok c q eq)"
  by (simp add: redir_for_def redircmd_def)

lemma parseredirs_not_Out: "parseredirs s c i \<noteq> Out"
  by (induction s c i rule: parseredirs.induct)
     (subst parseredirs.simps, auto split: prod.splits bool.splits)

lemma parseredirs_ok:
  "parseredirs s c i = Got (c', j) \<Longrightarrow> i \<le> length s \<Longrightarrow> cmd_wf s c \<Longrightarrow>
   cmd_wf s c' \<and> nargs c' = nargs c \<and> i \<le> j \<and> j \<le> length s"
proof (induction s c i arbitrary: c' j rule: parseredirs.induct)
  case (1 s c i)
  obtain b i1 where p: "peek s i (ascii ''<>'') = (b, i1)" by fastforce
  note r1 = peek_range [OF p 1(3)]
  show ?case
  proof (cases b)
    case False
    then show ?thesis using 1(2,4) p r1 by (subst (asm) parseredirs.simps) simp
  next
    case True
    then have b: "b = True" by simp
    obtain tok q1 e1 i2 where g: "gettoken s i1 = (tok, q1, e1, i2)" by (metis prod_cases4)
    obtain t q eq i3 where h: "gettoken s i2 = (t, q, eq, i3)" by (metis prod_cases4)
    have r2: "i1 \<le> i2" "i2 \<le> length s" using gettoken_range [OF g] r1 by linarith+
    have r3: "i2 \<le> i3" "i3 \<le> length s" using gettoken_range [OF h r2(2)] by linarith+
    have e: "parseredirs s c i = (if t \<noteq> of_char CHR ''a'' then Err ''missing file for redirection''
               else parseredirs s (redir_for tok c q eq) i3)"
      by (subst parseredirs.simps) (simp add: p b g h)
    then have a: "t = of_char CHR ''a''" using 1(2) by (auto split: if_splits)
    have "cmd_wf s c' \<and> nargs c' = nargs (redir_for tok c q eq) \<and> i3 \<le> j \<and> j \<le> length s"
      by (rule 1(1) [OF p [symmetric] b g [symmetric] refl refl h [symmetric] refl refl])
         (use a e 1(2,4) r3 wf_redir gettoken_word [OF h] in auto)
    then show ?thesis using r1 r2 r3 by (simp add: nargs_redir)
  qed
qed

function args_loop :: "u8 list \<Rightarrow> cmd \<Rightarrow> nat \<Rightarrow> nat \<Rightarrow> (cmd \<times> nat) pres" where
  "args_loop s ret argc i =
     (case peek s i (ascii ''|)&;'') of
        (True, i) \<Rightarrow> Got (ret, i)
      | (False, i) \<Rightarrow>
          (case gettoken s i of
             (tok, q, eq, i) \<Rightarrow>
               if tok = 0 then Got (ret, i)
               else if tok \<noteq> of_char CHR ''a'' then Err ''syntax''
               else if argc + 1 \<ge> MAXARGS then Err ''too many args''
               else (case parseredirs s (add_arg ret (q, eq)) i of
                       Got (ret, i) \<Rightarrow> args_loop s ret (argc + 1) i
                     | Err e \<Rightarrow> Err e
                     | Out \<Rightarrow> Out)))"
  by pat_completeness auto
termination
  by (relation "measure (\<lambda>(s, ret, argc, i). MAXARGS - argc)") auto

declare args_loop.simps [simp del]

function back_loop :: "u8 list \<Rightarrow> cmd \<Rightarrow> nat \<Rightarrow> cmd \<times> nat" where
  "back_loop s cmd i =
     (case peek s i (ascii ''&'') of
        (False, i) \<Rightarrow> (cmd, i)
      | (True, i) \<Rightarrow> (case gettoken s i of (_, _, _, i) \<Rightarrow> back_loop s (backcmd cmd) i))"
  by pat_completeness auto
termination
proof (relation "measure (\<lambda>(s, cmd, i). length s - i)")
  fix s cmd i and b j tok r1 q1 r2 e1 k
  assume p: "(b, j) = peek s i (ascii ''&'')" "b = True"
    and g: "(tok, r1) = gettoken s j" "(q1, r2) = r1" "(e1, k) = r2"
  have "i < k" "j < length s" using peek_advances [of s i _ j tok q1 e1 k] p g by auto
  moreover have "i \<le> j" using p skip_white_ge [of i s] by (auto simp: peek_def Let_def)
  ultimately show "((s, backcmd cmd, k), s, cmd, i) \<in> measure (\<lambda>(s, cmd, i). length s - i)" by auto
qed (rule wf_measure)

declare back_loop.simps [simp del]

text \<open>The mutually recursive functions, with a bound on the depth of their calls.\<close>

fun parseline :: "nat \<Rightarrow> u8 list \<Rightarrow> nat \<Rightarrow> (cmd \<times> nat) pres"
  and parsepipe :: "nat \<Rightarrow> u8 list \<Rightarrow> nat \<Rightarrow> (cmd \<times> nat) pres"
  and parseblock :: "nat \<Rightarrow> u8 list \<Rightarrow> nat \<Rightarrow> (cmd \<times> nat) pres"
  and parseexec :: "nat \<Rightarrow> u8 list \<Rightarrow> nat \<Rightarrow> (cmd \<times> nat) pres" where
  "parseline 0 s i = Out"
| "parseline (Suc n) s i =
     pbind (parsepipe n s i) (\<lambda>(cmd, i).
       case back_loop s cmd i of (cmd, i) \<Rightarrow>
       case peek s i (ascii '';'') of (b, i) \<Rightarrow>
       if b then
         (case gettoken s i of (_, _, _, i) \<Rightarrow>
          pbind (parseline n s i) (\<lambda>(right, i). Got (listcmd cmd right, i)))
       else Got (cmd, i))"
| "parsepipe 0 s i = Out"
| "parsepipe (Suc n) s i =
     pbind (parseexec n s i) (\<lambda>(cmd, i).
       case peek s i (ascii ''|'') of (b, i) \<Rightarrow>
       if b then
         (case gettoken s i of (_, _, _, i) \<Rightarrow>
          pbind (parsepipe n s i) (\<lambda>(right, i). Got (pipecmd cmd right, i)))
       else Got (cmd, i))"
| "parseblock 0 s i = Out"
| "parseblock (Suc n) s i =
     (case peek s i (ascii ''('') of (b, i) \<Rightarrow>
      if \<not> b then Err ''parseblock''
      else case gettoken s i of (_, _, _, i) \<Rightarrow>
        pbind (parseline n s i) (\<lambda>(cmd, i).
          case peek s i (ascii '')'') of (b, i) \<Rightarrow>
          if \<not> b then Err ''syntax - missing )''
          else case gettoken s i of (_, _, _, i) \<Rightarrow> parseredirs s cmd i))"
| "parseexec 0 s i = Out"
| "parseexec (Suc n) s i =
     (case peek s i (ascii ''('') of (b, i) \<Rightarrow>
      if b then parseblock n s i
      else pbind (parseredirs s execcmd i) (\<lambda>(ret, i). args_loop s ret 0 i))"

text \<open>The stores of \<^verbatim>\<open>nulterminate\<close> into the line with its NUL.\<close>

fun nulterminate :: "cmd \<Rightarrow> u8 list \<Rightarrow> u8 list" where
  "nulterminate (Exec args) buf = fold (\<lambda>(q, eq) buf. buf[eq := 0]) args buf"
| "nulterminate (Redir c q eq mode fd) buf = (nulterminate c buf)[eq := 0]"
| "nulterminate (Pipe l r) buf = nulterminate r (nulterminate l buf)"
| "nulterminate (List l r) buf = nulterminate r (nulterminate l buf)"
| "nulterminate (Back c) buf = nulterminate c buf"

text \<open>\<^verbatim>\<open>parsecmd\<close>, with a bound on the depth that depends on the length of the line.\<close>

definition parsecmd :: "u8 list \<Rightarrow> (cmd \<times> u8 list) pres" where
  "parsecmd s =
     pbind (parseline (4 * length s + 4) s 0) (\<lambda>(cmd, i).
       case peek s i [] of (_, i) \<Rightarrow>
       if i \<noteq> length s then Err ''syntax'' else Got (cmd, nulterminate cmd (s @ [0])))"

section \<open>The parser returns a well-formed command\<close>

lemma args_loop_not_Out: "args_loop s ret argc i \<noteq> Out"
  by (induction s ret argc i rule: args_loop.induct)
     (subst args_loop.simps, auto split: prod.splits bool.splits pres.splits simp: parseredirs_not_Out)

lemma args_loop_ok:
  "args_loop s c n i = Got (c', j) \<Longrightarrow> i \<le> length s \<Longrightarrow> cmd_wf s c \<Longrightarrow> nargs c = Some n \<Longrightarrow>
   cmd_wf s c' \<and> i \<le> j \<and> j \<le> length s"
proof (induction s c n i arbitrary: c' j rule: args_loop.induct)
  case (1 s c n i)
  obtain b i1 where p: "peek s i (ascii ''|)&;'') = (b, i1)" by fastforce
  obtain tok q eq i2 where g: "gettoken s i1 = (tok, q, eq, i2)" by (metis prod_cases4)
  note r1 = peek_range [OF p 1(3)]
  have r2: "i1 \<le> i2" "i2 \<le> length s" using gettoken_range [OF g] r1 by linarith+
  consider "b" | "\<not> b" "tok = 0" | (arg) "b = False" "tok \<noteq> 0"
    by blast
  then show ?case
  proof cases
    case arg
    have u: "args_loop s c n i = Got (c', j)" by (rule 1(2))
    have a: "\<not> tok \<noteq> of_char CHR ''a''"
      using u arg p g by (subst (asm) args_loop.simps) (simp split: if_splits)
    have m: "\<not> MAXARGS \<le> n + 1"
      using u arg p g by (subst (asm) args_loop.simps) (simp split: if_splits)
    let ?c = "add_arg c (q, eq)"
    have w: "cmd_wf s ?c" using wf_add [OF 1(4,5) _ gettoken_word [OF g]] a m by simp
    have e: "args_loop s c n i = (case parseredirs s ?c i2 of
        Got (ret, i) \<Rightarrow> args_loop s ret (n + 1) i | Err e \<Rightarrow> Err e | Out \<Rightarrow> Out)"
      using arg a m p g by (subst args_loop.simps) simp
    then obtain c2 i3 where r: "parseredirs s ?c i2 = Got (c2, i3)" and l: "args_loop s c2 (n + 1) i3 = Got (c', j)"
      using 1(2) by (auto split: pres.splits)
    note r3 = parseredirs_ok [OF r r2(2) w]
    have "cmd_wf s c' \<and> i3 \<le> j \<and> j \<le> length s"
      by (rule 1(1) [OF p [symmetric] arg(1) g [symmetric] refl refl arg(2) a m r refl l])
         (use r3 nargs_add [OF 1(5)] in auto)
    then show ?thesis using r1 r2 r3 by simp
  qed (use 1(2,4) p g r1 r2 in \<open>(subst (asm) args_loop.simps, simp)+\<close>)
qed

lemma back_loop_ok:
  "back_loop s c i = (c', j) \<Longrightarrow> i \<le> length s \<Longrightarrow> cmd_wf s c \<Longrightarrow> cmd_wf s c' \<and> i \<le> j \<and> j \<le> length s"
proof (induction s c i arbitrary: c' j rule: back_loop.induct)
  case (1 s c i)
  obtain b i1 where p: "peek s i (ascii ''&'') = (b, i1)" by fastforce
  obtain tok q eq i2 where g: "gettoken s i1 = (tok, q, eq, i2)" by (metis prod_cases4)
  note r1 = peek_range [OF p 1(3)]
  have r2: "i1 \<le> i2" "i2 \<le> length s" using gettoken_range [OF g] r1 by linarith+
  show ?case
  proof (cases b)
    case True
    then have b: "b = True" by simp
    have "back_loop s (backcmd c) i2 = (c', j)" using 1(2) p b g by (subst (asm) back_loop.simps) simp
    then have "cmd_wf s c' \<and> i2 \<le> j \<and> j \<le> length s"
      using 1(1) [OF p [symmetric] b g [symmetric] refl refl _ r2(2)] 1(4) by (simp add: backcmd_def)
    then show ?thesis using r1 r2 by simp
  qed (use 1(2,4) p r1 in \<open>subst (asm) back_loop.simps, simp\<close>)
qed

text \<open>A result that is a well-formed command and a pointer no further back.\<close>

definition parsed :: "u8 list \<Rightarrow> nat \<Rightarrow> (cmd \<times> nat) pres \<Rightarrow> bool" where
  "parsed s i r = (case r of Got (c, j) \<Rightarrow> cmd_wf s c \<and> i \<le> j \<and> j \<le> length s | _ \<Rightarrow> True)"

lemma parsed_Got: "parsed s i (Got (c, j)) = (cmd_wf s c \<and> i \<le> j \<and> j \<le> length s)"
  by (simp add: parsed_def)

lemma parsed_mono: "parsed s i' r \<Longrightarrow> i \<le> i' \<Longrightarrow> parsed s i r"
  by (auto simp: parsed_def split: pres.splits)

lemma parsed_pbind:
  assumes "parsed s i r" and "\<And>c j. r = Got (c, j) \<Longrightarrow> cmd_wf s c \<Longrightarrow> i \<le> j \<Longrightarrow> j \<le> length s \<Longrightarrow> parsed s i (f (c, j))"
  shows "parsed s i (pbind r f)"
  using assms by (cases r) (auto simp: parsed_def)

lemma parsed_peek:
  assumes "i0 \<le> i" and "i \<le> length s" and "\<And>b j. i \<le> j \<Longrightarrow> j \<le> length s \<Longrightarrow> parsed s i0 (f b j)"
  shows "parsed s i0 (case peek s i toks of (b, j) \<Rightarrow> f b j)"
  using assms(3) peek_range [OF _ assms(2)] by (cases "peek s i toks") simp

lemma parsed_gettoken:
  assumes "i0 \<le> i" and "i \<le> length s" and "\<And>j. i \<le> j \<Longrightarrow> j \<le> length s \<Longrightarrow> parsed s i0 (f j)"
  shows "parsed s i0 (case gettoken s i of (_, _, _, j) \<Rightarrow> f j)"
proof -
  obtain t q e j where g: "gettoken s i = (t, q, e, j)" by (metis prod_cases4)
  then show ?thesis using assms(3) [of j] gettoken_range [OF g assms(2)] by simp
qed

lemma parsed_redirs: "i0 \<le> i \<Longrightarrow> i \<le> length s \<Longrightarrow> cmd_wf s c \<Longrightarrow> parsed s i0 (parseredirs s c i)"
  using parseredirs_ok [of s c i] by (fastforce simp: parsed_def split: pres.splits)

lemma parsed_back:
  assumes "i0 \<le> i" "i \<le> length s" "cmd_wf s c"
    and "\<And>c j. i \<le> j \<Longrightarrow> j \<le> length s \<Longrightarrow> cmd_wf s c \<Longrightarrow> parsed s i0 (f c j)"
  shows "parsed s i0 (case back_loop s c i of (c, j) \<Rightarrow> f c j)"
  using assms(4) back_loop_ok [OF _ assms(2,3)] by (cases "back_loop s c i") simp

lemma parse_ok:
  "i \<le> length s \<Longrightarrow> parsed s i (parseline n s i)"
  "i \<le> length s \<Longrightarrow> parsed s i (parsepipe n s i)"
  "i \<le> length s \<Longrightarrow> parsed s i (parseblock n s i)"
  "i \<le> length s \<Longrightarrow> parsed s i (parseexec n s i)"
proof (induction n arbitrary: i)
  case 0
  { case 1 show ?case by (simp add: parsed_def) }
  { case 2 show ?case by (simp add: parsed_def) }
  { case 3 show ?case by (simp add: parsed_def) }
  { case 4 show ?case by (simp add: parsed_def) }
next
  case (Suc n)
  have line: "i0 \<le> i \<Longrightarrow> i \<le> length s \<Longrightarrow> parsed s i0 (parseline n s i)" for i0 i
    using parsed_mono Suc(1) by blast
  have pipe: "i0 \<le> i \<Longrightarrow> i \<le> length s \<Longrightarrow> parsed s i0 (parsepipe n s i)" for i0 i
    using parsed_mono Suc(2) by blast
  have block: "i0 \<le> i \<Longrightarrow> i \<le> length s \<Longrightarrow> parsed s i0 (parseblock n s i)" for i0 i
    using parsed_mono Suc(3) by blast
  have args: "i0 \<le> i \<Longrightarrow> i \<le> length s \<Longrightarrow> cmd_wf s c \<Longrightarrow> nargs c = Some 0 \<Longrightarrow> parsed s i0 (args_loop s c 0 i)" for i0 i c
    using args_loop_ok [of s c 0 i] by (fastforce simp: parsed_def split: pres.splits)
  { case 1
    then show ?case unfolding parseline.simps
      by (auto intro!: parsed_pbind parsed_back parsed_peek parsed_gettoken line Suc(2)
               simp: parsed_Got cmd_cons) }
  { case 2
    then show ?case unfolding parsepipe.simps
      by (auto intro!: parsed_pbind parsed_peek parsed_gettoken pipe Suc(4) simp: parsed_Got cmd_cons) }
  { case 3
    then show ?case unfolding parseblock.simps
      by (auto intro!: parsed_pbind parsed_peek parsed_gettoken line parsed_redirs simp: parsed_Got)
         (simp_all add: parsed_def) }
  { case 4
    have e: "cmd_wf s execcmd" "nargs execcmd = Some 0" by (simp_all add: execcmd_def MAXARGS_def)
    have n: "nargs c = Some 0" if "parseredirs s execcmd k = Got (c, j)" "k \<le> length s" for k c j
      using parseredirs_ok [OF that e(1)] e(2) by simp
    show ?case unfolding parseexec.simps using 4
      by (auto intro!: parsed_pbind parsed_peek block parsed_redirs args e intro: n) }
qed

text \<open>The depth is enough: each level of calls consumes a character of the line.\<close>

lemma peek_gettoken_le:
  assumes "peek s i toks = (True, j)" and "gettoken s j = (t, q, e, k)" and "i \<le> length s"
  shows "i < k" and "k \<le> length s"
  using peek_advances(1) [OF assms(1,2)] gettoken_range(4) [OF assms(2)] peek_range [OF assms(1,3)] by auto

lemma parse_not_Out:
  "i \<le> length s \<Longrightarrow> 4 * (length s - i) + 4 \<le> n \<Longrightarrow> parseline n s i \<noteq> Out"
  "i \<le> length s \<Longrightarrow> 4 * (length s - i) + 3 \<le> n \<Longrightarrow> parsepipe n s i \<noteq> Out"
  "i \<le> length s \<Longrightarrow> 4 * (length s - i) + 1 \<le> n \<Longrightarrow> parseblock n s i \<noteq> Out"
  "i \<le> length s \<Longrightarrow> 4 * (length s - i) + 2 \<le> n \<Longrightarrow> parseexec n s i \<noteq> Out"
proof (induction n arbitrary: i)
  case 0
  { case 1 then show ?case by simp }
  { case 2 then show ?case by simp }
  { case 3 then show ?case by simp }
  { case 4 then show ?case by simp }
next
  case (Suc n)
  { case 1
    have p: "parsepipe n s i \<noteq> Out" using Suc(2) 1 by simp
    have "parseline n s k \<noteq> Out"
      if g: "parsepipe n s i = Got (c, j)" "back_loop s c j = (c', j')" "peek s j' (ascii '';'') = (True, l)"
        "gettoken s l = (t, q, e, k)" for c j c' j' l t q e k
    proof -
      have "i \<le> j" "j \<le> length s" "cmd_wf s c" using parse_ok(2) [OF 1(1), of n] g(1) by (simp_all add: parsed_Got)
      then have "i \<le> j'" "j' \<le> length s" using back_loop_ok [OF g(2)] by auto
      then have "i < k" "k \<le> length s" using peek_gettoken_le [OF g(3,4)] by auto
      then show ?thesis using Suc(1) [of k] 1 by simp
    qed
    then show ?case using p by (auto simp: pbind_Out split: prod.splits) }
  { case 2
    have p: "parseexec n s i \<noteq> Out" using Suc(4) 2 by simp
    have "parsepipe n s k \<noteq> Out"
      if g: "parseexec n s i = Got (c, j)" "peek s j (ascii ''|'') = (True, l)" "gettoken s l = (t, q, e, k)"
      for c j l t q e k
    proof -
      have "i \<le> j" "j \<le> length s" using parse_ok(4) [OF 2(1), of n] g(1) by (simp_all add: parsed_Got)
      then have "i < k" "k \<le> length s" using peek_gettoken_le [OF g(2,3)] by auto
      then show ?thesis using Suc(2) [of k] 2 by simp
    qed
    then show ?case using p by (auto simp: pbind_Out split: prod.splits) }
  { case 3
    have "parseline n s k \<noteq> Out" if g: "peek s i (ascii ''('') = (True, l)" "gettoken s l = (t, q, e, k)" for l t q e k
      using Suc(1) [of k] peek_gettoken_le [OF g 3(1)] 3 by simp
    then show ?case by (auto simp: pbind_Out parseredirs_not_Out split: prod.splits) }
  { case 4
    have "parseblock n s l \<noteq> Out" if g: "peek s i (ascii ''('') = (True, l)" for l
      using Suc(3) [of l] peek_range [OF g 4(1)] diff_le_mono2 [of i l "length s"] 4 by simp
    then show ?case by (auto simp: pbind_Out parseredirs_not_Out args_loop_not_Out split: prod.splits) }
qed

text \<open>C31. The parser ends on every line: for each line of bytes \<^verbatim>\<open>parsecmd\<close> returns a command or
  stops in \<^verbatim>\<open>panic\<close> with a message, and never runs forever or deeper than a depth linear in
  the length of the line.
\<close>

theorem parsecmd_terminates:
  "(\<exists>cmd buf. parsecmd s = Got (cmd, buf)) \<or> (\<exists>msg. parsecmd s = Err msg)"
proof -
  have "parsecmd s \<noteq> Out"
    using parse_not_Out(1) [of 0 s "4 * length s + 4"] by (auto simp: parsecmd_def pbind_Out split: prod.splits)
  then show ?thesis by (cases "parsecmd s") auto
qed

section \<open>The strings of a parsed command\<close>

fun words :: "cmd \<Rightarrow> (nat \<times> nat) list" where
  "words (Exec args) = args"
| "words (Redir c q eq mode fd) = words c @ [(q, eq)]"
| "words (Pipe l r) = words l @ words r"
| "words (List l r) = words l @ words r"
| "words (Back c) = words c"

definition cut :: "(nat \<times> nat) list \<Rightarrow> u8 list \<Rightarrow> u8 list" where
  "cut ws buf = fold (\<lambda>(q, eq) buf. buf[eq := 0]) ws buf"

lemma cut_simps [simp]:
  "cut [] buf = buf" "cut (w # ws) buf = cut ws (buf[snd w := 0])" "cut (ws @ vs) buf = cut vs (cut ws buf)"
  by (simp_all add: cut_def split: prod.splits)

lemma nulterminate_cut: "nulterminate c buf = cut (words c) buf"
  by (induction c arbitrary: buf) (simp_all add: cut_def)

lemma cut_length [simp]: "length (cut ws buf) = length buf"
  by (induction ws arbitrary: buf) simp_all

lemma cut_nth:
  "k < length buf \<Longrightarrow> cut ws buf ! k = (if k \<in> snd ` set ws then 0 else buf ! k)"
  by (induction ws arbitrary: buf) (auto simp: nth_list_update)

lemma cmd_wf_words: "cmd_wf s c \<Longrightarrow> list_all (word s) (words c)"
  by (induction c) auto

lemma cut_word:
  assumes w: "list_all (word s) ws" "(q, e) \<in> set ws" and nul: "0 \<notin> set s"
  shows "takeWhile (\<lambda>c. c \<noteq> 0) (drop q (cut ws (s @ [0]))) = take (e - q) (drop q s)"
proof -
  let ?b = "cut ws (s @ [0])"
  have qe: "q < e" "e \<le> length s" "\<And>k. q \<le> k \<Longrightarrow> k < e \<Longrightarrow> ch s k \<notin> set white \<union> set symbols"
    using w by (auto simp: list_all_iff word_def)
  have end_e: "?b ! e = 0" using w(2) qe(2) by (force simp: cut_nth)
  have inside: "?b ! k = s ! k" if k: "q \<le> k" "k < e" for k
  proof -
    have "k \<noteq> e'" if "(q', e') \<in> set ws" for q' e'
    proof -
      have "e' = length s \<or> ch s e' \<in> set white \<union> set symbols" using w(1) that by (auto simp: list_all_iff word_def)
      then show ?thesis using qe(3) [OF k] qe(2) k by auto
    qed
    then show ?thesis using k qe(2) by (force simp: cut_nth nth_append)
  qed
  have "drop e ?b = 0 # drop (Suc e) ?b" using Cons_nth_drop_Suc [of e ?b] qe(2) end_e by simp
  then have d: "drop q ?b = take (e - q) (drop q ?b) @ 0 # drop (Suc e) ?b"
    using append_take_drop_id [of "e - q" "drop q ?b"] qe(1) by simp
  have m: "take (e - q) (drop q ?b) = take (e - q) (drop q s)"
    by (rule nth_equalityI) (use qe(1,2) inside in auto)
  have "list_all (\<lambda>c. c \<noteq> 0) (take (e - q) (drop q s))"
    using nul by (auto simp: list_all_iff dest!: in_set_takeD in_set_dropD)
  then show ?thesis by (subst d, unfold m) (simp add: list_all_iff takeWhile_append2)
qed

lemma parsecmd_Got:
  assumes "parsecmd s = Got (c, buf)"
  shows "cmd_wf s c" and "buf = cut (words c) (s @ [0])"
proof -
  obtain i where l: "parseline (4 * length s + 4) s 0 = Got (c, i)" and b: "buf = nulterminate c (s @ [0])"
    using assms by (auto simp: parsecmd_def pbind_Got peek_def Let_def split: if_splits)
  show "cmd_wf s c" using parse_ok(1) [of 0 s "4 * length s + 4"] l by (simp add: parsed_Got)
  show "buf = cut (words c) (s @ [0])" unfolding b by (rule nulterminate_cut)
qed

text \<open>C32. The strings of a parsed command are the words of the line: after \<^verbatim>\<open>nulterminate\<close> the C
  string at each argument and file name pointer is exactly the word between its two pointers in the
  line, although the NULs are written into the line itself; it is not empty and has no white space
  and no operator in it.
\<close>

theorem parsecmd_strings:
  assumes "parsecmd s = Got (c, buf)" and "0 \<notin> set s" and "(q, e) \<in> set (words c)"
  shows "takeWhile (\<lambda>c. c \<noteq> 0) (drop q buf) = take (e - q) (drop q s) \<and> word s (q, e)"
  using cut_word [OF cmd_wf_words [OF parsecmd_Got(1) [OF assms(1)]] assms(3,2)]
    cmd_wf_words [OF parsecmd_Got(1) [OF assms(1)]] assms(3) parsecmd_Got(2) [OF assms(1)]
  by (simp add: list_all_iff)

lemma demo_line: "parsecmd [108, 115, 32, 62, 102] = Got (Redir (Exec [(0, 2)]) 4 5 1537 1, [108, 115, 0, 62, 102, 0])"
  by code_simp

theorem parsecmd_strings_witness:
  "takeWhile (\<lambda>c. c \<noteq> 0) (drop 0 [108, 115, 0, 62, 102, 0]) = take 2 [108, 115, 32, 62, 102 :: u8] \<and>
   word [108, 115, 32, 62, 102] (0, 2)"
  using parsecmd_strings [OF demo_line, of 0 2] by simp

text \<open>C33. \<^verbatim>\<open>parseexec\<close> never stores past its arrays: in every command the parser returns, each
  \<^verbatim>\<open>execcmd\<close> has fewer than \<^verbatim>\<open>MAXARGS\<close> arguments, so that its last entry stays free
  for the null pointer, every pointer is inside the line, and redirections are of descriptor 0 or 1.
\<close>

theorem parsecmd_within_bounds:
  assumes "parsecmd s = Got (c, buf)"
  shows "cmd_wf s c"
  by (rule parsecmd_Got(1) [OF assms])

theorem parsecmd_within_bounds_witness:
  "cmd_wf [108, 115, 32, 62, 102] (Redir (Exec [(0, 2)]) 4 5 1537 1)"
  by (rule parsecmd_within_bounds [OF demo_line])

end
