(* ===== verification/Shrun.thy ===== *)
theory Shrun
  imports Sh
begin

text \<open>
  How the shell runs a command, \<^verbatim>\<open>runcmd\<close> and the handling of a line in \<^verbatim>\<open>main\<close> of
  \<^verbatim>\<open>user/sh.c\<close>. A process is the tree of the system calls it makes, with a branch for each
  answer the code tests.
\<close>

section \<open>Processes as trees of system calls\<close>

datatype prog =
    PExit nat
  | PExec "u8 list" "u8 list list" prog
  | PPrint "u8 list" prog
  | PClose nat prog
  | POpen "u8 list" nat prog prog
  | PDup nat prog
  | PPipe "nat \<Rightarrow> nat \<Rightarrow> prog" prog
  | PFork prog prog prog
  | PWait prog

text \<open>\<^verbatim>\<open>panic\<close> and \<^verbatim>\<open>fork1\<close> of the shell.\<close>

definition panic_u :: "u8 list \<Rightarrow> prog" where
  "panic_u s = PPrint (s @ [10]) (PExit 1)"

definition fork1 :: "prog \<Rightarrow> prog \<Rightarrow> prog" where
  "fork1 child parent = PFork child parent (panic_u (ascii ''fork''))"

definition str_at :: "u8 list \<Rightarrow> nat \<Rightarrow> u8 list" where
  "str_at buf q = takeWhile (\<lambda>c. c \<noteq> 0) (drop q buf)"

fun runcmd :: "u8 list \<Rightarrow> cmd \<Rightarrow> prog" where
  "runcmd buf (Exec args) =
     (if args = [] then PExit 1
      else PExec (str_at buf (fst (hd args))) (map (\<lambda>(q, eq). str_at buf q) args)
        (PPrint (ascii ''exec '' @ str_at buf (fst (hd args)) @ ascii '' failed'' @ [10]) (PExit 0)))"
| "runcmd buf (Redir c file efile mode fd) =
     PClose fd (POpen (str_at buf file) mode (runcmd buf c)
       (PPrint (ascii ''open '' @ str_at buf file @ ascii '' failed'' @ [10]) (PExit 1)))"
| "runcmd buf (List left right) = fork1 (runcmd buf left) (PWait (runcmd buf right))"
| "runcmd buf (Pipe left right) =
     PPipe (\<lambda>p0 p1.
       fork1 (PClose 1 (PDup p1 (PClose p0 (PClose p1 (runcmd buf left)))))
         (fork1 (PClose 0 (PDup p0 (PClose p0 (PClose p1 (runcmd buf right)))))
           (PClose p0 (PClose p1 (PWait (PWait (PExit 0)))))))
       (panic_u (ascii ''pipe''))"
| "runcmd buf (Back c) = fork1 (runcmd buf c) (PExit 0)"

text \<open>What \<^verbatim>\<open>main\<close> does with a line: it changes directory itself, or runs a command in a child.\<close>

datatype action = Chdir "u8 list" | Run "u8 list"

definition sh_line :: "u8 list \<Rightarrow> action" where
  "sh_line buf =
     (if ch buf 0 = of_char CHR ''c'' \<and> ch buf 1 = of_char CHR ''d'' \<and> ch buf 2 = of_char CHR '' ''
      then Chdir (drop 3 (butlast buf))
      else Run buf)"

definition sh_child :: "u8 list \<Rightarrow> prog pres" where
  "sh_child buf = pbind (parsecmd buf) (\<lambda>(cmd, buf). Got (runcmd buf cmd))"

section \<open>Which programs start with which descriptors\<close>

text \<open>
  A descriptor table holds handles; a new descriptor takes the lowest free entry. Pipes are named by
  the position of their call in the tree. When every call succeeds that can, \<open>launches\<close> is the list of
  argument vectors that reach \<^verbatim>\<open>exec\<close> in the process and its descendants, each with its
  table at that moment.
\<close>

datatype handle = Inherited nat | Opened "u8 list" nat | ReadEnd "bool list" | WriteEnd "bool list"

fun fd_new :: "handle option list \<Rightarrow> handle \<Rightarrow> (nat \<times> handle option list) option" where
  "fd_new [] h = None"
| "fd_new (None # t) h = Some (0, Some h # t)"
| "fd_new (Some x # t) h = map_option (\<lambda>(i, t). (Suc i, Some x # t)) (fd_new t h)"

primrec launches :: "prog \<Rightarrow> bool list \<Rightarrow> handle option list \<Rightarrow> (u8 list list \<times> handle option list) list" where
  "launches (PExit n) w t = []"
| "launches (PExec f args k) w t = [(args, t)]"
| "launches (PPrint s k) w t = launches k w t"
| "launches (PClose fd k) w t = launches k w (t[fd := None])"
| "launches (POpen f mode k e) w t =
     (case fd_new t (Opened f mode) of Some (fd, t) \<Rightarrow> launches k w t | None \<Rightarrow> launches e w t)"
| "launches (PDup fd k) w t =
     (case t ! fd of
        Some h \<Rightarrow> (case fd_new t h of Some (fd, t) \<Rightarrow> launches k w t | None \<Rightarrow> launches k w t)
      | None \<Rightarrow> launches k w t)"
| "launches (PPipe k e) w t =
     (case fd_new t (ReadEnd w) of
        None \<Rightarrow> launches e w t
      | Some (p0, t1) \<Rightarrow>
          (case fd_new t1 (WriteEnd w) of None \<Rightarrow> launches e w t | Some (p1, t2) \<Rightarrow> launches (k p0 p1) w t2))"
| "launches (PFork c p e) w t = launches c (w @ [False]) t @ launches p (w @ [True]) t"
| "launches (PWait k) w t = launches k w t"

text \<open>What a command means: its programs, with the input and the output of each.\<close>

fun plumb :: "u8 list \<Rightarrow> cmd \<Rightarrow> bool list \<Rightarrow> handle \<Rightarrow> handle \<Rightarrow> (u8 list list \<times> handle \<times> handle) list" where
  "plumb buf (Exec args) w i out = (if args = [] then [] else [(map (\<lambda>(q, eq). str_at buf q) args, i, out)])"
| "plumb buf (Redir c file efile mode fd) w i out =
     (if fd = 0 then plumb buf c w (Opened (str_at buf file) mode) out
      else plumb buf c w i (Opened (str_at buf file) mode))"
| "plumb buf (List l r) w i out = plumb buf l (w @ [False]) i out @ plumb buf r (w @ [True]) i out"
| "plumb buf (Pipe l r) w i out =
     plumb buf l (w @ [False]) i (WriteEnd w) @ plumb buf r (w @ [True, False]) (ReadEnd w) out"
| "plumb buf (Back c) w i out = plumb buf c (w @ [False]) i out"

definition std :: "handle \<Rightarrow> handle \<Rightarrow> handle \<Rightarrow> handle option list" where
  "std i out err = [Some i, Some out, Some err] @ replicate 13 None"

lemma std_unfold: "std i out err = Some i # Some out # Some err # None # None # replicate 11 None"
  by (simp add: std_def numeral_eq_Suc)

lemma launches_plumb:
  "cmd_wf s c \<Longrightarrow>
   launches (runcmd buf c) w (std i out err) = map (\<lambda>(args, i, out). (args, std i out err)) (plumb buf c w i out)"
proof (induction c arbitrary: w i out)
  case (Redir c q e mode fd)
  then have "fd = 0 \<or> fd = 1" by auto
  then show ?case using Redir by (auto simp: std_unfold)
next
  case (Pipe l r)
  then show ?case by (simp add: fork1_def std_unfold)
qed (auto simp: fork1_def)

text \<open>C30. The shell plumbs what it parsed: for every line it accepts, run with standard descriptors and
  none besides, each program of the command starts with its input and output where the operators put
  them -- the two ends of its pipe, the file of its innermost redirection, or what the shell itself has --
  and with every other descriptor but standard error closed, so that no pipe end leaks into a program.
\<close>

theorem runcmd_plumbs:
  assumes "parsecmd s = Got (c, buf)"
  shows "launches (runcmd buf c) [] (std i out err) =
         map (\<lambda>(args, i, out). (args, std i out err)) (plumb buf c [] i out)"
  by (rule launches_plumb [OF parsecmd_Got(1) [OF assms]])

lemma demo_pipe:
  "parsecmd [108, 115, 124, 119, 99] = Got (Pipe (Exec [(0, 2)]) (Exec [(3, 5)]), [108, 115, 0, 119, 99, 0])"
  by code_simp

theorem runcmd_plumbs_witness:
  "launches (runcmd [108, 115, 0, 119, 99, 0] (Pipe (Exec [(0, 2)]) (Exec [(3, 5)]))) []
     (std (Inherited 0) (Inherited 1) (Inherited 2)) =
   [([[108, 115]], std (Inherited 0) (WriteEnd []) (Inherited 2)),
    ([[119, 99]], std (ReadEnd []) (Inherited 1) (Inherited 2))]"
  using runcmd_plumbs [OF demo_pipe, of "Inherited 0" "Inherited 1" "Inherited 2"] by (simp add: str_at_def)

end
