(* ===== verification/Pipe.thy ===== *)
theory Pipe
  imports Dir Usermem Ring
begin

text \<open>
  Pipes, \<^verbatim>\<open>kernel/pipe.c\<close> (\<^verbatim>\<open>pipealloc\<close> is with the file table). A pipe
  lives in a page of its own; the model keeps the structure in a map from the page's
  address. \<^verbatim>\<open>nread\<close> and \<^verbatim>\<open>nwrite\<close> are 32-bit counters that wrap around.
\<close>

definition PIPESIZE :: nat where "PIPESIZE = 512"

record pipe =
  pi_data :: "u8 list"
  pi_nread :: u32
  pi_nwrite :: u32
  pi_readopen :: bool
  pi_writeopen :: bool

datatype ftype = FD_NONE | FD_PIPE | FD_INODE | FD_DEVICE

record file_s =
  f_type :: ftype
  f_ref :: int
  f_readable :: bool
  f_writable :: bool
  f_pipe :: u64
  f_ip :: "nat option"
  f_off :: u32
  f_major :: u16

record kfile = kfs +
  pipes :: "u64 \<Rightarrow> pipe"
  ftable :: "file_s list"

definition pipe0 :: pipe where
  "pipe0 = \<lparr>pi_data = replicate PIPESIZE 0, pi_nread = 0, pi_nwrite = 0, pi_readopen = True,
     pi_writeopen = True\<rparr>"

definition file0 :: file_s where
  "file0 = \<lparr>f_type = FD_NONE, f_ref = 0, f_readable = False, f_writable = False, f_pipe = 0,
     f_ip = None, f_off = 0, f_major = 0\<rparr>"

definition kfile0 :: kfile where
  "kfile0 = kfs.extend kfs0 (kfile.fields (\<lambda>_. pipe0) (replicate 100 file0))"

lemmas kfile0_defs = kfile0_def kfs0_def klog0_def kbio0_def kcons0_def kuart0_def kproc0_def
  kfile.defs kfs.defs klog.defs kbio.defs kcons.defs kuart.defs kproc.defs

definition upd_pipe :: "u64 \<Rightarrow> (pipe \<Rightarrow> pipe) \<Rightarrow> 'z kfile_scheme \<Rightarrow> 'z kfile_scheme" where
  "upd_pipe pi f s = s\<lparr>pipes := (pipes s)(pi := f (pipes s pi))\<rparr>"

definition pipeclose :: "u64 \<Rightarrow> bool \<Rightarrow> 'z kfile_scheme \<Rightarrow> (unit, 'z kfile_scheme) outcome" where
  "pipeclose pi writable s =
     (let s = (if writable
               then wakeup (ChPipeRead pi) (upd_pipe pi (\<lambda>q. q\<lparr>pi_writeopen := False\<rparr>) s)
               else wakeup (ChPipeWrite pi) (upd_pipe pi (\<lambda>q. q\<lparr>pi_readopen := False\<rparr>) s))
      in if \<not> pi_readopen (pipes s pi) \<and> \<not> pi_writeopen (pipes s pi) then kfree pi s else Ok () s)"

text \<open>The two ends of the ring buffer.\<close>

definition pipe_full :: "pipe \<Rightarrow> bool" where
  "pipe_full q \<longleftrightarrow> pi_nwrite q = pi_nread q + of_nat PIPESIZE"

definition pipe_empty :: "pipe \<Rightarrow> bool" where
  "pipe_empty q \<longleftrightarrow> pi_nread q = pi_nwrite q"

definition pipe_put :: "u8 \<Rightarrow> pipe \<Rightarrow> pipe" where
  "pipe_put ch q =
     q\<lparr>pi_data := (pi_data q)[unat (pi_nwrite q mod of_nat PIPESIZE) := ch],
       pi_nwrite := pi_nwrite q + 1\<rparr>"

definition pipe_head :: "pipe \<Rightarrow> u8" where
  "pipe_head q = pi_data q ! unat (pi_nread q mod of_nat PIPESIZE)"

definition pipe_get :: "pipe \<Rightarrow> pipe" where
  "pipe_get q = q\<lparr>pi_nread := pi_nread q + 1\<rparr>"

text \<open>
  \<open>pipewrite_loop pr pi addr i k s\<close> is the loop with \<open>i\<close> bytes written and \<open>k\<close> to go;
  a writer that sleeps goes on at the same \<open>i\<close>.
\<close>

fun pipewrite_loop ::
  "nat \<Rightarrow> u64 \<Rightarrow> u64 \<Rightarrow> nat \<Rightarrow> nat \<Rightarrow> 'z kfile_scheme \<Rightarrow> (int, 'z kfile_scheme) outcome" where
  "pipewrite_loop pr pi addr i 0 s = Ok (int i) (wakeup (ChPipeRead pi) s)"
| "pipewrite_loop pr pi addr i (Suc k) s =
     (if \<not> pi_readopen (pipes s pi) \<or> killed pr s then Ok (-1) s
      else if pipe_full (pipes s pi) then sleep (ChPipeWrite pi) (wakeup (ChPipeRead pi) s)
      else obind (copyin (p_pagetable (procs s ! pr)) (addr + of_nat i) 1 s) (\<lambda>(r, bs) s.
        if r = -1 then Ok (int i) (wakeup (ChPipeRead pi) s)
        else pipewrite_loop pr pi addr (Suc i) k (upd_pipe pi (pipe_put (byte_at bs)) s)))"

definition pipewrite :: "u64 \<Rightarrow> u64 \<Rightarrow> int \<Rightarrow> 'z kfile_scheme \<Rightarrow> (int, 'z kfile_scheme) outcome" where
  "pipewrite pi addr n = with_proc (\<lambda>pr s. pipewrite_loop pr pi addr 0 (nat n) s)"

fun piperead_loop ::
  "nat \<Rightarrow> u64 \<Rightarrow> u64 \<Rightarrow> nat \<Rightarrow> nat \<Rightarrow> 'z kfile_scheme \<Rightarrow> (int, 'z kfile_scheme) outcome" where
  "piperead_loop pr pi addr i 0 s = Ok (int i) (wakeup (ChPipeWrite pi) s)"
| "piperead_loop pr pi addr i (Suc k) s =
     (if pipe_empty (pipes s pi) then Ok (int i) (wakeup (ChPipeWrite pi) s)
      else
        let ch = pipe_head (pipes s pi); s = upd_pipe pi pipe_get s in
        obind (copyout (p_pagetable (procs s ! pr)) (addr + of_nat i) [ch] s) (\<lambda>r s.
        if r = -1 then Ok (int i) (wakeup (ChPipeWrite pi) s)
        else piperead_loop pr pi addr (Suc i) k s))"

definition piperead :: "u64 \<Rightarrow> u64 \<Rightarrow> int \<Rightarrow> 'z kfile_scheme \<Rightarrow> (int, 'z kfile_scheme) outcome" where
  "piperead pi addr n = with_proc (\<lambda>pr s.
     if pipe_empty (pipes s pi) \<and> pi_writeopen (pipes s pi)
     then (if killed pr s then Ok (-1) s else sleep (ChPipeRead pi) s)
     else piperead_loop pr pi addr 0 (nat n) s)"

section \<open>A pipe is a bounded queue\<close>

abbreviation pipe_bytes :: "pipe \<Rightarrow> u8 list" where
  "pipe_bytes q \<equiv> fifo (pi_data q) (pi_nread q) (pi_nwrite q)"

definition pipe_ok :: "pipe \<Rightarrow> bool" where
  "pipe_ok q \<longleftrightarrow>
     length (pi_data q) = PIPESIZE \<and> fifo_ok (pi_data q) (pi_nread q) (pi_nwrite q)"

interpretation pring: ring_buffer pi_data pi_nread pi_nwrite pipe_put pipe_get PIPESIZE
  by unfold_locales
    (simp_all add: pipe_put_def pipe_get_def PIPESIZE_def unat_mod_distrib)

lemma pipe_put_ok:
  assumes "pipe_ok q" and "\<not> pipe_full q"
  shows "pipe_ok (pipe_put c q)" and "pipe_bytes (pipe_put c q) = pipe_bytes q @ [c]"
proof -
  have "length (pi_data q) = PIPESIZE" "length (pipe_bytes q) < PIPESIZE"
    using assms pring.not_full [of q] by (auto simp: pipe_ok_def pipe_full_def)
  note p = pring.put_refines [OF this, of c]
  show "pipe_bytes (pipe_put c q) = pipe_bytes q @ [c]" by (rule p(1))
  have "length (pipe_bytes (pipe_put c q)) = Suc (length (pipe_bytes q))" by (subst p(1)) simp
  then show "pipe_ok (pipe_put c q)"
    using p(2) \<open>length (pipe_bytes q) < PIPESIZE\<close> by (simp add: pipe_ok_def fifo_ok_def)
qed

lemma pipe_get_ok:
  assumes "pipe_ok q" and "\<not> pipe_empty q"
  shows "pipe_ok (pipe_get q)" and "pipe_bytes q = pipe_head q # pipe_bytes (pipe_get q)"
proof -
  have "length (pi_data q) = PIPESIZE" "pi_nread q \<noteq> pi_nwrite q"
    using assms by (auto simp: pipe_ok_def pipe_empty_def)
  note p = pring.get_refines [OF this]
  show "pipe_bytes q = pipe_head q # pipe_bytes (pipe_get q)"
    using p(1) by (simp add: pipe_head_def PIPESIZE_def unat_mod_distrib)
  have "length (pipe_bytes q) = Suc (length (pipe_bytes (pipe_get q)))" by (subst p(1)) simp
  then show "pipe_ok (pipe_get q)"
    using p(2) assms(1) by (simp add: pipe_ok_def fifo_ok_def)
qed

lemma pipe_full_iff: "pipe_ok q \<Longrightarrow> pipe_full q \<longleftrightarrow> length (pipe_bytes q) = PIPESIZE"
  using pring.full_iff [of q] by (simp add: pipe_ok_def pipe_full_def)

lemma pipes_wakeup [simp]: "pipes (wakeup c s) = pipes s"
  by (simp add: wakeup_eq)

lemma sleep_Some: "cur s = Some p \<Longrightarrow>
  sleep c s = Sleeps c (upd_proc p (\<lambda>q. q\<lparr>p_chan := Some c, p_state := SLEEPING\<rparr>) s)"
  by (simp add: sleep_def with_proc_def myproc_def)

definition user_bytes :: "nat \<Rightarrow> u64 \<Rightarrow> u8 list \<Rightarrow> 'z kproc_scheme \<Rightarrow> bool" where
  "user_bytes pr addr bs s \<longleftrightarrow>
     (\<forall>j < length bs. copyin (p_pagetable (procs s ! pr)) (addr + of_nat j) 1 s = Ok (0, [bs ! j]) s)"

lemma user_bytes_Cons:
  assumes "copyin (p_pagetable (procs s ! pr)) addr 1 s = Ok (0, [b]) s"
    and "user_bytes pr (addr + 1) bs s"
  shows "user_bytes pr addr (b # bs) s"
  using assms by (auto simp: user_bytes_def nth_Cons algebra_simps split: nat.splits)

lemma user_bytes_upd_pipe: "user_bytes pr addr bs (upd_pipe pi f s) \<longleftrightarrow> user_bytes pr addr bs s"
proof -
  have "(copyin pt a 1 (upd_pipe pi f s) = Ok r (upd_pipe pi f s)) = (copyin pt a 1 s = Ok r s)" for pt a r
    using copyin_cong [of s "upd_pipe pi f s" pt a 1 r] copyin_cong [of "upd_pipe pi f s" s pt a 1 r]
    by (auto simp: upd_pipe_def)
  then show ?thesis by (simp add: user_bytes_def upd_pipe_def)
qed

text \<open>What a writer adds to the pipe, whether it finishes, gives up or goes to sleep.\<close>

lemma pipewrite_loop_result:
  assumes "pipe_ok (pipes s pi)" and "cur s = Some pr"
  shows "\<exists>bs t. user_bytes pr (addr + of_nat i) bs s \<and> length bs \<le> k \<and>
    pipe_ok (pipes t pi) \<and> pipe_bytes (pipes t pi) = pipe_bytes (pipes s pi) @ bs \<and>
    (pipewrite_loop pr pi addr i k s = Ok (int (i + length bs)) t \<or>
     (\<not> pi_readopen (pipes s pi) \<or> killed pr s) \<and> pipewrite_loop pr pi addr i k s = Ok (-1) t \<or>
     length (pipe_bytes (pipes t pi)) = PIPESIZE \<and> length bs < k \<and>
       pipewrite_loop pr pi addr i k s = Sleeps (ChPipeWrite pi) t)"
  using assms
proof (induction k arbitrary: i s)
  case 0
  then show ?case
    by (intro exI [of _ "[]"] exI [of _ "wakeup (ChPipeRead pi) s"]) (simp add: user_bytes_def)
next
  case (Suc k)
  let ?closed = "\<not> pi_readopen (pipes s pi) \<or> killed pr s"
  show ?case
  proof (cases "?closed \<or> pipe_full (pipes s pi)")
    case True
    then show ?thesis
    proof (cases ?closed)
      case True
      then show ?thesis using Suc.prems
        by (intro exI [of _ "[]"] exI [of _ s]) (auto simp: user_bytes_def)
    next
      case False
      then have full: "pipe_full (pipes s pi)" using True by simp
      have "cur (wakeup (ChPipeRead pi) s) = Some pr" using Suc.prems by (simp add: wakeup_eq)
      then show ?thesis using Suc.prems False full pipe_full_iff [of "pipes s pi"]
        by (intro exI [of _ "[]"] exI [of _ "upd_proc pr (\<lambda>q. q\<lparr>p_chan := Some (ChPipeWrite pi),
            p_state := SLEEPING\<rparr>) (wakeup (ChPipeRead pi) s)"])
          (auto simp: user_bytes_def sleep_Some, simp_all add: upd_proc_def)
    qed
  next
    case False
    let ?a = "addr + of_nat i"
    obtain r bs where c: "copyin (p_pagetable (procs s ! pr)) ?a 1 s = Ok (r, bs) s"
      using copyin_returns by blast
    show ?thesis
    proof (cases "r = -1")
      case True
      then have "pipewrite_loop pr pi addr i (Suc k) s = Ok (int i) (wakeup (ChPipeRead pi) s)"
        using False c by simp
      then show ?thesis using Suc.prems
        by (intro exI [of _ "[]"] exI [of _ "wakeup (ChPipeRead pi) s"]) (simp add: user_bytes_def)
    next
      case rok: False
      then obtain b where b: "r = 0" "bs = [b]"
        using copyin_one [OF c] by (auto simp: length_Suc_conv)
      let ?s = "upd_pipe pi (pipe_put b) s"
      have nf: "\<not> pipe_full (pipes s pi)" using False by simp
      have ps: "pipes ?s pi = pipe_put b (pipes s pi)" by (simp add: upd_pipe_def)
      note ok = pipe_put_ok [OF Suc.prems(1) nf, of b]
      have step: "pipewrite_loop pr pi addr i (Suc k) s = pipewrite_loop pr pi addr (Suc i) k ?s"
        using False c b by simp
      have "pipe_ok (pipes ?s pi)" "cur ?s = Some pr"
        using ok Suc.prems ps by (simp_all add: upd_pipe_def)
      from Suc.IH [OF this, of "Suc i"]
      obtain bs' t where t: "user_bytes pr (addr + of_nat (Suc i)) bs' ?s" "length bs' \<le> k"
          "pipe_ok (pipes t pi)" "pipe_bytes (pipes t pi) = pipe_bytes (pipes ?s pi) @ bs'"
        and res: "pipewrite_loop pr pi addr (Suc i) k ?s = Ok (int (Suc i + length bs')) t \<or>
          (\<not> pi_readopen (pipes ?s pi) \<or> killed pr ?s) \<and>
            pipewrite_loop pr pi addr (Suc i) k ?s = Ok (-1) t \<or>
          length (pipe_bytes (pipes t pi)) = PIPESIZE \<and> length bs' < k \<and>
            pipewrite_loop pr pi addr (Suc i) k ?s = Sleeps (ChPipeWrite pi) t"
        by blast
      have "user_bytes pr ?a (b # bs') s"
        using c b t(1) by (intro user_bytes_Cons) (simp_all add: user_bytes_upd_pipe algebra_simps)
      moreover have "pi_readopen (pipes ?s pi) = pi_readopen (pipes s pi)" "killed pr ?s = killed pr s"
        by (simp_all add: ps pipe_put_def killed_def upd_pipe_def)
      ultimately show ?thesis
        using t(2-4) res ok(2) ps unfolding step
        by (intro exI [of _ "b # bs'"] exI [of _ t]) auto
    qed
  qed
qed

lemma piperead_loop_result:
  assumes "pipe_ok (pipes s pi)"
  shows "\<exists>outs n t. piperead_loop pr pi addr i k s = Ok (int (i + n)) t \<and>
    pipe_ok (pipes t pi) \<and> pipe_bytes (pipes s pi) = outs @ pipe_bytes (pipes t pi) \<and>
    length outs \<le> k \<and>
    delivered s (p_pagetable (procs s ! pr)) (addr + of_nat i) outs n (memory t) \<and>
    (n = length outs \<and> n = min k (length (pipe_bytes (pipes s pi))) \<or> Suc n = length outs)"
  using assms
proof (induction k arbitrary: i s)
  case 0
  then show ?case
    by (intro exI [of _ "[]"] exI [of _ 0] exI [of _ "wakeup (ChPipeWrite pi) s"])
      (simp add: delivered_none wakeup_eq)
next
  case (Suc k)
  show ?case
  proof (cases "pipe_empty (pipes s pi)")
    case True
    then show ?thesis using Suc.prems
      by (intro exI [of _ "[]"] exI [of _ 0] exI [of _ "wakeup (ChPipeWrite pi) s"])
        (simp add: pipe_empty_def delivered_none wakeup_eq)
  next
    case False
    let ?s = "upd_pipe pi pipe_get s" and ?pt = "p_pagetable (procs s ! pr)" and ?a = "addr + of_nat i"
    let ?c = "pipe_head (pipes s pi)"
    note ok = pipe_get_ok [OF Suc.prems False]
    have same: "procs ?s = procs s" "memory ?s = memory s" "freelist ?s = freelist s" "kend ?s = kend s"
      by (simp_all add: upd_pipe_def)
    obtain r m where c: "copyout ?pt ?a [?c] ?s = Ok r (?s\<lparr>memory := m\<rparr>)" "r = 0 \<or> r = -1"
      using copyout_form by blast
    let ?u = "?s\<lparr>memory := m\<rparr>"
    have ps: "pipes ?u pi = pipe_get (pipes s pi)" "procs ?u = procs s" by (simp_all add: upd_pipe_def)
    show ?thesis
    proof (cases "r = -1")
      case True
      then have "piperead_loop pr pi addr i (Suc k) s = Ok (int i) (wakeup (ChPipeWrite pi) ?u)"
        using False c same(1) by (simp add: Let_def)
      moreover have "delivered s ?pt ?a [?c] 0 m"
        using delivered_fault [of ?pt ?a ?c ?s m] c(1) True delivered_cong [OF same(2-4)] by blast
      ultimately show ?thesis using ok ps
        by (intro exI [of _ "[?c]"] exI [of _ 0] exI [of _ "wakeup (ChPipeWrite pi) ?u"])
          (simp add: wakeup_eq)
    next
      case rok: False
      have step: "piperead_loop pr pi addr i (Suc k) s = piperead_loop pr pi addr (Suc i) k ?u"
        using False c rok same(1) by (simp add: Let_def)
      have "pipe_ok (pipes ?u pi)" using ok(1) ps by simp
      from Suc.IH [OF this, of "Suc i"]
      obtain outs n t where t:
        "piperead_loop pr pi addr (Suc i) k ?u = Ok (int (Suc i + n)) t"
        "pipe_ok (pipes t pi)" "pipe_bytes (pipe_get (pipes s pi)) = outs @ pipe_bytes (pipes t pi)"
        "length outs \<le> k" "delivered ?u ?pt (addr + of_nat (Suc i)) outs n (memory t)"
        "n = length outs \<and> n = min k (length (pipe_bytes (pipe_get (pipes s pi)))) \<or> Suc n = length outs"
        unfolding ps by blast
      have len: "length (pipe_bytes (pipes s pi)) = Suc (length (pipe_bytes (pipe_get (pipes s pi))))"
        by (subst ok(2)) simp
      have "length outs \<le> 512"
        using ok(1) arg_cong [OF t(3), of length] by (simp add: pipe_ok_def fifo_ok_def PIPESIZE_def)
      then have "delivered ?s ?pt ?a (?c # outs) (Suc n) (memory t)"
        using t(5,6) c rok by (intro delivered_Cons [where m' = m]) (auto simp: algebra_simps)
      then have "delivered s ?pt ?a (?c # outs) (Suc n) (memory t)"
        using delivered_cong [OF same(2-4)] by blast
      moreover have "pipe_bytes (pipes s pi) = (?c # outs) @ pipe_bytes (pipes t pi)"
        by (subst ok(2)) (simp add: t(3))
      ultimately show ?thesis
        using t(1,2,4,6) len unfolding step
        by (intro exI [of _ "?c # outs"] exI [of _ "Suc n"] exI [of _ t]) auto
    qed
  qed
qed

text \<open>C21. A write to a pipe appends to its queue a prefix of the caller's buffer, in order, and
  never overruns it. It reports the number of bytes it appended, or -1 only when the read end
  is closed or the caller was killed; it goes to sleep only when the pipe is full and bytes
  are left.
\<close>

theorem pipewrite_appends:
  assumes "pipe_ok (pipes s pi)" and "cur s = Some pr"
  shows "\<exists>bs t. user_bytes pr addr bs s \<and> length bs \<le> nat n \<and>
    pipe_ok (pipes t pi) \<and> pipe_bytes (pipes t pi) = pipe_bytes (pipes s pi) @ bs \<and>
    (pipewrite pi addr n s = Ok (int (length bs)) t \<or>
     (\<not> pi_readopen (pipes s pi) \<or> killed pr s) \<and> pipewrite pi addr n s = Ok (-1) t \<or>
     length (pipe_bytes (pipes t pi)) = PIPESIZE \<and> length bs < nat n \<and>
       pipewrite pi addr n s = Sleeps (ChPipeWrite pi) t)"
  using pipewrite_loop_result [OF assms, of addr 0 "nat n"] assms(2)
  by (simp add: pipewrite_def with_proc_def myproc_def)

lemma pipe0_ok: "pipe_ok pipe0"
  by (simp add: pipe_ok_def pipe0_def fifo_ok_def)

theorem pipewrite_appends_witness:
  "let s = kfile0\<lparr>cur := Some 3\<rparr> in
     pipe_ok (pipes s 0x80021000) \<and> cur s = Some 3 \<and>
     (\<exists>bs (t :: kfile). user_bytes 3 0x1000 bs s \<and> length bs \<le> nat 4 \<and>
        pipe_ok (pipes t 0x80021000) \<and>
        pipe_bytes (pipes t 0x80021000) = pipe_bytes (pipes s 0x80021000) @ bs)"
proof -
  have "pipe_ok (pipes (kfile0\<lparr>cur := Some 3\<rparr>) 0x80021000)" "cur (kfile0\<lparr>cur := Some 3\<rparr>) = Some 3"
    using pipe0_ok by (simp_all add: kfile0_defs)
  then show ?thesis using pipewrite_appends [of "kfile0\<lparr>cur := Some 3\<rparr>" "0x80021000" 3 "0x1000" 4]
    unfolding Let_def by blast
qed

text \<open>C22. A read from a pipe takes bytes off the front of its queue, in order, and stores them one
  after the other from the user's address on, changing no other byte of user memory. When it
  returns a count, it is the smaller of what was asked for and what was there, unless a copy to
  user memory failed: then the count is that of the bytes before the first address the user may
  not write, and one byte more has left the pipe. It sleeps exactly when the pipe is empty, still
  has a writer and the caller was not killed.
\<close>

theorem piperead_takes_front:
  assumes "pipe_ok (pipes s pi)" and "cur s = Some pr"
  shows "if pipe_bytes (pipes s pi) = [] \<and> pi_writeopen (pipes s pi)
    then piperead pi addr n s =
      (if killed pr s then Ok (-1) s
       else Sleeps (ChPipeRead pi)
         (upd_proc pr (\<lambda>q. q\<lparr>p_chan := Some (ChPipeRead pi), p_state := SLEEPING\<rparr>) s))
    else \<exists>outs k t. piperead pi addr n s = Ok (int k) t \<and> pipe_ok (pipes t pi) \<and>
      pipe_bytes (pipes s pi) = outs @ pipe_bytes (pipes t pi) \<and> length outs \<le> nat n \<and>
      delivered s (p_pagetable (procs s ! pr)) addr outs k (memory t) \<and>
      (k = length outs \<and> k = min (nat n) (length (pipe_bytes (pipes s pi))) \<or> Suc k = length outs)"
proof -
  have e: "pipe_empty (pipes s pi) \<longleftrightarrow> pipe_bytes (pipes s pi) = []"
    by (simp add: pipe_empty_def fifo_empty_iff)
  show ?thesis
    using piperead_loop_result [OF assms(1), of pr addr 0 "nat n"] assms(2) e
    by (simp add: piperead_def with_proc_def myproc_def sleep_Some)
qed

text \<open>Process 3 with a writable page at address 0 and two bytes in the pipe.\<close>

definition demo_reader :: "kmem \<Rightarrow> kfile" where
  "demo_reader k = kfile0\<lparr>cur := Some 3, pipes := (\<lambda>_. pipe_put 65 (pipe_put 66 pipe0)),
     procs := replicate NPROC (proc0\<lparr>p_pagetable := demo_root\<rparr>),
     memory := memory k, freelist := freelist k, kend := kend k\<rparr>"

lemma demo_reader_pipe:
  "pipe_ok (pipes (demo_reader k) pi)" "pipe_bytes (pipes (demo_reader k) pi) = [66, 65]"
proof -
  have nf: "\<not> pipe_full pipe0" "\<not> pipe_full (pipe_put 66 pipe0)"
    by (simp_all add: pipe_full_def pipe0_def pipe_put_def PIPESIZE_def)
  note ok = pipe_put_ok [OF pipe0_ok nf(1), of 66]
  note ok2 = pipe_put_ok [OF ok(1) nf(2), of 65]
  show "pipe_ok (pipes (demo_reader k) pi)" using ok2(1) by (simp add: demo_reader_def)
  show "pipe_bytes (pipes (demo_reader k) pi) = [66, 65]"
    using ok2(2) ok(2) by (simp add: demo_reader_def fifo_def pipe0_def)
qed

theorem piperead_takes_front_witness:
  "\<exists>(s :: kfile) t. cur s = Some 3 \<and> pipe_bytes (pipes s 0x80021000) = [66, 65] \<and>
     piperead 0x80021000 16 7 s = Ok 2 t \<and> pipe_bytes (pipes t 0x80021000) = [] \<and>
     umem (memory t) demo_root 16 = Some 66 \<and> umem (memory t) demo_root 17 = Some 65 \<and>
     umem (memory t) demo_root 18 = umem (memory s) demo_root 18"
proof -
  obtain k :: kmem and ps where k: "uspace k demo_root ps"
      "\<forall>v. vpn v = 0 \<longrightarrow> umem (memory k) demo_root v = Some 0 \<and> uwritable (memory k) demo_root v"
    using demo_page by blast
  let ?s = "demo_reader k"
  have s: "cur ?s = Some 3" "p_pagetable (procs ?s ! 3) = demo_root" "memory ?s = memory k"
    by (simp_all add: demo_reader_def NPROC_def)
  have U: "uspace ?s demo_root ps" using k(1) uspace_cong [of ?s k] by (simp add: demo_reader_def)
  note b = demo_reader_pipe [of k "0x80021000"]
  obtain outs n t where t: "piperead 0x80021000 16 7 ?s = Ok (int n) t"
      "[66, 65] = outs @ pipe_bytes (pipes t 0x80021000)"
      "delivered ?s demo_root 16 outs n (memory t)" "n = length outs \<and> n = Suc (Suc 0) \<or> Suc n = length outs"
    using piperead_takes_front [OF b(1) s(1), of 16 7] unfolding b(2) s(2)
    by simp blast
  have w: "uwritable (memory ?s) demo_root (16 + of_nat i)" if "i < 2" for i
    using k(2) that vpn_small [of "16 + i"] by (simp add: s(3))
  have l: "length outs \<le> 2" using arg_cong [OF t(2), of length] by simp
  have "\<not> Suc n = length outs" using t(3) U w [of n] l by (auto simp: delivered_def)
  then have n: "n = 2" "length outs = 2" using t(4) by auto
  then have "[66, 65] = outs" using arg_cong [OF t(2), of "take 2"] by simp
  then have um: "umem (memory t) demo_root v =
      (if unat (v - 16) < 2 then Some ([66, 65] ! unat (v - 16)) else umem (memory ?s) demo_root v)" for v
    using t(3) U n by (simp add: delivered_def stored_def)
  have "pipe_bytes (pipes t 0x80021000) = []" using arg_cong [OF t(2), of "drop 2"] n(2) by simp
  then show ?thesis
    using s(1) b(2) t(1) n(1) by (intro exI [of _ ?s] exI [of _ t]) (simp add: um)
qed

text \<open>C23. Whatever sequence of bytes is put into and taken out of a pipe, what has come out followed
  by what is still inside is what was inside followed by what has gone in: a pipe is a
  first-in first-out queue, also when its 32-bit counters wrap around.
\<close>

theorem pipe_fifo_order:
  assumes "pipe_ok q"
    and "ring_run pi_data pi_nread pi_nwrite pipe_put pipe_get PIPESIZE ops q = (ins, outs, q')"
  shows "outs @ pipe_bytes q' = pipe_bytes q @ ins \<and> pipe_ok q'"
  using pring.fifo_order [of q ops ins outs q'] assms by (simp add: pipe_ok_def)

theorem pipe_fifo_order_witness:
  "let q = pipe0\<lparr>pi_nread := 0xFFFFFFFF, pi_nwrite := 0xFFFFFFFF\<rparr> in
   case ring_run pi_data pi_nread pi_nwrite pipe_put pipe_get PIPESIZE
     [Some 1, Some 2, None, Some 3] q of (ins, outs, q') \<Rightarrow>
     pipe_ok q \<and> outs @ pipe_bytes q' = pipe_bytes q @ ins \<and> pipe_ok q'"
proof -
  let ?q = "pipe0\<lparr>pi_nread := 0xFFFFFFFF, pi_nwrite := 0xFFFFFFFF\<rparr>"
  have "pipe_ok ?q" by (simp add: pipe_ok_def pipe0_def fifo_ok_def)
  then show ?thesis
    using pipe_fifo_order [of ?q "[Some 1, Some 2, None, Some 3]"]
    unfolding Let_def by (auto split: prod.splits)
qed

end
