(* ===== verification/File.thy ===== *)
theory File
  imports Pipe
begin

text \<open>
  The file table, \<^verbatim>\<open>kernel/file.c\<close>, and \<^verbatim>\<open>pipealloc\<close> of
  \<^verbatim>\<open>kernel/pipe.c\<close>. A \<^verbatim>\<open>struct file\<close> pointer is an index into the table.
\<close>

definition NFILE :: nat where "NFILE = 100"

definition upd_file :: "nat \<Rightarrow> (file_s \<Rightarrow> file_s) \<Rightarrow> 'z kfile_scheme \<Rightarrow> 'z kfile_scheme" where
  "upd_file i f s = s\<lparr>ftable := (ftable s)[i := f (ftable s ! i)]\<rparr>"

fun filealloc_scan :: "nat list \<Rightarrow> file_s list \<Rightarrow> nat option" where
  "filealloc_scan [] t = None"
| "filealloc_scan (f # fs) t = (if f_ref (t ! f) = 0 then Some f else filealloc_scan fs t)"

definition filealloc :: "'z kfile_scheme \<Rightarrow> nat option \<times> 'z kfile_scheme" where
  "filealloc s =
     (case filealloc_scan [0..<NFILE] (ftable s) of
        None \<Rightarrow> (None, s)
      | Some f \<Rightarrow> (Some f, upd_file f (\<lambda>x. x\<lparr>f_ref := 1\<rparr>) s))"

definition filedup :: "nat \<Rightarrow> 'z kfile_scheme \<Rightarrow> (nat, 'z kfile_scheme) outcome" where
  "filedup f s =
     (if f_ref (ftable s ! f) < 1 then Panic ''filedup''
      else Ok f (upd_file f (\<lambda>x. x\<lparr>f_ref := f_ref x + 1\<rparr>) s))"

text \<open>
  A null \<^verbatim>\<open>ff.ip\<close> cannot be followed; it does not occur in a file of these types.
\<close>

definition fileclose :: "nat \<Rightarrow> 'z kfile_scheme \<Rightarrow> (unit, 'z kfile_scheme) outcome" where
  "fileclose f s =
     (if f_ref (ftable s ! f) < 1 then Panic ''fileclose''
      else
        let s = upd_file f (\<lambda>x. x\<lparr>f_ref := f_ref x - 1\<rparr>) s in
        if f_ref (ftable s ! f) > 0 then Ok () s
        else
          let ff = ftable s ! f;
              s = upd_file f (\<lambda>x. x\<lparr>f_ref := 0, f_type := FD_NONE\<rparr>) s
          in if f_type ff = FD_PIPE then pipeclose (f_pipe ff) (f_writable ff) s
             else if f_type ff = FD_INODE \<or> f_type ff = FD_DEVICE
             then
               obind (begin_op s) (\<lambda>_ s.
               obind (case f_ip ff of None \<Rightarrow> Panic ''kerneltrap'' | Some ip \<Rightarrow> iput ip s) (\<lambda>_ s.
               end_op s))
             else Ok () s)"

definition stat_bytes :: "stat \<Rightarrow> u8 list" where
  "stat_bytes st =
     (let d = replicate 24 0;
          d = put32 d 0 (st_dev st);
          d = put32 d 4 (st_ino st);
          d = put16 d 8 (st_type st);
          d = put16 d 10 (st_nlink st);
          d = put32 d 16 (ucast (st_size st))
      in put32 d 20 (ucast (drop_bit 32 (st_size st))))"

definition filestat :: "nat \<Rightarrow> u64 \<Rightarrow> 'z kfile_scheme \<Rightarrow> (int, 'z kfile_scheme) outcome" where
  "filestat f addr = with_proc (\<lambda>p s.
     let x = ftable s ! f in
     if f_type x = FD_INODE \<or> f_type x = FD_DEVICE
     then
       obind (ilock (f_ip x) s) (\<lambda>_ s.
       let st = stati (the (f_ip x)) s in
       obind (iunlock (f_ip x) s) (\<lambda>_ s.
       obind (copyout (p_pagetable (procs s ! p)) addr (stat_bytes st) s) (\<lambda>r s.
       if r < 0 then Ok (-1) s else Ok 0 s)))
     else Ok (-1) s)"

definition dev_ok :: "u16 \<Rightarrow> 'z kcons_scheme \<Rightarrow> bool" where
  "dev_ok major s \<longleftrightarrow>
     0 \<le> sint major \<and> sint major < int NDEV \<and> devsw s ! nat (sint major)"

definition fileread :: "nat \<Rightarrow> u64 \<Rightarrow> int \<Rightarrow> 'z kfile_scheme \<Rightarrow> (int, 'z kfile_scheme) outcome" where
  "fileread f addr n s =
     (let x = ftable s ! f in
      if \<not> f_readable x then Ok (-1) s
      else
        case f_type x of
          FD_PIPE \<Rightarrow> piperead (f_pipe x) addr n s
        | FD_DEVICE \<Rightarrow>
            if \<not> dev_ok (f_major x) s then Ok (-1) s
            else obind (consoleread (DUser addr) n s) (\<lambda>(r, bs) s. Ok r s)
        | FD_INODE \<Rightarrow>
            obind (ilock (f_ip x) s) (\<lambda>_ s.
            obind (readi (the (f_ip x)) (DUser addr) (f_off (ftable s ! f)) (of_int n) s) (\<lambda>(r, bs) s.
            let s = (if r > 0 then upd_file f (\<lambda>x. x\<lparr>f_off := f_off x + of_int r\<rparr>) s else s) in
            obind (iunlock (f_ip x) s) (\<lambda>_ s. Ok r s)))
        | FD_NONE \<Rightarrow> Panic ''fileread'')"

definition MAXWRITE :: int where
  "MAXWRITE = (MAXOPBLOCKS - 1 - 1 - 2) div 2 * int BSIZE"

function filewrite_loop ::
  "nat \<Rightarrow> u64 \<Rightarrow> int \<Rightarrow> int \<Rightarrow> 'z kfile_scheme \<Rightarrow> (int, 'z kfile_scheme) outcome" where
  "filewrite_loop f addr n i s =
     (if i < n
      then
        let n1 = min (n - i) MAXWRITE in
        obind (begin_op s) (\<lambda>_ s.
        let x = ftable s ! f in
        obind (ilock (f_ip x) s) (\<lambda>_ s.
        obind (writei (the (f_ip x)) (SUser (addr + of_int i)) (f_off (ftable s ! f))
                 (of_int n1) s) (\<lambda>r s.
        let s = (if r > 0 then upd_file f (\<lambda>x. x\<lparr>f_off := f_off x + of_int r\<rparr>) s else s) in
        obind (iunlock (f_ip x) s) (\<lambda>_ s.
        obind (end_op s) (\<lambda>_ s.
        if r \<noteq> n1 then Ok (if i = n then n else -1) s
        else filewrite_loop f addr n (i + r) s)))))
      else Ok (if i = n then n else -1) s)"
  by pat_completeness auto
termination
  by (relation "measure (\<lambda>(f, addr, n, i, s). nat (n - i))")
    (auto simp: MAXWRITE_def MAXOPBLOCKS_def BSIZE_def)

declare filewrite_loop.simps [simp del]

definition filewrite :: "nat \<Rightarrow> u64 \<Rightarrow> int \<Rightarrow> 'z kfile_scheme \<Rightarrow> (int, 'z kfile_scheme) outcome" where
  "filewrite f addr n s =
     (let x = ftable s ! f in
      if \<not> f_writable x then Ok (-1) s
      else
        case f_type x of
          FD_PIPE \<Rightarrow> pipewrite (f_pipe x) addr n s
        | FD_DEVICE \<Rightarrow>
            if \<not> dev_ok (f_major x) s then Ok (-1) s else consolewrite (SUser addr) n s
        | FD_INODE \<Rightarrow> filewrite_loop f addr n 0 s
        | FD_NONE \<Rightarrow> Panic ''filewrite'')"

definition close_opt :: "nat option \<Rightarrow> 'z kfile_scheme \<Rightarrow> (unit, 'z kfile_scheme) outcome" where
  "close_opt f s = (case f of None \<Rightarrow> Ok () s | Some f \<Rightarrow> fileclose f s)"

definition pipealloc_bad ::
  "nat option \<Rightarrow> nat option \<Rightarrow> 'z kfile_scheme \<Rightarrow> ((nat \<times> nat) option, 'z kfile_scheme) outcome" where
  "pipealloc_bad f0 f1 s =
     obind (close_opt f0 s) (\<lambda>_ s. obind (close_opt f1 s) (\<lambda>_ s. Ok None s))"

text \<open>
  \<^verbatim>\<open>pipealloc\<close> returns the two files, or \<open>None\<close> for \<open>-1\<close>. The page it gets is
  filled with the allocator's pattern 5, so that is the initial content of
  \<^verbatim>\<open>pi->data\<close>.
\<close>

definition pipealloc :: "'z kfile_scheme \<Rightarrow> ((nat \<times> nat) option, 'z kfile_scheme) outcome" where
  "pipealloc s =
     (case filealloc s of
        (None, s) \<Rightarrow> pipealloc_bad None None s
      | (Some f0, s) \<Rightarrow>
          (case filealloc s of
             (None, s) \<Rightarrow> pipealloc_bad (Some f0) None s
           | (Some f1, s) \<Rightarrow>
               obind (kalloc s) (\<lambda>pi s.
               if pi = 0 then pipealloc_bad (Some f0) (Some f1) s
               else
                 let s = upd_pipe pi (\<lambda>_. \<lparr>pi_data = replicate PIPESIZE 5, pi_nread = 0, pi_nwrite = 0,
                           pi_readopen = True, pi_writeopen = True\<rparr>) s;
                     s = upd_file f0 (\<lambda>x. x\<lparr>f_type := FD_PIPE, f_readable := True,
                           f_writable := False, f_pipe := pi\<rparr>) s;
                     s = upd_file f1 (\<lambda>x. x\<lparr>f_type := FD_PIPE, f_readable := False,
                           f_writable := True, f_pipe := pi\<rparr>) s
                 in Ok (Some (f0, f1)) s)))"

end
