(* ===== verification/Proc_Life.thy ===== *)
theory Proc_Life
  imports File
begin

text \<open>
  The life of a process, \<^verbatim>\<open>kernel/proc.c\<close>: the first process, \<^verbatim>\<open>fork\<close>,
  \<^verbatim>\<open>exit\<close> and \<^verbatim>\<open>wait\<close>. The trap frame of a process is the page at
  \<open>p_trapframe\<close>; its registers are at the offsets given in \<^verbatim>\<open>kernel/proc.h\<close>.
\<close>

section \<open>The trap frame\<close>

definition TF_SIZE :: nat where "TF_SIZE = 288"
definition TF_EPC :: u64 where "TF_EPC = 24"
definition TF_SP :: u64 where "TF_SP = 48"
definition TF_A0 :: u64 where "TF_A0 = 112"
definition TF_A1 :: u64 where "TF_A1 = 120"
definition TF_A7 :: u64 where "TF_A7 = 168"

definition tf_get :: "nat \<Rightarrow> u64 \<Rightarrow> 'z kproc_scheme \<Rightarrow> u64" where
  "tf_get p off s = load64 (memory s) (p_trapframe (procs s ! p) + off)"

definition tf_set :: "nat \<Rightarrow> u64 \<Rightarrow> u64 \<Rightarrow> 'z kproc_scheme \<Rightarrow> 'z kproc_scheme" where
  "tf_set p off v s =
     s\<lparr>memory := store64 (memory s) (p_trapframe (procs s ! p) + off) v\<rparr>"

section \<open>The first process\<close>

definition initcode :: "u8 list" where
  "initcode =
    [0x17, 0x05, 0x00, 0x00, 0x13, 0x05, 0x45, 0x02,
     0x97, 0x05, 0x00, 0x00, 0x93, 0x85, 0x35, 0x02,
     0x93, 0x08, 0x70, 0x00, 0x73, 0x00, 0x00, 0x00,
     0x93, 0x08, 0x20, 0x00, 0x73, 0x00, 0x00, 0x00,
     0xef, 0xf0, 0x9f, 0xff, 0x2f, 0x69, 0x6e, 0x69,
     0x74, 0x00, 0x00, 0x24, 0x00, 0x00, 0x00, 0x00,
     0x00, 0x00, 0x00, 0x00]"

definition set_name :: "nat \<Rightarrow> u8 list \<Rightarrow> 'z kproc_scheme \<Rightarrow> 'z kproc_scheme" where
  "set_name p t s = upd_proc p (\<lambda>q. q\<lparr>p_name := blit (p_name q) 0 (safestrcpy_buf t 16)\<rparr>) s"

definition userinit :: "'z kfs_scheme \<Rightarrow> (unit, 'z kfs_scheme) outcome" where
  "userinit s =
     obind (allocproc s) (\<lambda>r s.
     let s = s\<lparr>initproc := r\<rparr> in
     case r of
       None \<Rightarrow> Panic ''kerneltrap''
     | Some p \<Rightarrow>
         obind (uvmfirst (p_pagetable (procs s ! p)) initcode s) (\<lambda>_ s.
         let s = upd_proc p (\<lambda>q. q\<lparr>p_sz := PGSIZE\<rparr>) s;
             s = tf_set p TF_EPC 0 s;
             s = tf_set p TF_SP PGSIZE s;
             s = set_name p (str ''initcode'') s
         in obind (namei (str ''/'') s) (\<lambda>ip s.
            Ok () (upd_proc p (\<lambda>q. q\<lparr>p_cwd := ip, p_state := RUNNABLE\<rparr>) s))))"

section \<open>fork\<close>

fun fork_files :: "nat list \<Rightarrow> nat \<Rightarrow> nat \<Rightarrow> 'z kfile_scheme \<Rightarrow> (unit, 'z kfile_scheme) outcome" where
  "fork_files [] p np s = Ok () s"
| "fork_files (i # is) p np s =
     (case p_ofile (procs s ! p) ! i of
        None \<Rightarrow> fork_files is p np s
      | Some f \<Rightarrow>
          obind (filedup f s) (\<lambda>f s.
          fork_files is p np (upd_proc np (\<lambda>q. q\<lparr>p_ofile := (p_ofile q)[i := Some f]\<rparr>) s)))"

definition fork :: "'z kfile_scheme \<Rightarrow> (int, 'z kfile_scheme) outcome" where
  "fork = with_proc (\<lambda>p s.
     obind (allocproc s) (\<lambda>r s.
     case r of
       None \<Rightarrow> Ok (-1) s
     | Some np \<Rightarrow>
         obind (uvmcopy (p_pagetable (procs s ! p)) (p_pagetable (procs s ! np))
                  (p_sz (procs s ! p)) s) (\<lambda>c s.
         if c < 0 then obind (freeproc np s) (\<lambda>_ s. Ok (-1) s)
         else
           let s = upd_proc np (\<lambda>q. q\<lparr>p_sz := p_sz (procs s ! p)\<rparr>) s;
               s = s\<lparr>memory := write_bytes (memory s) (p_trapframe (procs s ! np))
                      (read_bytes (memory s) (p_trapframe (procs s ! p)) TF_SIZE)\<rparr>;
               s = tf_set np TF_A0 0 s
           in obind (fork_files [0..<NOFILE] p np s) (\<lambda>_ s.
              case p_cwd (procs s ! p) of
                None \<Rightarrow> Panic ''kerneltrap''
              | Some ip \<Rightarrow>
                  let s = upd_proc np (\<lambda>q. q\<lparr>p_cwd := Some ip\<rparr>) (idup ip s);
                      s = set_name np (p_name (procs s ! p)) s;
                      pid = p_pid (procs s ! np);
                      s = upd_proc np (\<lambda>q. q\<lparr>p_parent := Some p\<rparr>) s
                  in Ok pid (upd_proc np (\<lambda>q. q\<lparr>p_state := RUNNABLE\<rparr>) s)))))"

section \<open>exit\<close>

definition wakeup_proc :: "nat option \<Rightarrow> 'z kproc_scheme \<Rightarrow> 'z kproc_scheme" where
  "wakeup_proc p s = (case p of None \<Rightarrow> s | Some p \<Rightarrow> wakeup (ChProc p) s)"

fun reparent_loop :: "nat list \<Rightarrow> nat \<Rightarrow> 'z kproc_scheme \<Rightarrow> 'z kproc_scheme" where
  "reparent_loop [] p s = s"
| "reparent_loop (pp # pps) p s =
     reparent_loop pps p
       (if p_parent (procs s ! pp) = Some p
        then wakeup_proc (initproc s) (upd_proc pp (\<lambda>q. q\<lparr>p_parent := initproc s\<rparr>) s)
        else s)"

definition reparent :: "nat \<Rightarrow> 'z kproc_scheme \<Rightarrow> 'z kproc_scheme" where
  "reparent p s = reparent_loop [0..<NPROC] p s"

fun exit_files :: "nat list \<Rightarrow> nat \<Rightarrow> 'z kfile_scheme \<Rightarrow> (unit, 'z kfile_scheme) outcome" where
  "exit_files [] p s = Ok () s"
| "exit_files (fd # fds) p s =
     (case p_ofile (procs s ! p) ! fd of
        None \<Rightarrow> exit_files fds p s
      | Some f \<Rightarrow>
          obind (fileclose f s) (\<lambda>_ s.
          exit_files fds p (upd_proc p (\<lambda>q. q\<lparr>p_ofile := (p_ofile q)[fd := None]\<rparr>) s)))"

text \<open>
  \<^verbatim>\<open>exit\<close> ends in \<^verbatim>\<open>sched\<close> and does not return: \<open>Exits\<close> carries the state the
  scheduler finds.
\<close>

definition exit :: "int \<Rightarrow> 'z kfile_scheme \<Rightarrow> ('a, 'z kfile_scheme) outcome" where
  "exit status = with_proc (\<lambda>p s.
     if Some p = initproc s then Panic ''init exiting''
     else obind (exit_files [0..<NOFILE] p s) (\<lambda>_ s.
          obind (begin_op s) (\<lambda>_ s.
          obind (case p_cwd (procs s ! p) of None \<Rightarrow> Panic ''kerneltrap'' | Some ip \<Rightarrow> iput ip s)
            (\<lambda>_ s.
          obind (end_op s) (\<lambda>_ s.
          let s = upd_proc p (\<lambda>q. q\<lparr>p_cwd := None\<rparr>) s;
              s = reparent p s;
              s = wakeup_proc (p_parent (procs s ! p)) s
          in Exits (upd_proc p (\<lambda>q. q\<lparr>p_xstate := status, p_state := ZOMBIE\<rparr>) s))))))"

section \<open>wait\<close>

definition int_bytes :: "int \<Rightarrow> u8 list" where
  "int_bytes x = put32 (replicate 4 0) 0 (of_int x)"

text \<open>One scan of the table: the value to return, or whether there are children.\<close>

fun wait_scan ::
  "nat list \<Rightarrow> nat \<Rightarrow> u64 \<Rightarrow> bool \<Rightarrow> 'z kproc_scheme \<Rightarrow> (int + bool, 'z kproc_scheme) outcome" where
  "wait_scan [] p addr havekids s = Ok (Inr havekids) s"
| "wait_scan (pp # pps) p addr havekids s =
     (if p_parent (procs s ! pp) = Some p
      then
        if p_state (procs s ! pp) = ZOMBIE
        then
          let pid = p_pid (procs s ! pp) in
          obind (if addr \<noteq> 0
                 then copyout (p_pagetable (procs s ! p)) addr (int_bytes (p_xstate (procs s ! pp))) s
                 else Ok 0 s) (\<lambda>r s.
          if r < 0 then Ok (Inl (-1)) s
          else obind (freeproc pp s) (\<lambda>_ s. Ok (Inl pid) s))
        else wait_scan pps p addr True s
      else wait_scan pps p addr havekids s)"

definition wait :: "u64 \<Rightarrow> 'z kproc_scheme \<Rightarrow> (int, 'z kproc_scheme) outcome" where
  "wait addr = with_proc (\<lambda>p s.
     obind (wait_scan [0..<NPROC] p addr False s) (\<lambda>r s.
     case r of
       Inl pid \<Rightarrow> Ok pid s
     | Inr havekids \<Rightarrow> if \<not> havekids \<or> killed p s then Ok (-1) s else sleep (ChProc p) s))"

end
