(* ===== verification/Exec.thy ===== *)
theory Exec
  imports Proc_Life
begin

text \<open>
  Program loading, \<^verbatim>\<open>kernel/exec.c\<close>. The ELF header and the program headers are read
  into local structures; their fields are at the offsets of \<^verbatim>\<open>kernel/elf.h\<close>.
  \<^verbatim>\<open>argv\<close> is a list of kernel addresses of strings.
\<close>

definition MAXARG :: nat where "MAXARG = 32"
definition ELF_MAGIC :: u32 where "ELF_MAGIC = 0x464C457F"
definition ELF_PROG_LOAD :: u32 where "ELF_PROG_LOAD = 1"

definition elf_entry :: "u8 list \<Rightarrow> u64" where "elf_entry h = get64 h 24"
definition elf_phoff :: "u8 list \<Rightarrow> u64" where "elf_phoff h = get64 h 32"
definition elf_phnum :: "u8 list \<Rightarrow> u16" where "elf_phnum h = get16 h 56"

definition ph_type :: "u8 list \<Rightarrow> u32" where "ph_type h = get32 h 0"
definition ph_flags :: "u8 list \<Rightarrow> u32" where "ph_flags h = get32 h 4"
definition ph_off :: "u8 list \<Rightarrow> u64" where "ph_off h = get64 h 8"
definition ph_vaddr :: "u8 list \<Rightarrow> u64" where "ph_vaddr h = get64 h 16"
definition ph_filesz :: "u8 list \<Rightarrow> u64" where "ph_filesz h = get64 h 32"
definition ph_memsz :: "u8 list \<Rightarrow> u64" where "ph_memsz h = get64 h 40"

definition flags2perm :: "u32 \<Rightarrow> u64" where
  "flags2perm flags =
     (let perm = (if flags AND 0x1 \<noteq> 0 then PTE_X else 0)
      in if flags AND 0x2 \<noteq> 0 then perm OR PTE_W else perm)"

text \<open>
  The loop counter of \<^verbatim>\<open>loadseg\<close> is a 32-bit word; the fuel is the number of pages
  of the segment, plus two.
\<close>

fun loadseg_loop ::
  "nat \<Rightarrow> u64 \<Rightarrow> u64 \<Rightarrow> nat \<Rightarrow> u32 \<Rightarrow> u32 \<Rightarrow> u32 \<Rightarrow> 'z kfs_scheme \<Rightarrow> (int, 'z kfs_scheme) outcome" where
  "loadseg_loop 0 pagetable va ip offset sz i s = Diverges"
| "loadseg_loop (Suc fuel) pagetable va ip offset sz i s =
     (if i < sz
      then obind (walkaddr pagetable (va + ucast i) s) (\<lambda>pa s.
        if pa = 0 then Panic ''loadseg: address should exist''
        else
          let n = (if sz - i < ucast PGSIZE then sz - i else ucast PGSIZE) in
          obind (readi ip (DKernel pa) (offset + i) n s) (\<lambda>(r, bs) s.
          if r \<noteq> uint n then Ok (-1) s
          else loadseg_loop fuel pagetable va ip offset sz (i + ucast PGSIZE) s))
      else Ok 0 s)"

definition loadseg ::
  "u64 \<Rightarrow> u64 \<Rightarrow> nat \<Rightarrow> u32 \<Rightarrow> u32 \<Rightarrow> 'z kfs_scheme \<Rightarrow> (int, 'z kfs_scheme) outcome" where
  "loadseg pagetable va ip offset sz s =
     loadseg_loop (unat sz div 4096 + 2) pagetable va ip offset sz 0 s"

definition exec_bad ::
  "u64 \<Rightarrow> u64 \<Rightarrow> nat option \<Rightarrow> 'z kfs_scheme \<Rightarrow> (int, 'z kfs_scheme) outcome" where
  "exec_bad pagetable sz ip s =
     obind (if pagetable \<noteq> 0 then proc_freepagetable pagetable sz s else Ok () s) (\<lambda>_ s.
     case ip of
       None \<Rightarrow> Ok (-1) s
     | Some ip \<Rightarrow> obind (iunlockput ip s) (\<lambda>_ s. obind (end_op s) (\<lambda>_ s. Ok (-1) s)))"

text \<open>
  The loop over the program headers; the result is the new size and whether to go to
  \<^verbatim>\<open>bad\<close>. \<^verbatim>\<open>off\<close> is an \<^verbatim>\<open>int\<close>, so the file offset is truncated to 32 bits.
\<close>

fun exec_load ::
  "nat \<Rightarrow> u32 \<Rightarrow> u64 \<Rightarrow> u64 \<Rightarrow> nat \<Rightarrow> 'z kfs_scheme \<Rightarrow> (bool \<times> u64, 'z kfs_scheme) outcome" where
  "exec_load 0 off pagetable sz ip s = Ok (True, sz) s"
| "exec_load (Suc k) off pagetable sz ip s =
     obind (readi ip DLocal off 56 s) (\<lambda>(r, ph) s.
     if r \<noteq> 56 then Ok (False, sz) s
     else if ph_type ph \<noteq> ELF_PROG_LOAD then exec_load k (off + 56) pagetable sz ip s
     else if ph_memsz ph < ph_filesz ph then Ok (False, sz) s
     else if ph_vaddr ph + ph_memsz ph < ph_vaddr ph then Ok (False, sz) s
     else if ph_vaddr ph mod PGSIZE \<noteq> 0 then Ok (False, sz) s
     else
       obind (uvmalloc pagetable sz (ph_vaddr ph + ph_memsz ph) (flags2perm (ph_flags ph)) s)
         (\<lambda>sz1 s.
       if sz1 = 0 then Ok (False, sz) s
       else
         obind (loadseg pagetable (ph_vaddr ph) ip (ucast (ph_off ph)) (ucast (ph_filesz ph)) s)
           (\<lambda>r s.
         if r < 0 then Ok (False, sz1) s
         else exec_load k (off + 56) pagetable sz1 ip s)))"

text \<open>
  Pushing the argument strings: the result is the stack pointer and the addresses in
  \<^verbatim>\<open>ustack\<close>, or \<open>None\<close> for \<^verbatim>\<open>bad\<close>. \<open>argv\<close> must hold a null pointer.
\<close>

fun push_args ::
  "u64 list \<Rightarrow> u64 list \<Rightarrow> u64 \<Rightarrow> u64 \<Rightarrow> u64 \<Rightarrow> 'z kmem_scheme \<Rightarrow>
   ((u64 \<times> u64 list) option, 'z kmem_scheme) outcome" where
  "push_args [] ustack sp stackbase pagetable s = Undef"
| "push_args (arg # argv) ustack sp stackbase pagetable s =
     (if arg = 0 then Ok (Some (sp, ustack)) s
      else if length ustack \<ge> MAXARG then Ok None s
      else
        case strlen (memory s) arg of
          None \<Rightarrow> Diverges
        | Some len \<Rightarrow>
            let sp = sp - of_nat (len + 1); sp = sp - sp mod 16 in
            if sp < stackbase then Ok None s
            else
              obind (copyout pagetable sp (read_bytes (memory s) arg (len + 1)) s) (\<lambda>r s.
              if r < 0 then Ok None s
              else push_args argv (ustack @ [sp]) sp stackbase pagetable s))"

definition u64_bytes :: "u64 \<Rightarrow> u8 list" where
  "u64_bytes v = put32 (put32 (replicate 8 0) 0 (ucast v)) 4 (ucast (drop_bit 32 v))"

fun last_elem :: "u8 list \<Rightarrow> u8 list \<Rightarrow> u8 list" where
  "last_elem cand [] = cand"
| "last_elem cand (c # cs) =
     (if c = 0 then cand else if c = slash then last_elem cs cs else last_elem cand cs)"

definition exec_commit ::
  "nat \<Rightarrow> u8 list \<Rightarrow> u64 \<Rightarrow> u64 \<Rightarrow> u64 \<Rightarrow> u64 \<Rightarrow> 'z kfs_scheme \<Rightarrow> (unit, 'z kfs_scheme) outcome" where
  "exec_commit p path pagetable sz sp entry s =
     (let oldsz = p_sz (procs s ! p);
          s = tf_set p TF_A1 sp s;
          s = set_name p (last_elem path path) s;
          oldpagetable = p_pagetable (procs s ! p);
          s = upd_proc p (\<lambda>q. q\<lparr>p_pagetable := pagetable, p_sz := sz\<rparr>) s;
          s = tf_set p TF_EPC entry s;
          s = tf_set p TF_SP sp s
      in proc_freepagetable oldpagetable oldsz s)"

definition exec_stack ::
  "nat \<Rightarrow> u8 list \<Rightarrow> u64 list \<Rightarrow> u64 \<Rightarrow> u64 \<Rightarrow> u64 \<Rightarrow> 'z kfs_scheme \<Rightarrow> (int, 'z kfs_scheme) outcome" where
  "exec_stack p path argv pagetable sz entry s =
     (let sz = PGROUNDUP sz in
      obind (uvmalloc pagetable sz (sz + 2 * PGSIZE) PTE_W s) (\<lambda>sz1 s.
      if sz1 = 0 then exec_bad pagetable sz None s
      else
        let sz = sz1 in
        obind (uvmclear pagetable (sz - 2 * PGSIZE) s) (\<lambda>_ s.
        let stackbase = sz - PGSIZE in
        obind (push_args argv [] sz stackbase pagetable s) (\<lambda>r s.
        case r of
          None \<Rightarrow> exec_bad pagetable sz None s
        | Some (sp, ustack) \<Rightarrow>
            let argc = length ustack;
                sp = sp - of_nat ((argc + 1) * 8);
                sp = sp - sp mod 16
            in if sp < stackbase then exec_bad pagetable sz None s
               else
                 obind (copyout pagetable sp (concat (map u64_bytes (ustack @ [0]))) s) (\<lambda>r s.
                 if r < 0 then exec_bad pagetable sz None s
                 else obind (exec_commit p path pagetable sz sp entry s) (\<lambda>_ s.
                      Ok (int argc) s))))))"

definition exec :: "u8 list \<Rightarrow> u64 list \<Rightarrow> 'z kfs_scheme \<Rightarrow> (int, 'z kfs_scheme) outcome" where
  "exec path argv = with_proc (\<lambda>p s.
     obind (begin_op s) (\<lambda>_ s.
     obind (namei path s) (\<lambda>r s.
     case r of
       None \<Rightarrow> obind (end_op s) (\<lambda>_ s. Ok (-1) s)
     | Some ip \<Rightarrow>
         obind (ilock (Some ip) s) (\<lambda>_ s.
         obind (readi ip DLocal 0 64 s) (\<lambda>(r, elf) s.
         if r \<noteq> 64 then exec_bad 0 0 (Some ip) s
         else if get32 elf 0 \<noteq> ELF_MAGIC then exec_bad 0 0 (Some ip) s
         else obind (proc_pagetable p s) (\<lambda>pagetable s.
         if pagetable = 0 then exec_bad 0 0 (Some ip) s
         else
           obind (exec_load (unat (elf_phnum elf)) (ucast (elf_phoff elf)) pagetable 0 ip s)
             (\<lambda>(fine, sz) s.
           if \<not> fine then exec_bad pagetable sz (Some ip) s
           else
             obind (iunlockput ip s) (\<lambda>_ s.
             obind (end_op s) (\<lambda>_ s.
             exec_stack p path argv pagetable sz (elf_entry elf) s)))))))))"

end
