(* ===== verification/Sysfile.thy ===== *)
theory Sysfile
  imports Exec
begin

text \<open>
  System call arguments, \<^verbatim>\<open>kernel/syscall.c\<close>, and the file system calls,
  \<^verbatim>\<open>kernel/sysfile.c\<close>. A result is the 64-bit value that ends up in the caller's
  \<^verbatim>\<open>a0\<close>; \<open>fail\<close> is \<^verbatim>\<open>-1\<close>. A string argument is the byte list of the
  buffer it was copied to, terminator included.
\<close>

section \<open>Arguments\<close>

definition MAXPATH :: nat where "MAXPATH = 128"

definition fail :: "'s \<Rightarrow> (u64, 's) outcome" where
  "fail s = Ok (- 1) s"

definition fetchaddr :: "u64 \<Rightarrow> 'z kproc_scheme \<Rightarrow> (u64 option, 'z kproc_scheme) outcome" where
  "fetchaddr addr = with_proc (\<lambda>p s.
     let sz = p_sz (procs s ! p) in
     if addr \<ge> sz \<or> addr + 8 > sz then Ok None s
     else obind (copyin (p_pagetable (procs s ! p)) addr 8 s) (\<lambda>(r, bs) s.
       if r \<noteq> 0 then Ok None s else Ok (Some (get64 bs 0)) s))"

text \<open>The result of \<^verbatim>\<open>fetchstr\<close> and the bytes that are now in the buffer.\<close>

definition fetchstr :: "u64 \<Rightarrow> nat \<Rightarrow> 'z kproc_scheme \<Rightarrow> (int \<times> u8 list, 'z kproc_scheme) outcome" where
  "fetchstr addr mx = with_proc (\<lambda>p s.
     obind (copyinstr (p_pagetable (procs s ! p)) addr mx s) (\<lambda>(r, bs) s.
     if r < 0 then Ok (-1, bs) s else Ok (int (length (cstring bs)), bs) s))"

definition argraw :: "nat \<Rightarrow> 'z kproc_scheme \<Rightarrow> (u64, 'z kproc_scheme) outcome" where
  "argraw n = with_proc (\<lambda>p s.
     if n \<le> 5 then Ok (tf_get p (TF_A0 + of_nat (8 * n)) s) s else Panic ''argraw'')"

definition argint :: "nat \<Rightarrow> 'z kproc_scheme \<Rightarrow> (int, 'z kproc_scheme) outcome" where
  "argint n s = obind (argraw n s) (\<lambda>v s. Ok (sint (ucast v :: u32)) s)"

definition argaddr :: "nat \<Rightarrow> 'z kproc_scheme \<Rightarrow> (u64, 'z kproc_scheme) outcome" where
  "argaddr n s = argraw n s"

definition argstr :: "nat \<Rightarrow> nat \<Rightarrow> 'z kproc_scheme \<Rightarrow> (int \<times> u8 list, 'z kproc_scheme) outcome" where
  "argstr n mx s = obind (argaddr n s) (\<lambda>addr s. fetchstr addr mx s)"

definition argfd :: "nat \<Rightarrow> 'z kproc_scheme \<Rightarrow> ((nat \<times> nat) option, 'z kproc_scheme) outcome" where
  "argfd n s =
     obind (argint n s) (\<lambda>fd s.
     if fd < 0 \<or> fd \<ge> int NOFILE then Ok None s
     else with_proc (\<lambda>p s.
       case p_ofile (procs s ! p) ! nat fd of
         None \<Rightarrow> Ok None s
       | Some f \<Rightarrow> Ok (Some (nat fd, f)) s) s)"

fun fdalloc_scan :: "nat list \<Rightarrow> nat option list \<Rightarrow> nat option" where
  "fdalloc_scan [] fs = None"
| "fdalloc_scan (fd # fds) fs = (if fs ! fd = None then Some fd else fdalloc_scan fds fs)"

definition set_ofile :: "nat \<Rightarrow> nat \<Rightarrow> nat option \<Rightarrow> 'z kproc_scheme \<Rightarrow> 'z kproc_scheme" where
  "set_ofile p fd f s = upd_proc p (\<lambda>q. q\<lparr>p_ofile := (p_ofile q)[fd := f]\<rparr>) s"

definition fdalloc :: "nat \<Rightarrow> 'z kproc_scheme \<Rightarrow> (int, 'z kproc_scheme) outcome" where
  "fdalloc f = with_proc (\<lambda>p s.
     case fdalloc_scan [0..<NOFILE] (p_ofile (procs s ! p)) of
       None \<Rightarrow> Ok (-1) s
     | Some fd \<Rightarrow> Ok (int fd) (set_ofile p fd (Some f) s))"

section \<open>Descriptors\<close>

definition sys_dup :: "'z kfile_scheme \<Rightarrow> (u64, 'z kfile_scheme) outcome" where
  "sys_dup s =
     obind (argfd 0 s) (\<lambda>r s.
     case r of
       None \<Rightarrow> fail s
     | Some (_, f) \<Rightarrow>
         obind (fdalloc f s) (\<lambda>fd s.
         if fd < 0 then fail s else obind (filedup f s) (\<lambda>_ s. Ok (of_int fd) s)))"

definition sys_read :: "'z kfile_scheme \<Rightarrow> (u64, 'z kfile_scheme) outcome" where
  "sys_read s =
     obind (argaddr 1 s) (\<lambda>p s.
     obind (argint 2 s) (\<lambda>n s.
     obind (argfd 0 s) (\<lambda>r s.
     case r of
       None \<Rightarrow> fail s
     | Some (_, f) \<Rightarrow> obind (fileread f p n s) (\<lambda>r s. Ok (of_int r) s))))"

definition sys_write :: "'z kfile_scheme \<Rightarrow> (u64, 'z kfile_scheme) outcome" where
  "sys_write s =
     obind (argaddr 1 s) (\<lambda>p s.
     obind (argint 2 s) (\<lambda>n s.
     obind (argfd 0 s) (\<lambda>r s.
     case r of
       None \<Rightarrow> fail s
     | Some (_, f) \<Rightarrow> obind (filewrite f p n s) (\<lambda>r s. Ok (of_int r) s))))"

definition sys_close :: "'z kfile_scheme \<Rightarrow> (u64, 'z kfile_scheme) outcome" where
  "sys_close s =
     obind (argfd 0 s) (\<lambda>r s.
     case r of
       None \<Rightarrow> fail s
     | Some (fd, f) \<Rightarrow>
         with_proc (\<lambda>p s.
           obind (fileclose f (set_ofile p fd None s)) (\<lambda>_ s. Ok 0 s)) s)"

definition sys_fstat :: "'z kfile_scheme \<Rightarrow> (u64, 'z kfile_scheme) outcome" where
  "sys_fstat s =
     obind (argaddr 1 s) (\<lambda>st s.
     obind (argfd 0 s) (\<lambda>r s.
     case r of
       None \<Rightarrow> fail s
     | Some (_, f) \<Rightarrow> obind (filestat f st s) (\<lambda>r s. Ok (of_int r) s)))"

section \<open>Links\<close>

definition end_fail :: "'z klog_scheme \<Rightarrow> (u64, 'z klog_scheme) outcome" where
  "end_fail s = obind (end_op s) (\<lambda>_ s. fail s)"

definition link_bad :: "nat \<Rightarrow> 'z kfs_scheme \<Rightarrow> (u64, 'z kfs_scheme) outcome" where
  "link_bad ip s =
     obind (ilock (Some ip) s) (\<lambda>_ s.
     obind (iupdate ip (upd_inode ip (\<lambda>x. x\<lparr>i_nlink := i_nlink x - 1\<rparr>) s)) (\<lambda>_ s.
     obind (iunlockput ip s) (\<lambda>_ s. end_fail s)))"

definition sys_link :: "'z kfs_scheme \<Rightarrow> (u64, 'z kfs_scheme) outcome" where
  "sys_link s =
     obind (argstr 0 MAXPATH s) (\<lambda>(n, old) s.
     if n < 0 then fail s
     else obind (argstr 1 MAXPATH s) (\<lambda>(n, new) s.
     if n < 0 then fail s
     else obind (begin_op s) (\<lambda>_ s.
     obind (namei old s) (\<lambda>r s.
     case r of
       None \<Rightarrow> end_fail s
     | Some ip \<Rightarrow>
         obind (ilock (Some ip) s) (\<lambda>_ s.
         if i_type (itable s ! ip) = T_DIR
         then obind (iunlockput ip s) (\<lambda>_ s. end_fail s)
         else
           obind (iupdate ip (upd_inode ip (\<lambda>x. x\<lparr>i_nlink := i_nlink x + 1\<rparr>) s)) (\<lambda>_ s.
           obind (iunlock (Some ip) s) (\<lambda>_ s.
           obind (nameiparent new s) (\<lambda>(r, name) s.
           case r of
             None \<Rightarrow> link_bad ip s
           | Some dp \<Rightarrow>
               obind (ilock (Some dp) s) (\<lambda>_ s.
               obind (if i_dev (itable s ! dp) \<noteq> i_dev (itable s ! ip) then Ok (-1) s
                      else dirlink dp name (i_inum (itable s ! ip)) s) (\<lambda>r s.
               if r < 0 then obind (iunlockput dp s) (\<lambda>_ s. link_bad ip s)
               else
                 obind (iunlockput dp s) (\<lambda>_ s.
                 obind (iput ip s) (\<lambda>_ s.
                 obind (end_op s) (\<lambda>_ s. Ok 0 s)))))))))))))"

fun isdirempty_loop :: "nat \<Rightarrow> u32 \<Rightarrow> nat \<Rightarrow> 'z kfs_scheme \<Rightarrow> (bool, 'z kfs_scheme) outcome" where
  "isdirempty_loop 0 off dp s = Diverges"
| "isdirempty_loop (Suc fuel) off dp s =
     (if off < i_size (itable s ! dp)
      then obind (readi dp DLocal off 16 s) (\<lambda>(r, de) s.
        if r \<noteq> 16 then Panic ''isdirempty: readi''
        else if de_inum de \<noteq> 0 then Ok False s
        else isdirempty_loop fuel (off + 16) dp s)
      else Ok True s)"

definition isdirempty :: "nat \<Rightarrow> 'z kfs_scheme \<Rightarrow> (bool, 'z kfs_scheme) outcome" where
  "isdirempty dp s = isdirempty_loop (dir_fuel dp s) 32 dp s"

definition unlink_bad :: "nat \<Rightarrow> 'z kfs_scheme \<Rightarrow> (u64, 'z kfs_scheme) outcome" where
  "unlink_bad dp s = obind (iunlockput dp s) (\<lambda>_ s. end_fail s)"

definition sys_unlink :: "'z kfs_scheme \<Rightarrow> (u64, 'z kfs_scheme) outcome" where
  "sys_unlink s =
     obind (argstr 0 MAXPATH s) (\<lambda>(n, path) s.
     if n < 0 then fail s
     else obind (begin_op s) (\<lambda>_ s.
     obind (nameiparent path s) (\<lambda>(r, name) s.
     case r of
       None \<Rightarrow> end_fail s
     | Some dp \<Rightarrow>
         obind (ilock (Some dp) s) (\<lambda>_ s.
         if namecmp name (str ''.'') = 0 \<or> namecmp name (str ''..'') = 0 then unlink_bad dp s
         else obind (dirlookup dp name s) (\<lambda>r s.
         case r of
           None \<Rightarrow> unlink_bad dp s
         | Some (ip, off) \<Rightarrow>
             obind (ilock (Some ip) s) (\<lambda>_ s.
             if sint (i_nlink (itable s ! ip)) < 1 then Panic ''unlink: nlink < 1''
             else
               obind (if i_type (itable s ! ip) = T_DIR then isdirempty ip s else Ok True s) (\<lambda>e s.
               if \<not> e then obind (iunlockput ip s) (\<lambda>_ s. unlink_bad dp s)
               else
                 obind (writei dp (SLocal (replicate 16 0)) off 16 s) (\<lambda>r s.
                 if r \<noteq> 16 then Panic ''unlink: writei''
                 else
                   obind (if i_type (itable s ! ip) = T_DIR
                          then iupdate dp (upd_inode dp (\<lambda>x. x\<lparr>i_nlink := i_nlink x - 1\<rparr>) s)
                          else Ok () s) (\<lambda>_ s.
                   obind (iunlockput dp s) (\<lambda>_ s.
                   obind (iupdate ip (upd_inode ip (\<lambda>x. x\<lparr>i_nlink := i_nlink x - 1\<rparr>) s)) (\<lambda>_ s.
                   obind (iunlockput ip s) (\<lambda>_ s.
                   obind (end_op s) (\<lambda>_ s. Ok 0 s)))))))))))))"

section \<open>Creating and opening\<close>

definition create_fail :: "nat \<Rightarrow> nat \<Rightarrow> 'z kfs_scheme \<Rightarrow> (nat option, 'z kfs_scheme) outcome" where
  "create_fail ip dp s =
     obind (iupdate ip (upd_inode ip (\<lambda>x. x\<lparr>i_nlink := 0\<rparr>) s)) (\<lambda>_ s.
     obind (iunlockput ip s) (\<lambda>_ s.
     obind (iunlockput dp s) (\<lambda>_ s. Ok None s)))"

definition create_dots :: "nat \<Rightarrow> nat \<Rightarrow> 'z kfs_scheme \<Rightarrow> (int, 'z kfs_scheme) outcome" where
  "create_dots ip dp s =
     obind (dirlink ip (str ''.'') (i_inum (itable s ! ip)) s) (\<lambda>r s.
     if r < 0 then Ok (-1) s else dirlink ip (str ''..'') (i_inum (itable s ! dp)) s)"

definition create ::
  "u8 list \<Rightarrow> u16 \<Rightarrow> u16 \<Rightarrow> u16 \<Rightarrow> 'z kfs_scheme \<Rightarrow> (nat option, 'z kfs_scheme) outcome" where
  "create path type major minor s =
     obind (nameiparent path s) (\<lambda>(r, name) s.
     case r of
       None \<Rightarrow> Ok None s
     | Some dp \<Rightarrow>
         obind (ilock (Some dp) s) (\<lambda>_ s.
         obind (dirlookup dp name s) (\<lambda>r s.
         case r of
           Some (ip, off) \<Rightarrow>
             obind (iunlockput dp s) (\<lambda>_ s.
             obind (ilock (Some ip) s) (\<lambda>_ s.
             if type = T_FILE \<and> (i_type (itable s ! ip) = T_FILE \<or> i_type (itable s ! ip) = T_DEVICE)
             then Ok (Some ip) s
             else obind (iunlockput ip s) (\<lambda>_ s. Ok None s)))
         | None \<Rightarrow>
             obind (ialloc (i_dev (itable s ! dp)) type s) (\<lambda>r s.
             case r of
               None \<Rightarrow> obind (iunlockput dp s) (\<lambda>_ s. Ok None s)
             | Some ip \<Rightarrow>
                 obind (ilock (Some ip) s) (\<lambda>_ s.
                 obind (iupdate ip (upd_inode ip (\<lambda>x. x\<lparr>i_major := major, i_minor := minor,
                                      i_nlink := 1\<rparr>) s)) (\<lambda>_ s.
                 obind (if type = T_DIR then create_dots ip dp s else Ok 0 s) (\<lambda>r s.
                 if r < 0 then create_fail ip dp s
                 else
                   obind (dirlink dp name (i_inum (itable s ! ip)) s) (\<lambda>r s.
                   if r < 0 then create_fail ip dp s
                   else
                     obind (if type = T_DIR
                            then iupdate dp (upd_inode dp (\<lambda>x. x\<lparr>i_nlink := i_nlink x + 1\<rparr>) s)
                            else Ok () s) (\<lambda>_ s.
                     obind (iunlockput dp s) (\<lambda>_ s. Ok (Some ip) s))))))))))"

definition O_RDONLY :: u32 where "O_RDONLY = 0"
definition O_WRONLY :: u32 where "O_WRONLY = 1"
definition O_RDWR :: u32 where "O_RDWR = 2"
definition O_CREATE :: u32 where "O_CREATE = 0x200"
definition O_TRUNC :: u32 where "O_TRUNC = 0x400"

text \<open>The inode to open, locked, or \<open>None\<close> when the call has already ended in failure.\<close>

definition open_inode :: "u8 list \<Rightarrow> u32 \<Rightarrow> 'z kfs_scheme \<Rightarrow> (nat option, 'z kfs_scheme) outcome" where
  "open_inode path omode s =
     (if omode AND O_CREATE \<noteq> 0
      then obind (create path T_FILE 0 0 s) (\<lambda>r s.
        case r of None \<Rightarrow> obind (end_op s) (\<lambda>_ s. Ok None s) | Some ip \<Rightarrow> Ok (Some ip) s)
      else obind (namei path s) (\<lambda>r s.
        case r of
          None \<Rightarrow> obind (end_op s) (\<lambda>_ s. Ok None s)
        | Some ip \<Rightarrow>
            obind (ilock (Some ip) s) (\<lambda>_ s.
            if i_type (itable s ! ip) = T_DIR \<and> omode \<noteq> O_RDONLY
            then obind (iunlockput ip s) (\<lambda>_ s. obind (end_op s) (\<lambda>_ s. Ok None s))
            else Ok (Some ip) s)))"

definition open_fail :: "nat \<Rightarrow> 'z kfs_scheme \<Rightarrow> (u64, 'z kfs_scheme) outcome" where
  "open_fail ip s = obind (iunlockput ip s) (\<lambda>_ s. end_fail s)"

definition sys_open :: "'z kfile_scheme \<Rightarrow> (u64, 'z kfile_scheme) outcome" where
  "sys_open s =
     obind (argint 1 s) (\<lambda>om s.
     let omode = of_int om in
     obind (argstr 0 MAXPATH s) (\<lambda>(n, path) s.
     if n < 0 then fail s
     else obind (begin_op s) (\<lambda>_ s.
     obind (open_inode path omode s) (\<lambda>r s.
     case r of
       None \<Rightarrow> fail s
     | Some ip \<Rightarrow>
         let x = itable s ! ip in
         if i_type x = T_DEVICE \<and> (sint (i_major x) < 0 \<or> sint (i_major x) \<ge> int NDEV)
         then open_fail ip s
         else
           (case filealloc s of
              (None, s) \<Rightarrow> open_fail ip s
            | (Some f, s) \<Rightarrow>
                obind (fdalloc f s) (\<lambda>fd s.
                if fd < 0 then obind (fileclose f s) (\<lambda>_ s. open_fail ip s)
                else
                  let x = itable s ! ip;
                      s = (if i_type x = T_DEVICE
                           then upd_file f (\<lambda>y. y\<lparr>f_type := FD_DEVICE, f_major := i_major x\<rparr>) s
                           else upd_file f (\<lambda>y. y\<lparr>f_type := FD_INODE, f_off := 0\<rparr>) s);
                      s = upd_file f (\<lambda>y. y\<lparr>f_ip := Some ip,
                            f_readable := (omode AND O_WRONLY = 0),
                            f_writable := (omode AND O_WRONLY \<noteq> 0 \<or> omode AND O_RDWR \<noteq> 0)\<rparr>) s
                  in obind (if omode AND O_TRUNC \<noteq> 0 \<and> i_type x = T_FILE then itrunc ip s else Ok () s)
                       (\<lambda>_ s.
                     obind (iunlock (Some ip) s) (\<lambda>_ s.
                     obind (end_op s) (\<lambda>_ s. Ok (of_int fd) s)))))))))"

definition sys_mkdir :: "'z kfs_scheme \<Rightarrow> (u64, 'z kfs_scheme) outcome" where
  "sys_mkdir s =
     obind (begin_op s) (\<lambda>_ s.
     obind (argstr 0 MAXPATH s) (\<lambda>(n, path) s.
     if n < 0 then end_fail s
     else obind (create path T_DIR 0 0 s) (\<lambda>r s.
     case r of
       None \<Rightarrow> end_fail s
     | Some ip \<Rightarrow> obind (iunlockput ip s) (\<lambda>_ s. obind (end_op s) (\<lambda>_ s. Ok 0 s)))))"

definition sys_mknod :: "'z kfs_scheme \<Rightarrow> (u64, 'z kfs_scheme) outcome" where
  "sys_mknod s =
     obind (begin_op s) (\<lambda>_ s.
     obind (argint 1 s) (\<lambda>major s.
     obind (argint 2 s) (\<lambda>minor s.
     obind (argstr 0 MAXPATH s) (\<lambda>(n, path) s.
     if n < 0 then end_fail s
     else obind (create path T_DEVICE (of_int major) (of_int minor) s) (\<lambda>r s.
     case r of
       None \<Rightarrow> end_fail s
     | Some ip \<Rightarrow> obind (iunlockput ip s) (\<lambda>_ s. obind (end_op s) (\<lambda>_ s. Ok 0 s)))))))"

definition sys_chdir :: "'z kfs_scheme \<Rightarrow> (u64, 'z kfs_scheme) outcome" where
  "sys_chdir = with_proc (\<lambda>p s.
     obind (begin_op s) (\<lambda>_ s.
     obind (argstr 0 MAXPATH s) (\<lambda>(n, path) s.
     if n < 0 then end_fail s
     else obind (namei path s) (\<lambda>r s.
     case r of
       None \<Rightarrow> end_fail s
     | Some ip \<Rightarrow>
         obind (ilock (Some ip) s) (\<lambda>_ s.
         if i_type (itable s ! ip) \<noteq> T_DIR
         then obind (iunlockput ip s) (\<lambda>_ s. end_fail s)
         else
           obind (iunlock (Some ip) s) (\<lambda>_ s.
           obind (case p_cwd (procs s ! p) of None \<Rightarrow> Panic ''kerneltrap'' | Some d \<Rightarrow> iput d s)
             (\<lambda>_ s.
           obind (end_op s) (\<lambda>_ s.
           Ok 0 (upd_proc p (\<lambda>q. q\<lparr>p_cwd := Some ip\<rparr>) s)))))))))"

section \<open>exec and pipe\<close>

text \<open>
  \<open>exec_args\<close> is the loop that fills \<^verbatim>\<open>argv[]\<close>: it returns the pages allocated so
  far and whether the list is complete.
\<close>

fun exec_args ::
  "nat \<Rightarrow> nat \<Rightarrow> u64 \<Rightarrow> u64 list \<Rightarrow> 'z kproc_scheme \<Rightarrow> (bool \<times> u64 list, 'z kproc_scheme) outcome" where
  "exec_args 0 i uargv argv s = Ok (False, argv) s"
| "exec_args (Suc k) i uargv argv s =
     obind (fetchaddr (uargv + of_nat (8 * i)) s) (\<lambda>r s.
     case r of
       None \<Rightarrow> Ok (False, argv) s
     | Some uarg \<Rightarrow>
         if uarg = 0 then Ok (True, argv) s
         else obind (kalloc s) (\<lambda>pg s.
           if pg = 0 then Ok (False, argv) s
           else obind (fetchstr uarg 4096 s) (\<lambda>(n, bs) s.
             let s = s\<lparr>memory := write_bytes (memory s) pg bs\<rparr> in
             if n < 0 then Ok (False, argv @ [pg]) s
             else exec_args k (Suc i) uargv (argv @ [pg]) s)))"

fun free_args :: "u64 list \<Rightarrow> 'z kmem_scheme \<Rightarrow> (unit, 'z kmem_scheme) outcome" where
  "free_args [] s = Ok () s"
| "free_args (a # as) s = obind (kfree a s) (\<lambda>_ s. free_args as s)"

definition sys_exec :: "'z kfs_scheme \<Rightarrow> (u64, 'z kfs_scheme) outcome" where
  "sys_exec s =
     obind (argaddr 1 s) (\<lambda>uargv s.
     obind (argstr 0 MAXPATH s) (\<lambda>(n, path) s.
     if n < 0 then fail s
     else obind (exec_args MAXARG 0 uargv [] s) (\<lambda>(complete, argv) s.
     if \<not> complete then obind (free_args argv s) (\<lambda>_ s. fail s)
     else
       obind (exec path (argv @ [0]) s) (\<lambda>ret s.
       obind (free_args argv s) (\<lambda>_ s. Ok (of_int ret) s)))))"

definition sys_pipe :: "'z kfile_scheme \<Rightarrow> (u64, 'z kfile_scheme) outcome" where
  "sys_pipe = with_proc (\<lambda>p s.
     obind (argaddr 0 s) (\<lambda>fdarray s.
     obind (pipealloc s) (\<lambda>r s.
     case r of
       None \<Rightarrow> fail s
     | Some (rfile, wfile) \<Rightarrow>
         let close_both = (\<lambda>s.
           obind (fileclose rfile s) (\<lambda>_ s. obind (fileclose wfile s) (\<lambda>_ s. fail s)))
         in obind (fdalloc rfile s) (\<lambda>fd0 s.
            if fd0 < 0 then close_both s
            else obind (fdalloc wfile s) (\<lambda>fd1 s.
            if fd1 < 0 then close_both (set_ofile p (nat fd0) None s)
            else
              obind (copyout (p_pagetable (procs s ! p)) fdarray (int_bytes fd0) s) (\<lambda>r s.
              obind (if r < 0 then Ok (-1) s
                     else copyout (p_pagetable (procs s ! p)) (fdarray + 4) (int_bytes fd1) s) (\<lambda>r s.
              if r < 0
              then close_both (set_ofile p (nat fd1) None (set_ofile p (nat fd0) None s))
              else Ok 0 s)))))))"

end
