(* ===== verification/Syscall.thy ===== *)
theory Syscall
  imports Sysfile
begin

text \<open>
  The process system calls, \<^verbatim>\<open>kernel/sysproc.c\<close>, and the dispatcher
  \<^verbatim>\<open>syscall\<close> of \<^verbatim>\<open>kernel/syscall.c\<close>. The clock \<^verbatim>\<open>ticks\<close> of
  \<^verbatim>\<open>kernel/trap.c\<close> is part of the state.
\<close>

record ksys = kfile +
  ticks :: u32

section \<open>Process system calls\<close>

definition sys_exit :: "'z ksys_scheme \<Rightarrow> (u64, 'z ksys_scheme) outcome" where
  "sys_exit s = obind (argint 0 s) (\<lambda>n s. exit n s)"

definition sys_getpid :: "'z ksys_scheme \<Rightarrow> (u64, 'z ksys_scheme) outcome" where
  "sys_getpid = with_proc (\<lambda>p s. Ok (of_int (p_pid (procs s ! p))) s)"

definition sys_fork :: "'z ksys_scheme \<Rightarrow> (u64, 'z ksys_scheme) outcome" where
  "sys_fork s = obind (fork s) (\<lambda>r s. Ok (of_int r) s)"

definition sys_wait :: "'z ksys_scheme \<Rightarrow> (u64, 'z ksys_scheme) outcome" where
  "sys_wait s = obind (argaddr 0 s) (\<lambda>p s. obind (wait p s) (\<lambda>r s. Ok (of_int r) s))"

definition sys_sbrk :: "'z ksys_scheme \<Rightarrow> (u64, 'z ksys_scheme) outcome" where
  "sys_sbrk s =
     obind (argint 0 s) (\<lambda>n s.
     with_proc (\<lambda>p s.
       let addr = p_sz (procs s ! p) in
       obind (growproc n s) (\<lambda>r s. if r < 0 then fail s else Ok addr s)) s)"

text \<open>
  \<open>sys_sleep_from ticks0 n\<close> is the loop; a process that sleeps re-enters it with the same
  \<open>ticks0\<close>. The comparison is unsigned.
\<close>

definition sys_sleep_from :: "u32 \<Rightarrow> u32 \<Rightarrow> 'z ksys_scheme \<Rightarrow> (u64, 'z ksys_scheme) outcome" where
  "sys_sleep_from ticks0 n s =
     (if ticks s - ticks0 < n
      then with_proc (\<lambda>p s. if killed p s then fail s else sleep ChTicks s) s
      else Ok 0 s)"

definition sys_sleep :: "'z ksys_scheme \<Rightarrow> (u64, 'z ksys_scheme) outcome" where
  "sys_sleep s =
     obind (argint 0 s) (\<lambda>n s.
     let n = (if n < 0 then 0 else n) in sys_sleep_from (ticks s) (of_int n) s)"

definition sys_kill :: "'z ksys_scheme \<Rightarrow> (u64, 'z ksys_scheme) outcome" where
  "sys_kill s = obind (argint 0 s) (\<lambda>pid s. obind (kill pid s) (\<lambda>r s. Ok (of_int r) s))"

definition sys_uptime :: "'z ksys_scheme \<Rightarrow> (u64, 'z ksys_scheme) outcome" where
  "sys_uptime s = Ok (ucast (ticks s)) s"

section \<open>Dispatch\<close>

definition syscalls :: "int \<Rightarrow> ('z ksys_scheme \<Rightarrow> (u64, 'z ksys_scheme) outcome) option" where
  "syscalls num =
     (if num = 1 then Some sys_fork else if num = 2 then Some sys_exit
      else if num = 3 then Some sys_wait else if num = 4 then Some sys_pipe
      else if num = 5 then Some sys_read else if num = 6 then Some sys_kill
      else if num = 7 then Some sys_exec else if num = 8 then Some sys_fstat
      else if num = 9 then Some sys_chdir else if num = 10 then Some sys_dup
      else if num = 11 then Some sys_getpid else if num = 12 then Some sys_sbrk
      else if num = 13 then Some sys_sleep else if num = 14 then Some sys_uptime
      else if num = 15 then Some sys_open else if num = 16 then Some sys_write
      else if num = 17 then Some sys_mknod else if num = 18 then Some sys_unlink
      else if num = 19 then Some sys_link else if num = 20 then Some sys_mkdir
      else if num = 21 then Some sys_close else None)"

definition syscall :: "'z ksys_scheme \<Rightarrow> (unit, 'z ksys_scheme) outcome" where
  "syscall = with_proc (\<lambda>p s.
     let num = sint (ucast (tf_get p TF_A7 s) :: u32) in
     case syscalls num of
       Some f \<Rightarrow> obind (f s) (\<lambda>r s. Ok () (tf_set p TF_A0 r s))
     | None \<Rightarrow>
         obind (printf (''%d %s: unknown sys call %d'' @ nl)
                  [AInt (p_pid (procs s ! p)), AStr (Some (p_name (procs s ! p))), AInt num] s)
           (\<lambda>_ s. Ok () (tf_set p TF_A0 (- 1) s)))"

end
