(* ===== verification/Trap.thy ===== *)
theory Trap
  imports Syscall
begin

text \<open>
  Traps and boot: \<^verbatim>\<open>kernel/trap.c\<close>, \<^verbatim>\<open>kernel/plic.c\<close>,
  \<^verbatim>\<open>kernel/start.c\<close>, \<^verbatim>\<open>kernel/main.c\<close>, and \<^verbatim>\<open>yield\<close> and
  \<^verbatim>\<open>forkret\<close> of \<^verbatim>\<open>kernel/proc.c\<close>. The control and status registers of the
  executing CPU are a record; the interrupt controller has the interrupts that are pending
  and a log of the writes to it. Addresses of code the linker fixes are a record of symbols.

  \<^verbatim>\<open>yield\<close> gives the CPU away: what the rest of the system does until the process is
  scheduled again is the argument \<open>resched\<close> of the routines that can yield.
\<close>

section \<open>State\<close>

record csr =
  c_sstatus :: u64
  c_stvec :: u64
  c_sepc :: u64
  c_scause :: u64
  c_stval :: u64
  c_satp :: u64
  c_sip :: u64
  c_sie :: u64
  c_tp :: u64
  c_mstatus :: u64
  c_mepc :: u64
  c_medeleg :: u64
  c_mideleg :: u64
  c_pmpaddr0 :: u64
  c_pmpcfg0 :: u64
  c_mhartid :: u64
  c_mscratch :: u64
  c_mtvec :: u64
  c_mie :: u64

record symbols =
  sym_kernelvec :: u64
  sym_uservec :: u64
  sym_userret :: u64
  sym_usertrap :: u64
  sym_main :: u64
  sym_timervec :: u64
  sym_etext :: u64
  sym_timer_scratch :: u64

record ktrap = ksys +
  csr :: csr
  syms :: symbols
  kernel_pagetable :: u64
  first :: bool
  started :: bool
  plic_pending :: "u32 list"
  plic_writes :: "(u64 \<times> u32) list"
  mtime :: u64
  mtimecmp :: "u64 \<Rightarrow> u64"
  timer_scratch :: "u64 \<Rightarrow> u64 list"

definition SSTATUS_SPP :: u64 where "SSTATUS_SPP = 0x100"
definition SSTATUS_SPIE :: u64 where "SSTATUS_SPIE = 0x20"
definition SSTATUS_SIE :: u64 where "SSTATUS_SIE = 0x2"
definition MSTATUS_MPP_MASK :: u64 where "MSTATUS_MPP_MASK = 0x1800"
definition MSTATUS_MPP_S :: u64 where "MSTATUS_MPP_S = 0x800"
definition MSTATUS_MIE :: u64 where "MSTATUS_MIE = 0x8"
definition SIE_SEIE :: u64 where "SIE_SEIE = 0x200"
definition SIE_STIE :: u64 where "SIE_STIE = 0x20"
definition SIE_SSIE :: u64 where "SIE_SSIE = 0x2"
definition MIE_MTIE :: u64 where "MIE_MTIE = 0x80"
definition UART0_IRQ :: u32 where "UART0_IRQ = 10"
definition VIRTIO0_IRQ :: u32 where "VIRTIO0_IRQ = 1"

definition upd_csr :: "(csr \<Rightarrow> csr) \<Rightarrow> 'z ktrap_scheme \<Rightarrow> 'z ktrap_scheme" where
  "upd_csr f s = s\<lparr>csr := f (csr s)\<rparr>"

definition intr_on :: "'z ktrap_scheme \<Rightarrow> 'z ktrap_scheme" where
  "intr_on s = upd_csr (\<lambda>c. c\<lparr>c_sstatus := c_sstatus c OR SSTATUS_SIE\<rparr>) s"

definition intr_off :: "'z ktrap_scheme \<Rightarrow> 'z ktrap_scheme" where
  "intr_off s = upd_csr (\<lambda>c. c\<lparr>c_sstatus := c_sstatus c AND NOT SSTATUS_SIE\<rparr>) s"

definition intr_get :: "'z ktrap_scheme \<Rightarrow> bool" where
  "intr_get s \<longleftrightarrow> c_sstatus (csr s) AND SSTATUS_SIE \<noteq> 0"

definition cpuid :: "'z ktrap_scheme \<Rightarrow> u64" where
  "cpuid s = c_tp (csr s)"

section \<open>The interrupt controller\<close>

definition plic_write :: "u64 \<Rightarrow> u32 \<Rightarrow> 'z ktrap_scheme \<Rightarrow> 'z ktrap_scheme" where
  "plic_write a v s = s\<lparr>plic_writes := plic_writes s @ [(a, v)]\<rparr>"

definition PLIC_SENABLE :: "u64 \<Rightarrow> u64" where
  "PLIC_SENABLE hart = PLIC + 0x2080 + hart * 0x100"

definition PLIC_SPRIORITY :: "u64 \<Rightarrow> u64" where
  "PLIC_SPRIORITY hart = PLIC + 0x201000 + hart * 0x2000"

definition PLIC_SCLAIM :: "u64 \<Rightarrow> u64" where
  "PLIC_SCLAIM hart = PLIC + 0x201004 + hart * 0x2000"

definition plicinit :: "'z ktrap_scheme \<Rightarrow> 'z ktrap_scheme" where
  "plicinit s =
     (let s = plic_write (PLIC + ucast UART0_IRQ * 4) 1 s
      in plic_write (PLIC + ucast VIRTIO0_IRQ * 4) 1 s)"

definition plicinithart :: "'z ktrap_scheme \<Rightarrow> 'z ktrap_scheme" where
  "plicinithart s =
     (let hart = cpuid s;
          s = plic_write (PLIC_SENABLE hart)
                (push_bit (unat UART0_IRQ) 1 OR push_bit (unat VIRTIO0_IRQ) 1) s
      in plic_write (PLIC_SPRIORITY hart) 0 s)"

definition plic_claim :: "'z ktrap_scheme \<Rightarrow> u32 \<times> 'z ktrap_scheme" where
  "plic_claim s =
     (case plic_pending s of
        [] \<Rightarrow> (0, s)
      | irq # rest \<Rightarrow> (irq, s\<lparr>plic_pending := rest\<rparr>))"

definition plic_complete :: "u32 \<Rightarrow> 'z ktrap_scheme \<Rightarrow> 'z ktrap_scheme" where
  "plic_complete irq s = plic_write (PLIC_SCLAIM (cpuid s)) irq s"

section \<open>Interrupts\<close>

definition trapinithart :: "'z ktrap_scheme \<Rightarrow> 'z ktrap_scheme" where
  "trapinithart s = upd_csr (\<lambda>c. c\<lparr>c_stvec := sym_kernelvec (syms s)\<rparr>) s"

definition clockintr :: "'z ktrap_scheme \<Rightarrow> 'z ktrap_scheme" where
  "clockintr s = wakeup ChTicks (s\<lparr>ticks := ticks s + 1\<rparr>)"

definition devintr :: "'z ktrap_scheme \<Rightarrow> (int, 'z ktrap_scheme) outcome" where
  "devintr s =
     (let scause = c_scause (csr s) in
      if scause AND 0x8000000000000000 \<noteq> 0 \<and> scause AND 0xff = 9
      then
        (case plic_claim s of (irq, s) \<Rightarrow>
           obind (if irq = UART0_IRQ then uartintr s
                  else if irq = VIRTIO0_IRQ then virtio_disk_intr s
                  else if irq \<noteq> 0
                  then printf (''unexpected interrupt irq=%d'' @ nl) [AInt (sint irq)] s
                  else Ok () s) (\<lambda>_ s.
           Ok 1 (if irq \<noteq> 0 then plic_complete irq s else s)))
      else if scause = 0x8000000000000001
      then
        let s = (if cpuid s = 0 then clockintr s else s)
        in Ok 2 (upd_csr (\<lambda>c. c\<lparr>c_sip := c_sip c AND NOT 2\<rparr>) s)
      else Ok 0 s)"

definition yield ::
  "('z ktrap_scheme \<Rightarrow> 'z ktrap_scheme) \<Rightarrow> 'z ktrap_scheme \<Rightarrow> (unit, 'z ktrap_scheme) outcome" where
  "yield resched = with_proc (\<lambda>p s. Ok () (resched (upd_proc p (\<lambda>q. q\<lparr>p_state := RUNNABLE\<rparr>) s)))"

text \<open>
  \<^verbatim>\<open>usertrapret\<close> ends with a jump to the trampoline; the result is the value of
  \<^verbatim>\<open>satp\<close> it passes.
\<close>

definition usertrapret :: "'z ktrap_scheme \<Rightarrow> (u64, 'z ktrap_scheme) outcome" where
  "usertrapret = with_proc (\<lambda>p s.
     let s = intr_off s;
         s = upd_csr (\<lambda>c. c\<lparr>c_stvec := TRAMPOLINE + (sym_uservec (syms s) - trampoline s)\<rparr>) s;
         s = tf_set p 0 (c_satp (csr s)) s;
         s = tf_set p 8 (p_kstack (procs s ! p) + PGSIZE) s;
         s = tf_set p 16 (sym_usertrap (syms s)) s;
         s = tf_set p 32 (c_tp (csr s)) s;
         x = c_sstatus (csr s);
         x = x AND NOT SSTATUS_SPP;
         x = x OR SSTATUS_SPIE;
         s = upd_csr (\<lambda>c. c\<lparr>c_sstatus := x\<rparr>) s;
         s = upd_csr (\<lambda>c. c\<lparr>c_sepc := tf_get p TF_EPC s\<rparr>) s
     in Ok (MAKE_SATP (p_pagetable (procs s ! p))) s)"

definition usertrap ::
  "('z ktrap_scheme \<Rightarrow> 'z ktrap_scheme) \<Rightarrow> 'z ktrap_scheme \<Rightarrow> (u64, 'z ktrap_scheme) outcome" where
  "usertrap resched s =
     (if c_sstatus (csr s) AND SSTATUS_SPP \<noteq> 0 then Panic ''usertrap: not from user mode''
      else
        let s = upd_csr (\<lambda>c. c\<lparr>c_stvec := sym_kernelvec (syms s)\<rparr>) s in
        with_proc (\<lambda>p s.
          let s = tf_set p TF_EPC (c_sepc (csr s)) s in
          obind (if c_scause (csr s) = 8
                 then
                   if killed p s then exit (-1) s
                   else
                     let s = tf_set p TF_EPC (tf_get p TF_EPC s + 4) s
                     in obind (syscall (intr_on s)) (\<lambda>_ s. Ok 0 s)
                 else
                   obind (devintr s) (\<lambda>which_dev s.
                   if which_dev \<noteq> 0 then Ok which_dev s
                   else
                     obind (printf (''usertrap(): unexpected scause %p pid=%d'' @ nl)
                              [APtr (c_scause (csr s)), AInt (p_pid (procs s ! p))] s) (\<lambda>_ s.
                     obind (printf (''            sepc=%p stval=%p'' @ nl)
                              [APtr (c_sepc (csr s)), APtr (c_stval (csr s))] s) (\<lambda>_ s.
                     Ok 0 (setkilled p s))))) (\<lambda>which_dev s.
          obind (if killed p s then exit (-1) s else Ok () s) (\<lambda>_ s.
          obind (if which_dev = 2 then yield resched s else Ok () s) (\<lambda>_ s.
          usertrapret s)))) s)"

definition kerneltrap ::
  "('z ktrap_scheme \<Rightarrow> 'z ktrap_scheme) \<Rightarrow> 'z ktrap_scheme \<Rightarrow> (unit, 'z ktrap_scheme) outcome" where
  "kerneltrap resched s =
     (let sepc = c_sepc (csr s); sstatus = c_sstatus (csr s); scause = c_scause (csr s) in
      if sstatus AND SSTATUS_SPP = 0 then Panic ''kerneltrap: not from supervisor mode''
      else if intr_get s then Panic ''kerneltrap: interrupts enabled''
      else
        obind (devintr s) (\<lambda>which_dev s.
        if which_dev = 0
        then
          obind (printf (''scause %p'' @ nl) [APtr scause] s) (\<lambda>_ s.
          obind (printf (''sepc=%p stval=%p'' @ nl) [APtr (c_sepc (csr s)), APtr (c_stval (csr s))] s)
            (\<lambda>_ s. Panic ''kerneltrap''))
        else
          obind (case myproc s of
                   None \<Rightarrow> Ok () s
                 | Some p \<Rightarrow>
                     if which_dev = 2 \<and> p_state (procs s ! p) = RUNNING then yield resched s
                     else Ok () s) (\<lambda>_ s.
          Ok () (upd_csr (\<lambda>c. c\<lparr>c_sepc := sepc, c_sstatus := sstatus\<rparr>) s))))"

definition forkret :: "'z ktrap_scheme \<Rightarrow> (u64, 'z ktrap_scheme) outcome" where
  "forkret s =
     obind (if first s then obind (fsinit ROOTDEV s) (\<lambda>_ s. Ok () (s\<lparr>first := False\<rparr>)) else Ok () s)
       (\<lambda>_ s. usertrapret s)"

section \<open>Boot\<close>

definition CLINT_MTIMECMP :: "u64 \<Rightarrow> u64" where
  "CLINT_MTIMECMP hartid = 0x2000000 + 0x4000 + 8 * hartid"

definition timerinit :: "'z ktrap_scheme \<Rightarrow> 'z ktrap_scheme" where
  "timerinit s =
     (let id = c_mhartid (csr s);
          interval = 1000000;
          s = s\<lparr>mtimecmp := (mtimecmp s)(id := mtime s + interval)\<rparr>;
          s = s\<lparr>timer_scratch := (timer_scratch s)(id :=
                (timer_scratch s id)[3 := CLINT_MTIMECMP id, 4 := interval])\<rparr>;
          s = upd_csr (\<lambda>c. c\<lparr>c_mscratch := sym_timer_scratch (syms s) + id * 40\<rparr>) s;
          s = upd_csr (\<lambda>c. c\<lparr>c_mtvec := sym_timervec (syms s)\<rparr>) s;
          s = upd_csr (\<lambda>c. c\<lparr>c_mstatus := c_mstatus c OR MSTATUS_MIE\<rparr>) s
      in upd_csr (\<lambda>c. c\<lparr>c_mie := c_mie c OR MIE_MTIE\<rparr>) s)"

definition start :: "'z ktrap_scheme \<Rightarrow> 'z ktrap_scheme" where
  "start s =
     (let x = c_mstatus (csr s);
          x = x AND NOT MSTATUS_MPP_MASK;
          x = x OR MSTATUS_MPP_S;
          s = upd_csr (\<lambda>c. c\<lparr>c_mstatus := x, c_mepc := sym_main (syms s), c_satp := 0,
                c_medeleg := 0xffff, c_mideleg := 0xffff,
                c_sie := c_sie c OR SIE_SEIE OR SIE_STIE OR SIE_SSIE,
                c_pmpaddr0 := 0x3fffffffffffff, c_pmpcfg0 := 0xf\<rparr>) s;
          s = timerinit s
      in upd_csr (\<lambda>c. c\<lparr>c_tp := c_mhartid c\<rparr>) s)"

definition kvminit :: "'z ktrap_scheme \<Rightarrow> (unit, 'z ktrap_scheme) outcome" where
  "kvminit s =
     obind (kvmmake (sym_etext (syms s)) (trampoline s) s) (\<lambda>pt s. Ok () (s\<lparr>kernel_pagetable := pt\<rparr>))"

definition kvminithart :: "'z ktrap_scheme \<Rightarrow> 'z ktrap_scheme" where
  "kvminithart s = upd_csr (\<lambda>c. c\<lparr>c_satp := MAKE_SATP (kernel_pagetable s)\<rparr>) s"

text \<open>
  What \<^verbatim>\<open>main\<close> does before it enters the scheduler: the whole boot on CPU 0, the
  per-CPU set-up on the others, once \<^verbatim>\<open>started\<close> is set.
\<close>

definition main_cpu0 :: "'z ktrap_scheme \<Rightarrow> (unit, 'z ktrap_scheme) outcome" where
  "main_cpu0 s =
     (let s = printfinit (consoleinit s) in
      obind (printf nl [] s) (\<lambda>_ s.
      obind (printf (''xv6 kernel is booting'' @ nl) [] s) (\<lambda>_ s.
      obind (printf nl [] s) (\<lambda>_ s.
      obind (kinit s) (\<lambda>_ s.
      obind (kvminit s) (\<lambda>_ s.
      let s = kvminithart s;
          s = procinit s;
          s = trapinithart s;
          s = plicinit s;
          s = plicinithart s;
          s = binit s;
          s = iinit s
      in obind (virtio_disk_init s) (\<lambda>_ s.
         obind (userinit s) (\<lambda>_ s.
         Ok () (s\<lparr>started := True\<rparr>)))))))))"

definition main :: "'z ktrap_scheme \<Rightarrow> (unit, 'z ktrap_scheme) outcome" where
  "main s =
     (if cpuid s = 0 then main_cpu0 s
      else if \<not> started s then Diverges
      else
        obind (printf (''hart %d starting'' @ nl) [AInt (sint (ucast (cpuid s) :: u32))] s) (\<lambda>_ s.
        Ok () (plicinithart (trapinithart (kvminithart s)))))"

end
