(* ===== verification/Umalloc.thy ===== *)
theory Umalloc
  imports Prelude
begin

text \<open>
  The memory allocator of user programs, \<^verbatim>\<open>user/umalloc.c\<close>: a circular list of free blocks in
  order of address. Addresses are natural numbers, a header takes 16 bytes, and a size is a 32-bit
  number of headers. The state holds the two fields of every header, the free list pointer, the address
  of the static header \<^verbatim>\<open>base\<close>, and the end of the process's memory with the limit up to which
  \<^verbatim>\<open>sbrk\<close> can move it.
\<close>

record uheap =
  nxt :: "nat \<Rightarrow> nat"
  hsz :: "nat \<Rightarrow> nat"
  freep :: nat
  ubase :: nat
  brk :: nat
  lim :: nat

section \<open>The code\<close>

partial_function (option) free_loop :: "uheap \<Rightarrow> nat \<Rightarrow> nat \<Rightarrow> nat option" where
  "free_loop h bp p =
     (if p < bp \<and> bp < nxt h p then Some p
      else if nxt h p \<le> p \<and> (p < bp \<or> bp < nxt h p) then Some p
      else free_loop h bp (nxt h p))"

definition join_up :: "nat \<Rightarrow> nat \<Rightarrow> uheap \<Rightarrow> uheap" where
  "join_up bp p h =
     (if bp + 16 * hsz h bp = nxt h p then
        h\<lparr>hsz := (hsz h)(bp := (hsz h bp + hsz h (nxt h p)) mod 2 ^ 32), nxt := (nxt h)(bp := nxt h (nxt h p))\<rparr>
      else h\<lparr>nxt := (nxt h)(bp := nxt h p)\<rparr>)"

definition join_down :: "nat \<Rightarrow> nat \<Rightarrow> uheap \<Rightarrow> uheap" where
  "join_down bp p h =
     (if p + 16 * hsz h p = bp then
        h\<lparr>hsz := (hsz h)(p := (hsz h p + hsz h bp) mod 2 ^ 32), nxt := (nxt h)(p := nxt h bp)\<rparr>
      else h\<lparr>nxt := (nxt h)(p := bp)\<rparr>)"

definition free_u :: "nat \<Rightarrow> uheap \<Rightarrow> uheap option" where
  "free_u ap h =
     (let bp = ap - 16
      in map_option (\<lambda>p. (join_down bp p (join_up bp p h))\<lparr>freep := p\<rparr>) (free_loop h bp (freep h)))"

text \<open>
  The system call: the old end of memory, or \<open>None\<close> for the failure value. A negative amount beyond
  the size leaves it as it is.
\<close>

definition usbrk :: "int \<Rightarrow> uheap \<Rightarrow> (nat \<times> uheap) option" where
  "usbrk n h =
     (if 0 < n then (if brk h + nat n \<le> lim h then Some (brk h, h\<lparr>brk := brk h + nat n\<rparr>) else None)
      else if nat (- n) \<le> brk h then Some (brk h, h\<lparr>brk := brk h - nat (- n)\<rparr>)
      else Some (brk h, h))"

text \<open>\<^verbatim>\<open>sbrk\<close> takes an \<^verbatim>\<open>int\<close>. The result is whether memory was found.\<close>

definition morecore :: "nat \<Rightarrow> uheap \<Rightarrow> (bool \<times> uheap) option" where
  "morecore nu h =
     (let nu = (if nu < 4096 then 4096 else nu)
      in case usbrk (sint (of_nat (nu * 16) :: u32)) h of
           None \<Rightarrow> Some (False, h)
         | Some (hp, h) \<Rightarrow> map_option (Pair True) (free_u (hp + 16) (h\<lparr>hsz := (hsz h)(hp := nu)\<rparr>)))"

definition carve :: "nat \<Rightarrow> nat \<Rightarrow> nat \<Rightarrow> uheap \<Rightarrow> nat \<times> uheap" where
  "carve nunits prevp p h =
     (if hsz h p = nunits then (p + 16, h\<lparr>nxt := (nxt h)(prevp := nxt h p), freep := prevp\<rparr>)
      else let q = p + 16 * (hsz h p - nunits)
           in (q + 16, h\<lparr>hsz := (hsz h)(p := hsz h p - nunits, q := nunits), freep := prevp\<rparr>))"

partial_function (option) malloc_loop :: "nat \<Rightarrow> nat \<Rightarrow> nat \<Rightarrow> uheap \<Rightarrow> (nat \<times> uheap) option" where
  "malloc_loop nunits prevp p h =
     (if nunits \<le> hsz h p then Some (carve nunits prevp p h)
      else if p = freep h then
        (case morecore nunits h of
           None \<Rightarrow> None
         | Some (ok, h) \<Rightarrow>
             if \<not> ok then Some (0, h)
             else malloc_loop nunits (freep h) (nxt h (freep h)) h)
      else malloc_loop nunits p (nxt h p) h)"

definition units :: "u32 \<Rightarrow> nat" where
  "units nbytes = (unat nbytes + 16 - 1) div 16 + 1"

definition malloc_u :: "u32 \<Rightarrow> uheap \<Rightarrow> (nat \<times> uheap) option" where
  "malloc_u nbytes h =
     (let h = (if freep h = 0 then h\<lparr>nxt := (nxt h)(ubase h := ubase h), hsz := (hsz h)(ubase h := 0), freep := ubase h\<rparr> else h)
      in malloc_loop (units nbytes) (freep h) (nxt h (freep h)) h)"

section \<open>The free list\<close>

text \<open>The pointers lead along a list of headers and from its last one to a given address.\<close>

fun links_to :: "(nat \<Rightarrow> nat) \<Rightarrow> nat list \<Rightarrow> nat \<Rightarrow> bool" where
  "links_to n [] e = True"
| "links_to n [x] e = (n x = e)"
| "links_to n (x # y # xs) e = (n x = y \<and> links_to n (y # xs) e)"

lemma links_to_append:
  "links_to n (xs @ y # ys) e = (links_to n xs y \<and> links_to n (y # ys) e)"
proof (induction xs)
  case (Cons x xs)
  then show ?case by (cases xs) auto
qed simp

lemma links_to_cong:
  "(\<And>x. x \<in> set xs \<Longrightarrow> n x = n' x) \<Longrightarrow> links_to n xs e = links_to n' xs e"
  by (induction n xs e rule: links_to.induct) auto

lemma links_to_upd [simp]: "a \<notin> set xs \<Longrightarrow> links_to (n(a := v)) xs e = links_to n xs e"
  by (rule links_to_cong) auto

text \<open>The blocks are apart, in order of address.\<close>

fun gaps :: "(nat \<Rightarrow> nat) \<Rightarrow> nat list \<Rightarrow> bool" where
  "gaps z [] = True"
| "gaps z [x] = True"
| "gaps z (x # y # xs) = (x + 16 * z x < y \<and> gaps z (y # xs))"

lemma gaps_append:
  "gaps z (xs @ y # ys) = (gaps z (xs @ [y]) \<and> gaps z (y # ys))"
proof (induction xs)
  case (Cons x xs)
  then show ?case by (cases xs) auto
qed simp

lemma gaps_cong: "(\<And>x. x \<in> set xs \<Longrightarrow> z x = z' x) \<Longrightarrow> gaps z xs = gaps z' xs"
  by (induction z xs rule: gaps.induct) auto

lemma gaps_cong_snoc: "(\<And>x. x \<in> set xs \<Longrightarrow> z x = z' x) \<Longrightarrow> gaps z (xs @ [y]) = gaps z' (xs @ [y])"
proof (induction xs)
  case (Cons x xs)
  then show ?case by (cases xs) auto
qed simp

lemma gaps_upd [simp]: "a \<notin> set xs \<Longrightarrow> gaps (z(a := v)) xs = gaps z xs"
  by (rule gaps_cong) auto

lemma gaps_head: "gaps z (x # xs) \<Longrightarrow> y \<in> set xs \<Longrightarrow> x + 16 * z x < y"
proof (induction xs arbitrary: x)
  case (Cons a xs)
  then show ?case by (cases "y = a") force+
qed simp

lemma gaps_sorted: "gaps z xs \<Longrightarrow> sorted_wrt (<) xs"
proof (induction xs)
  case (Cons x xs)
  then have "gaps z xs" by (cases xs) auto
  moreover have "\<forall>y\<in>set xs. x < y" using gaps_head [OF Cons.prems] by force
  ultimately show ?case using Cons.IH by simp
qed simp

lemma gaps_snoc: "gaps z (xs @ [y]) \<Longrightarrow> x \<in> set xs \<Longrightarrow> x + 16 * z x < y"
proof (induction xs)
  case (Cons a xs)
  then have "gaps z (xs @ [y])" by (cases xs) auto
  then show ?case using Cons gaps_head [of z a "xs @ [y]" y] by auto
qed simp

definition blocks :: "uheap \<Rightarrow> nat list \<Rightarrow> nat set" where
  "blocks h L = (\<Union>a\<in>set L. {a..<a + 16 * hsz h a})"

definition uinv :: "uheap \<Rightarrow> nat list \<Rightarrow> bool" where
  "uinv h L \<longleftrightarrow> L \<noteq> [] \<and> hd L = ubase h \<and> 0 < ubase h \<and> hsz h (ubase h) = 0 \<and> (\<forall>a\<in>set (tl L). 0 < hsz h a) \<and>
     links_to (nxt h) L (ubase h) \<and> gaps (hsz h) L \<and> last L + 16 * hsz h (last L) \<le> brk h \<and> freep h \<in> set L \<and>
     ubase h < brk h \<and> brk h \<le> lim h \<and> lim h < 2 ^ 36"

section \<open>Searching\<close>

text \<open>The loop of \<^verbatim>\<open>free\<close> stops at the last header below the block.\<close>

definition stops :: "uheap \<Rightarrow> nat \<Rightarrow> nat \<Rightarrow> bool" where
  "stops h bp p = ((p < bp \<and> bp < nxt h p) \<or> (nxt h p \<le> p \<and> (p < bp \<or> bp < nxt h p)))"

lemma free_loop_stops: "stops h bp p \<Longrightarrow> free_loop h bp p = Some p"
  by (subst free_loop.simps) (auto simp: stops_def)

lemma free_loop_walk:
  "links_to (nxt h) (xs @ [p]) e \<Longrightarrow> (\<And>x. x \<in> set xs \<Longrightarrow> \<not> stops h bp x) \<Longrightarrow>
   free_loop h bp (hd (xs @ [p])) = free_loop h bp p"
proof (induction xs)
  case (Cons x xs)
  have n: "nxt h x = hd (xs @ [p])" and l: "links_to (nxt h) (xs @ [p]) e"
    using Cons.prems(1) by (cases xs; simp)+
  have "free_loop h bp x = free_loop h bp (nxt h x)"
    using Cons.prems(2) [of x] by (subst free_loop.simps) (auto simp: stops_def)
  then show ?case using n Cons.IH [OF l] Cons.prems(2) by simp
qed simp

text \<open>A circular list can be entered anywhere.\<close>

lemma links_rotate:
  assumes "links_to n (xs @ ys) (hd (xs @ ys))" and "ys \<noteq> []"
  shows "links_to n (ys @ xs) (hd ys)"
proof (cases xs)
  case (Cons x xs')
  obtain y ys' where ys: "ys = y # ys'" using assms(2) by (cases ys) auto
  have "links_to n xs y" "links_to n ys x" using assms(1) links_to_append [of n xs y ys'] by (simp_all add: ys Cons)
  then show ?thesis using links_to_append [of n ys x xs'] by (simp add: Cons ys)
qed (use assms in simp)

lemma links_next:
  "links_to n (xs @ [p]) e \<Longrightarrow> sorted_wrt (<) (xs @ [p]) \<Longrightarrow> x \<in> set xs \<Longrightarrow> x < n x \<and> n x \<le> p"
proof (induction xs)
  case (Cons a xs)
  then show ?case by (cases xs) auto
qed simp

lemma links_prefix: "links_to n (xs @ p # ys) e \<Longrightarrow> \<exists>e. links_to n (xs @ [p]) e"
  using links_to_append [of n xs p ys e] links_to_append [of n xs p "[]"] by auto

lemma links_suffix: "links_to n (xs @ ys) e \<Longrightarrow> links_to n ys e"
  by (cases ys) (simp_all add: links_to_append)

lemma uinv_rotate:
  assumes "uinv h L"
  obtains R where "links_to (nxt h) (freep h # R) (freep h)" and "set (freep h # R) = set L" and "freep h \<notin> set R"
proof -
  obtain xs ys where L: "L = xs @ freep h # ys" using assms split_list [of "freep h" L] by (auto simp: uinv_def)
  have "links_to (nxt h) (xs @ freep h # ys) (hd (xs @ freep h # ys))"
    using assms unfolding uinv_def L by simp
  then have "links_to (nxt h) (freep h # ys @ xs) (freep h)" using links_rotate by fastforce
  moreover have "sorted_wrt (<) L" using assms gaps_sorted by (auto simp: uinv_def)
  ultimately show ?thesis using that [of "ys @ xs"] L by (auto simp: sorted_wrt_append)
qed

lemma place_exists:
  fixes L :: "nat list"
  assumes "sorted_wrt (<) L" and "L \<noteq> []" and "hd L < bp" and "bp \<notin> set L"
  obtains pre p suf where "L = pre @ p # suf" and "p < bp" and "\<forall>x\<in>set suf. bp < x"
proof -
  let ?lo = "takeWhile (\<lambda>x. x < bp) L" and ?hi = "dropWhile (\<lambda>x. x < bp) L"
  have L: "L = ?lo @ ?hi" by simp
  have ne: "?lo \<noteq> []" using assms(2,3) by (cases L) auto
  then obtain pre p where lo: "?lo = pre @ [p]" by (metis rev_exhaust)
  have "p < bp" using lo set_takeWhileD [of p "\<lambda>x. x < bp" L] by simp
  moreover have "bp < x" if x: "x \<in> set ?hi" for x
  proof -
    obtain y ys where hi: "?hi = y # ys" using x by (metis list.set_cases)
    then have "\<not> y < bp" using hd_dropWhile [of "\<lambda>x. x < bp" L] by simp
    moreover have "y \<in> set L" using hi set_dropWhileD [of y "\<lambda>x. x < bp" L] by simp
    ultimately have "bp < y" using assms(4) by (metis linorder_neqE_nat)
    moreover have "sorted_wrt (<) (y # ys)" using assms(1) L hi by (metis sorted_wrt_append)
    ultimately show ?thesis using x hi by auto
  qed
  moreover have "L = pre @ p # ?hi" using L lo by (metis append.assoc append_Cons append_Nil)
  ultimately show ?thesis using that by blast
qed

lemma stops_only_at:
  assumes inv: "uinv h (pre @ p # suf)" and bp: "p < bp" "\<forall>x\<in>set suf. bp < x"
  shows "stops h bp p" and "x \<in> set pre \<union> set suf \<Longrightarrow> \<not> stops h bp x"
proof -
  have l: "links_to (nxt h) (pre @ p # suf) (ubase h)" and s: "sorted_wrt (<) (pre @ p # suf)"
    and b: "hd (pre @ p # suf) = ubase h"
    using inv gaps_sorted by (auto simp: uinv_def)
  have bp0: "ubase h \<le> p" using b s by (cases pre) auto
  have lp: "links_to (nxt h) (p # suf) (ubase h)" using l links_to_append by blast
  show "stops h bp p"
    using lp bp bp0 by (cases suf) (auto simp: stops_def)
  assume "x \<in> set pre \<union> set suf"
  then consider (pre) "x \<in> set pre" | (suf) "x \<in> set suf" by blast
  then show "\<not> stops h bp x"
  proof cases
    case pre
    obtain e where "links_to (nxt h) (pre @ [p]) e" using links_prefix [OF l] by blast
    moreover have "sorted_wrt (<) (pre @ [p])" using s by (auto simp: sorted_wrt_append)
    ultimately have "x < nxt h x" "nxt h x \<le> p" using links_next pre by blast+
    then show ?thesis using bp by (auto simp: stops_def)
  next
    case suf
    then have x: "bp < x" using bp(2) by blast
    obtain s1 z where sz: "suf = s1 @ [z]" using suf by (cases suf rule: rev_cases) auto
    have ls: "links_to (nxt h) (s1 @ [z]) (ubase h)" using links_suffix [of "nxt h" "[p]" suf] lp sz by simp
    have ss: "sorted_wrt (<) (s1 @ [z])" using s sz by (simp add: sorted_wrt_append)
    show ?thesis
    proof (cases "x \<in> set s1")
      case True
      then show ?thesis using links_next [OF ls ss True] x by (auto simp: stops_def)
    next
      case False
      then have "x = z" using suf sz by simp
      moreover have "nxt h z = ubase h" using ls links_suffix [of "nxt h" s1 "[z]"] by simp
      ultimately show ?thesis using x bp0 bp(1) by (auto simp: stops_def)
    qed
  qed
qed

lemma free_loop_finds:
  assumes inv: "uinv h (pre @ p # suf)" and bp: "p < bp" "\<forall>x\<in>set suf. bp < x"
  shows "free_loop h bp (freep h) = Some p"
proof -
  obtain R where l: "links_to (nxt h) (freep h # R) (freep h)" and R: "set (freep h # R) = set (pre @ p # suf)"
    by (rule uinv_rotate [OF inv])
  then have "p \<in> set (freep h # R)" by simp
  then obtain xs ys where xy: "freep h # R = xs @ p # ys" and x: "p \<notin> set xs" by (meson split_list_first)
  obtain e where e: "links_to (nxt h) (xs @ [p]) e" using l xy links_prefix by metis
  have "\<not> stops h bp y" if "y \<in> set xs" for y
  proof (rule stops_only_at(2) [OF inv bp])
    have "y \<in> set (pre @ p # suf)" using that xy R by (metis UnI1 set_append)
    then show "y \<in> set pre \<union> set suf" using that x by auto
  qed
  then have "free_loop h bp (hd (xs @ [p])) = free_loop h bp p" by (rule free_loop_walk [OF e])
  moreover have "hd (xs @ [p]) = freep h" using xy by (cases xs) auto
  ultimately show ?thesis using free_loop_stops stops_only_at(1) [OF inv bp] by simp
qed

section \<open>Giving a block back\<close>

lemma join_up_same [simp]:
  "x \<noteq> bp \<Longrightarrow> nxt (join_up bp p h) x = nxt h x" "x \<noteq> bp \<Longrightarrow> hsz (join_up bp p h) x = hsz h x"
  "freep (join_up bp p h) = freep h" "ubase (join_up bp p h) = ubase h"
  "brk (join_up bp p h) = brk h" "lim (join_up bp p h) = lim h"
  by (simp_all add: join_up_def)

lemma join_down_same [simp]:
  "x \<noteq> p \<Longrightarrow> nxt (join_down bp p h) x = nxt h x" "x \<noteq> p \<Longrightarrow> hsz (join_down bp p h) x = hsz h x"
  "freep (join_down bp p h) = freep h" "ubase (join_down bp p h) = ubase h"
  "brk (join_down bp p h) = brk h" "lim (join_down bp p h) = lim h"
  by (simp_all add: join_down_def)

lemma blocks_Cons: "blocks h (a # L) = {a..<a + 16 * hsz h a} \<union> blocks h L"
  by (simp add: blocks_def)

lemma blocks_append: "blocks h (L @ M) = blocks h L \<union> blocks h M"
  by (auto simp: blocks_def)

lemma blocks_cong: "(\<And>a. a \<in> set L \<Longrightarrow> hsz h a = hsz h' a) \<Longrightarrow> blocks h L = blocks h' L"
  by (simp add: blocks_def)

lemma interval_join: "(a :: nat) \<le> b \<Longrightarrow> b \<le> c \<Longrightarrow> {a..<b} \<union> {b..<c} = {a..<c}"
  by auto

text \<open>The end of the last block of a list.\<close>

definition fin :: "uheap \<Rightarrow> nat list \<Rightarrow> nat" where
  "fin h L = last L + 16 * hsz h (last L)"

lemma fin_Cons: "L \<noteq> [] \<Longrightarrow> fin h (a # L) = fin h L"
  by (simp add: fin_def)

lemma fin_cong: "L \<noteq> [] \<Longrightarrow> (\<And>a. a \<in> set L \<Longrightarrow> hsz h a = hsz h' a) \<Longrightarrow> fin h L = fin h' L"
  by (simp add: fin_def)

lemma gaps_tl: "gaps z (x # xs) \<Longrightarrow> gaps z xs"
  by (cases xs) auto

lemma gaps_fin: "gaps (hsz h) L \<Longrightarrow> a \<in> set L \<Longrightarrow> a + 16 * hsz h a \<le> fin h L"
proof (induction L)
  case (Cons x L)
  show ?case
  proof (cases "L = []")
    case False
    then have "last L \<in> set L" by simp
    then have "x + 16 * hsz h x < last L" using gaps_head [OF Cons.prems(1)] by blast
    then show ?thesis using Cons False gaps_tl [OF Cons.prems(1)] by (auto simp: fin_def)
  qed (use Cons in \<open>simp add: fin_def\<close>)
qed simp

text \<open>A tail of the list from a new block on: what joining it with the block above it yields.\<close>

definition tail_ok :: "uheap \<Rightarrow> nat list \<Rightarrow> bool" where
  "tail_ok h L \<longleftrightarrow> L \<noteq> [] \<and> links_to (nxt h) L (ubase h) \<and> gaps (hsz h) L \<and> (\<forall>a\<in>set L. 0 < hsz h a)"

lemma join_up_ok:
  assumes l: "links_to (nxt h) (p # suf) (ubase h)" and g: "gaps (hsz h) (p # suf)"
    and pos: "\<forall>a\<in>set suf. 0 < hsz h a" "0 < hsz h bp" and p: "ubase h \<le> p" "p < bp"
    and up: "\<forall>x\<in>set suf. bp + 16 * hsz h bp \<le> x" and small: "fin h (bp # suf) < 2 ^ 36"
  obtains suf' where "tail_ok (join_up bp p h) (bp # suf')" and "set suf' \<subseteq> set suf"
    and "blocks (join_up bp p h) (bp # suf') = blocks h (bp # suf)"
    and "fin (join_up bp p h) (bp # suf') = fin h (bp # suf)"
proof (cases "bp + 16 * hsz h bp = nxt h p")
  case True
  then obtain y ys where suf: "suf = y # ys" using l p by (cases suf) auto
  let ?z = "hsz h bp + hsz h y"
  have y: "nxt h p = y" using l suf by simp
  have bpx: "bp \<notin> set suf" using up pos(2) by auto
  have "y + 16 * hsz h y \<le> fin h (y # ys)" using gaps_fin [OF gaps_tl [OF g]] suf by simp
  then have "16 * ?z < 2 ^ 36" using True y small suf by (simp add: fin_Cons)
  then have z: "?z mod 2 ^ 32 = ?z" by simp
  have j: "join_up bp p h = h\<lparr>hsz := (hsz h)(bp := ?z), nxt := (nxt h)(bp := nxt h y)\<rparr>"
    using True y z unfolding join_up_def by simp
  have e: "bp + 16 * ?z = y + 16 * hsz h y" using True y by simp
  have same: "x \<in> set ys \<Longrightarrow> hsz (join_up bp p h) x = hsz h x \<and> nxt (join_up bp p h) x = nxt h x" for x
    using bpx suf by (cases "x = bp") auto
  show ?thesis
  proof (rule that [of ys])
    have "links_to (nxt h) (y # ys) (ubase h)" "gaps (hsz h) (y # ys)" using l g suf by (simp_all add: gaps_tl)
    then have "links_to (nxt (join_up bp p h)) (bp # ys) (ubase h)" "gaps (hsz (join_up bp p h)) (bp # ys)"
      using same links_to_cong [of ys "nxt (join_up bp p h)" "nxt h"] gaps_cong [of ys "hsz (join_up bp p h)" "hsz h"] e
      by (cases ys; simp add: j)+
    then show "tail_ok (join_up bp p h) (bp # ys)" using same pos suf by (auto simp: tail_ok_def j)
    have "{bp..<bp + 16 * ?z} = {bp..<bp + 16 * hsz h bp} \<union> {y..<y + 16 * hsz h y}"
      unfolding e using interval_join [of bp y "y + 16 * hsz h y"] True y by simp
    then show "blocks (join_up bp p h) (bp # ys) = blocks h (bp # suf)"
      using blocks_cong [of ys "join_up bp p h" h] same by (simp add: blocks_Cons suf j Un_assoc)
    show "fin (join_up bp p h) (bp # ys) = fin h (bp # suf)"
    proof (cases "ys = []")
      case True
      then show ?thesis using e by (simp add: fin_def suf j)
    next
      case False
      then show ?thesis using fin_cong [of ys "join_up bp p h" h] same by (simp add: suf fin_Cons)
    qed
  qed (simp add: suf subset_insertI)
next
  case False
  have bpx: "bp \<notin> set suf" using up pos(2) by auto
  have j: "join_up bp p h = h\<lparr>nxt := (nxt h)(bp := nxt h p)\<rparr>" using False by (simp add: join_up_def)
  have lsuf: "links_to (nxt h) suf (ubase h)" using l by (cases suf) auto
  have "links_to ((nxt h)(bp := nxt h p)) (bp # suf) (ubase h)"
    using l bpx lsuf by (cases suf) auto
  moreover have "gaps (hsz h) (bp # suf)"
    using gaps_tl [OF g] up False l by (cases suf) (auto simp: le_less)
  ultimately have "tail_ok (join_up bp p h) (bp # suf)" using pos by (auto simp: tail_ok_def j)
  then show ?thesis by (rule that) (simp_all add: j blocks_def fin_def)
qed

lemma join_down_ok:
  assumes t: "tail_ok h (bp # suf)" and p: "p < bp" "p + 16 * hsz h p \<le> bp" and small: "fin h (bp # suf) < 2 ^ 36"
  obtains T where "links_to (nxt (join_down bp p h)) (p # T) (ubase h)" and "gaps (hsz (join_down bp p h)) (p # T)"
    and "\<forall>a\<in>set T. 0 < hsz (join_down bp p h) a" and "set T \<subseteq> insert bp (set suf)"
    and "blocks (join_down bp p h) (p # T) = {p..<p + 16 * hsz h p} \<union> blocks h (bp # suf)"
    and "fin (join_down bp p h) (p # T) = fin h (bp # suf)"
    and "hsz h p \<le> hsz (join_down bp p h) p" and "hsz h p = 0 \<Longrightarrow> hsz (join_down bp p h) p = 0"
proof (cases "p + 16 * hsz h p = bp")
  case True
  let ?z = "hsz h p + hsz h bp"
  note tt = t [unfolded tail_ok_def]
  have px: "p \<notin> set suf" using gaps_head [of "hsz h" bp suf p] tt p by auto
  have "bp + 16 * hsz h bp \<le> fin h (bp # suf)" using gaps_fin tt by simp
  then have "16 * ?z < 2 ^ 36" using True small by simp
  then have z: "?z mod 2 ^ 32 = ?z" by simp
  have j: "join_down bp p h = h\<lparr>hsz := (hsz h)(p := ?z), nxt := (nxt h)(p := nxt h bp)\<rparr>"
    using True z unfolding join_down_def by simp
  have e: "p + 16 * ?z = bp + 16 * hsz h bp" using True by simp
  have same: "x \<in> set suf \<Longrightarrow> hsz (join_down bp p h) x = hsz h x" for x using px by (cases "x = p") auto
  show ?thesis
  proof (rule that [of suf])
    show "links_to (nxt (join_down bp p h)) (p # suf) (ubase h)" "gaps (hsz (join_down bp p h)) (p # suf)"
      using tt px e by (cases suf; simp add: j)+
    show "\<forall>a\<in>set suf. 0 < hsz (join_down bp p h) a" using tt same by simp
    have "{p..<p + 16 * ?z} = {p..<p + 16 * hsz h p} \<union> {bp..<bp + 16 * hsz h bp}"
      unfolding e using interval_join [of p bp "bp + 16 * hsz h bp"] True by simp
    then show "blocks (join_down bp p h) (p # suf) = {p..<p + 16 * hsz h p} \<union> blocks h (bp # suf)"
      using blocks_cong [of suf "join_down bp p h" h] same by (simp add: blocks_Cons j Un_assoc)
    show "fin (join_down bp p h) (p # suf) = fin h (bp # suf)"
    proof (cases "suf = []")
      case True
      then show ?thesis using e by (simp add: fin_def j)
    next
      case False
      then show ?thesis using fin_cong [of suf "join_down bp p h" h] same by (simp add: fin_Cons)
    qed
  qed (use True p in \<open>auto simp: j\<close>)
next
  case False
  note tt = t [unfolded tail_ok_def]
  have px: "p \<notin> set (bp # suf)" using gaps_head [of "hsz h" bp suf p] tt p by auto
  have j: "join_down bp p h = h\<lparr>nxt := (nxt h)(p := bp)\<rparr>" using False by (simp add: join_down_def)
  show ?thesis
  proof (rule that [of "bp # suf"])
    show "links_to (nxt (join_down bp p h)) (p # bp # suf) (ubase h)" using tt px by (simp add: j)
    show "gaps (hsz (join_down bp p h)) (p # bp # suf)" using tt p False by (simp add: j)
  qed (use tt in \<open>auto simp: j blocks_def fin_def\<close>)
qed

text \<open>A block the program owns: in use, above the static header and below the end of memory.\<close>

definition owned :: "uheap \<Rightarrow> nat list \<Rightarrow> nat \<Rightarrow> bool" where
  "owned h L bp \<longleftrightarrow> ubase h < bp \<and> 0 < hsz h bp \<and> bp + 16 * hsz h bp \<le> brk h \<and>
     {bp..<bp + 16 * hsz h bp} \<inter> blocks h L = {}"

lemma owned_apart:
  assumes inv: "uinv h (pre @ p # suf)" and o: "owned h (pre @ p # suf) bp" and bp: "p < bp" "\<forall>x\<in>set suf. bp < x"
  shows "p + 16 * hsz h p \<le> bp" and "\<forall>x\<in>set suf. bp + 16 * hsz h bp \<le> x"
proof -
  let ?L = "pre @ p # suf"
  have d: "\<And>x a. x \<in> set ?L \<Longrightarrow> a \<in> {bp..<bp + 16 * hsz h bp} \<Longrightarrow> a \<notin> {x..<x + 16 * hsz h x}"
    using o unfolding owned_def blocks_def by blast
  show "p + 16 * hsz h p \<le> bp" using d [of p bp] bp o by (force simp: owned_def)
  show "\<forall>x\<in>set suf. bp + 16 * hsz h bp \<le> x"
  proof
    fix x
    assume x: "x \<in> set suf"
    then have "x \<in> set (tl ?L)" by (cases pre) auto
    then have "0 < hsz h x" using inv by (simp add: uinv_def)
    then show "bp + 16 * hsz h bp \<le> x" using d [of x x] x bp(2) by force
  qed
qed

text \<open>Replacing what follows a header of the list keeps the invariant.\<close>

lemma uinv_replace:
  assumes inv: "uinv h (pre @ p # suf)" and same: "\<And>x. x \<in> set pre \<Longrightarrow> hsz h' x = hsz h x \<and> nxt h' x = nxt h x"
    and T: "links_to (nxt h') (p # T) (ubase h)" "gaps (hsz h') (p # T)" "\<forall>a\<in>set T. 0 < hsz h' a"
    and p: "hsz h p = 0 \<longleftrightarrow> hsz h' p = 0" and top: "fin h' (p # T) \<le> brk h'"
    and rest: "ubase h' = ubase h" "ubase h < brk h'" "brk h' \<le> lim h'" "lim h' < 2 ^ 36" "freep h' \<in> set (pre @ p # T)"
  shows "uinv h' (pre @ p # T)"
proof -
  note i = inv [unfolded uinv_def]
  have l: "links_to (nxt h) pre p" and g: "gaps (hsz h) (pre @ [p])"
    using i links_to_append [of "nxt h" pre p suf] gaps_append [of "hsz h" pre p suf] by auto
  have "links_to (nxt h') (pre @ p # T) (ubase h)" "gaps (hsz h') (pre @ p # T)"
    using l g T(1,2) same links_to_cong [of pre "nxt h'" "nxt h"] gaps_cong_snoc [of pre "hsz h'" "hsz h" p]
    by (simp_all add: links_to_append gaps_append [of _ pre p T])
  moreover have "hd (pre @ p # T) = ubase h \<and> hsz h' (ubase h) = 0 \<and> (\<forall>a\<in>set (tl (pre @ p # T)). 0 < hsz h' a)"
  proof (cases pre)
    case Nil
    then show ?thesis using i p T(3) by simp
  next
    case (Cons a as)
    then have "\<forall>x\<in>set as. 0 < hsz h' x" "0 < hsz h p" "hsz h' a = 0" "a = ubase h" using i same by simp_all
    then show ?thesis using T(3) p Cons by auto
  qed
  ultimately show ?thesis using i rest top by (simp add: uinv_def fin_def)
qed

lemma free_ok:
  assumes inv: "uinv h L" and o: "owned h L bp"
  obtains h' L' where "free_u (bp + 16) h = Some h'" and "uinv h' L'"
    and "blocks h' L' = blocks h L \<union> {bp..<bp + 16 * hsz h bp}"
    and "\<And>a. a \<notin> set L \<Longrightarrow> a \<noteq> bp \<Longrightarrow> hsz h' a = hsz h a" and "brk h' = brk h" "lim h' = lim h" "ubase h' = ubase h"
    and "set L' \<subseteq> insert bp (set L)"
proof -
  have s: "sorted_wrt (<) L" "L \<noteq> []" "hd L = ubase h" using inv gaps_sorted by (auto simp: uinv_def)
  have "a \<in> set L \<Longrightarrow> a \<noteq> bp" for a
  proof
    assume a: "a \<in> set L" "a = bp"
    then have "a \<in> blocks h L" using o by (force simp: blocks_def owned_def)
    moreover have "bp \<in> {bp..<bp + 16 * hsz h bp}" using o by (simp add: owned_def)
    ultimately show False using a(2) o unfolding owned_def by blast
  qed
  then have "bp \<notin> set L" by blast
  then obtain pre p suf where L: "L = pre @ p # suf" and bp: "p < bp" "\<forall>x\<in>set suf. bp < x"
    using place_exists [OF s(1,2)] s(3) o by (metis owned_def)
  let ?h1 = "join_up bp p h" and ?h2 = "join_down bp p (join_up bp p h)"
  note inv' = inv [unfolded L] and i = inv [unfolded uinv_def L]
  note ap = owned_apart [OF inv' o [unfolded L] bp]
  have free: "free_u (bp + 16) h = Some (?h2\<lparr>freep := p\<rparr>)"
    using free_loop_finds [OF inv' bp] by (simp add: free_u_def)
  have small: "fin h (bp # suf) < 2 ^ 36"
    using i o by (cases suf) (auto simp: fin_def owned_def)
  have l: "links_to (nxt h) pre p" "links_to (nxt h) (p # suf) (ubase h)" and g: "gaps (hsz h) (pre @ [p])" "gaps (hsz h) (p # suf)"
    using i links_to_append [of "nxt h" pre p suf] gaps_append [of "hsz h" pre p suf] by auto
  have p0: "ubase h \<le> p" using s(1,3) L by (cases pre) auto
  have pos: "\<forall>a\<in>set suf. 0 < hsz h a" using i by (cases pre) auto
  obtain suf' where up: "tail_ok ?h1 (bp # suf')" "set suf' \<subseteq> set suf" "blocks ?h1 (bp # suf') = blocks h (bp # suf)"
    "fin ?h1 (bp # suf') = fin h (bp # suf)"
    by (rule join_up_ok [OF l(2) g(2) pos _ p0 bp(1) ap(2) small]) (use o in \<open>auto simp: owned_def\<close>)
  obtain T where T: "links_to (nxt ?h2) (p # T) (ubase h)" "gaps (hsz ?h2) (p # T)" "\<forall>a\<in>set T. 0 < hsz ?h2 a"
    "set T \<subseteq> insert bp (set suf')" "blocks ?h2 (p # T) = {p..<p + 16 * hsz h p} \<union> blocks h (bp # suf)"
    "fin ?h2 (p # T) = fin h (bp # suf)" "hsz h p \<le> hsz ?h2 p" "hsz h p = 0 \<Longrightarrow> hsz ?h2 p = 0"
    using join_down_ok [OF up(1) bp(1)] ap(1) bp(1) small up(3,4) by (auto simp: less_imp_neq)
  have pre: "x \<noteq> p \<and> x \<noteq> bp" if "x \<in> set pre" for x using that s(1) bp(1) L by (auto simp: sorted_wrt_append)
  then have same: "x \<in> set pre \<Longrightarrow> hsz ?h2 x = hsz h x \<and> nxt ?h2 x = nxt h x" for x by simp
  have top: "fin ?h2 (p # T) \<le> brk h"
    unfolding T(6) using i o by (cases suf) (auto simp: fin_def owned_def)
  show ?thesis
  proof (rule that [of "?h2\<lparr>freep := p\<rparr>" "pre @ p # T"])
    show "free_u (bp + 16) h = Some (?h2\<lparr>freep := p\<rparr>)" by (rule free)
    show "uinv (?h2\<lparr>freep := p\<rparr>) (pre @ p # T)"
      by (rule uinv_replace [OF inv']) (use T top i same in \<open>auto simp: fin_def\<close>)
    show "blocks (?h2\<lparr>freep := p\<rparr>) (pre @ p # T) = blocks h L \<union> {bp..<bp + 16 * hsz h bp}"
      using T(5) blocks_cong [of pre ?h2 h] same unfolding L blocks_append by (auto simp: blocks_def)
  qed (use bp up(2) T(4) L in \<open>auto simp: free\<close>)
qed

section \<open>Taking a block\<close>

lemma gaps_pair: "gaps z L \<Longrightarrow> a \<in> set L \<Longrightarrow> b \<in> set L \<Longrightarrow> a < b \<Longrightarrow> a + 16 * z a < b"
proof (induction L)
  case (Cons x L)
  then show ?case using gaps_head [OF Cons.prems(1)] gaps_tl [OF Cons.prems(1)]
    by (metis add_lessD1 less_asym set_ConsD)
qed simp

lemma uinv_pos: "uinv h L \<Longrightarrow> a \<in> set L \<Longrightarrow> a \<noteq> ubase h \<Longrightarrow> 0 < hsz h a"
  by (cases L) (auto simp: uinv_def)

lemma uinv_ge: "uinv h L \<Longrightarrow> a \<in> set L \<Longrightarrow> ubase h \<le> a"
  using gaps_head [of "hsz h" "hd L" "tl L" a] by (cases L) (force simp: uinv_def)+

lemma blocks_above: "uinv h L \<Longrightarrow> x \<in> blocks h L \<Longrightarrow> ubase h < x"
proof -
  assume inv: "uinv h L" and "x \<in> blocks h L"
  then obtain a where a: "a \<in> set L" "a \<le> x" "x < a + 16 * hsz h a" by (auto simp: blocks_def)
  moreover have "a \<noteq> ubase h" using a inv by (auto simp: uinv_def)
  ultimately show ?thesis using uinv_ge [OF inv] by force
qed

lemma uinv_disjoint:
  assumes "uinv h L" and "a \<in> set L" "b \<in> set L" "a \<noteq> b"
  shows "{a..<a + 16 * hsz h a} \<inter> {b..<b + 16 * hsz h b} = {}"
  using gaps_pair [of "hsz h" L a b] gaps_pair [of "hsz h" L b a] assms by (cases "a < b") (force simp: uinv_def)+

text \<open>The header before another one.\<close>

lemma links_succ: "links_to n (us @ x # vs) e \<Longrightarrow> n x = hd (vs @ [e])"
  by (cases vs) (simp_all add: links_to_append)

lemma links_pred:
  assumes l: "links_to n (xs @ r # p # ys) e" and d: "distinct (xs @ r # p # ys)" and p: "p \<noteq> e"
    and x: "x \<in> set (xs @ r # p # ys)" "n x = p"
  shows "x = r"
proof -
  obtain us vs where s: "xs @ r # p # ys = us @ x # vs" using x(1) by (meson split_list)
  then have "hd (vs @ [e]) = p" using links_succ [of n us x vs e] l x(2) by simp
  then obtain vs' where "vs = p # vs'" using p by (cases vs) auto
  then have eq: "(us @ [x]) @ p # vs' = (xs @ [r]) @ p # ys" using s by simp
  have "p \<notin> set (xs @ [r])" "p \<notin> set ys" using d by auto
  then have "xs @ [r] = us @ [x]" using append_Cons_eq_iff [of p "xs @ [r]" ys "us @ [x]" vs'] eq [symmetric] by simp
  then show ?thesis by simp
qed

lemma uinv_pred:
  assumes inv: "uinv h L" and p: "p \<in> set L" "p \<noteq> ubase h" and prev: "prevp \<in> set L" "nxt h prevp = p"
  obtains pre suf where "L = pre @ prevp # p # suf"
proof -
  obtain A B where L: "L = A @ p # B" using p(1) by (meson split_list)
  have "A \<noteq> []" using L inv p(2) by (auto simp: uinv_def)
  then obtain pre r where "A = pre @ [r]" by (metis rev_exhaust)
  then have L': "L = pre @ r # p # B" using L by simp
  have "links_to (nxt h) L (ubase h)" "sorted_wrt (<) L" using inv gaps_sorted by (auto simp: uinv_def)
  then have "prevp = r"
    using links_pred [of "nxt h" pre r p B "ubase h" prevp] prev p(2) strict_sorted_iff [of L] unfolding L' by metis
  then show ?thesis using that L' by blast
qed

text \<open>What taking a block of \<open>n\<close> units does.\<close>

definition taken :: "uheap \<Rightarrow> nat list \<Rightarrow> nat \<Rightarrow> nat \<Rightarrow> uheap \<Rightarrow> nat list \<Rightarrow> bool" where
  "taken h L n a h' L' \<longleftrightarrow> uinv h' L' \<and> hsz h' a = n \<and> {a..<a + 16 * n} \<subseteq> blocks h L \<and>
     blocks h' L' = blocks h L - {a..<a + 16 * n} \<and> (\<forall>x. x \<notin> set L \<and> x \<noteq> a \<longrightarrow> hsz h' x = hsz h x) \<and>
     ubase h' = ubase h \<and> brk h' = brk h \<and> lim h' = lim h"

lemma uinv_around:
  assumes inv: "uinv h L" and L: "L = pre @ prevp # p # suf"
  shows "links_to (nxt h) (prevp # p # suf) (ubase h)" and "gaps (hsz h) (prevp # p # suf)"
    and "\<forall>a\<in>set (p # suf). 0 < hsz h a" and "fin h (prevp # p # suf) \<le> brk h"
    and "{p..<p + 16 * hsz h p} \<inter> blocks h (pre @ prevp # suf) = {}"
    and "blocks h L = {p..<p + 16 * hsz h p} \<union> blocks h (pre @ prevp # suf)"
    and "prevp \<notin> set pre" "p \<notin> set pre" "prevp \<noteq> p" "prevp \<notin> set suf" "p \<notin> set suf"
proof -
  note i = inv [unfolded uinv_def L]
  show "links_to (nxt h) (prevp # p # suf) (ubase h)" "gaps (hsz h) (prevp # p # suf)"
    using i links_to_append gaps_append [of "hsz h" pre prevp "p # suf"] by auto
  show "\<forall>a\<in>set (p # suf). 0 < hsz h a" using i by (cases pre) auto
  have "sorted_wrt (<) (pre @ prevp # p # suf)" using i gaps_sorted by blast
  then show nin: "prevp \<notin> set pre" "p \<notin> set pre" "prevp \<noteq> p" "prevp \<notin> set suf" "p \<notin> set suf"
    by (auto simp: sorted_wrt_append)
  show "fin h (prevp # p # suf) \<le> brk h" using i by (simp add: fin_def)
  have pL: "p \<in> set L" using L by simp
  have "b \<in> set L \<and> p \<noteq> b" if "b \<in> set (pre @ prevp # suf)" for b using that nin L by auto
  then have "{p..<p + 16 * hsz h p} \<inter> {b..<b + 16 * hsz h b} = {}" if "b \<in> set (pre @ prevp # suf)" for b
    using uinv_disjoint [OF inv pL] that by blast
  then show "{p..<p + 16 * hsz h p} \<inter> blocks h (pre @ prevp # suf) = {}"
    unfolding blocks_def Int_UN_distrib by simp
  show "blocks h L = {p..<p + 16 * hsz h p} \<union> blocks h (pre @ prevp # suf)"
    unfolding L by (auto simp: blocks_def)
qed

lemma carve_exact:
  assumes inv: "uinv h L" and L: "L = pre @ prevp # p # suf" and n: "hsz h p = n"
  shows "taken h L n p (h\<lparr>nxt := (nxt h)(prevp := nxt h p), freep := prevp\<rparr>) (pre @ prevp # suf)"
proof -
  let ?h = "h\<lparr>nxt := (nxt h)(prevp := nxt h p), freep := prevp\<rparr>"
  note a = uinv_around [OF inv L]
  have "uinv ?h (pre @ prevp # suf)"
  proof (rule uinv_replace)
    show "uinv h (pre @ prevp # p # suf)" using inv L by simp
    show "links_to (nxt ?h) (prevp # suf) (ubase h)" using a(1,10) by (cases suf) auto
    show "gaps (hsz ?h) (prevp # suf)" using a(2) by (cases suf) auto
    show "fin ?h (prevp # suf) \<le> brk ?h" using a(2,4) by (cases suf) (auto simp: fin_def)
  qed (use inv [unfolded uinv_def] a in auto)
  moreover have "blocks ?h (pre @ prevp # suf) = blocks h (pre @ prevp # suf)" by (rule blocks_cong) simp
  ultimately show ?thesis using n a(5,6) unfolding taken_def by auto
qed

lemma carve_split:
  assumes inv: "uinv h L" and L: "L = pre @ prevp # p # suf" and n: "0 < n" "n < hsz h p"
    and q: "q = p + 16 * (hsz h p - n)"
  shows "taken h L n q (h\<lparr>hsz := (hsz h)(p := hsz h p - n, q := n), freep := prevp\<rparr>) L"
proof -
  define h' where "h' = h\<lparr>hsz := (hsz h)(p := hsz h p - n, q := n), freep := prevp\<rparr>"
  note a = uinv_around [OF inv L]
  have pq: "p < q" "q + 16 * n = p + 16 * hsz h p" "p \<in> set L" using n q L by (auto simp: algebra_simps)
  have qn: "q \<notin> set L" using gaps_pair [of "hsz h" L p q] inv pq n by (auto simp: uinv_def)
  have same: "hsz h' x = hsz h x" if "x \<in> set L" "x \<noteq> p" for x using that qn by (auto simp: h'_def)
  have hp: "hsz h' p = hsz h p - n" "hsz h' q = n" "nxt h' = nxt h" "ubase h' = ubase h" "brk h' = brk h" "lim h' = lim h" "freep h' = prevp"
    using pq(1) by (simp_all add: h'_def)
  have suf: "hsz h' x = hsz h x" if "x \<in> set (pre @ prevp # suf)" for x using same that L a by auto
  have "gaps (hsz h') suf" using gaps_cong [of suf "hsz h'" "hsz h"] suf gaps_tl [OF gaps_tl [OF a(2)]] by simp
  then have gs: "gaps (hsz h') (prevp # p # suf)" using a(2) suf [of prevp] hp(1) n(2) by (cases suf) auto
  have top: "fin h' (prevp # p # suf) \<le> brk h"
    using a(4) suf [of "last suf"] hp(1) by (cases "suf = []") (auto simp: fin_def)
  have "uinv h' (pre @ prevp # p # suf)"
    by (rule uinv_replace [OF inv [unfolded L]]) (use inv [unfolded uinv_def] a(1,3) suf hp n gs top in auto)
  moreover have "blocks h' L = {p..<q} \<union> blocks h (pre @ prevp # suf)"
    using blocks_cong [of "pre @ prevp # suf" h' h] suf hp(1) q unfolding L by (auto simp: blocks_def)
  moreover have "{p..<p + 16 * hsz h p} = {p..<q} \<union> {q..<q + 16 * n}"
    using interval_join [of p q "q + 16 * n"] pq by simp
  moreover have "\<forall>x. x \<notin> set L \<and> x \<noteq> q \<longrightarrow> hsz h' x = hsz h x" using pq(3) by (auto simp: h'_def)
  ultimately have "taken h L n q h' L"
    using a(5,6) hp unfolding L [symmetric] taken_def by auto
  then show ?thesis by (simp add: h'_def)
qed

lemma carve_ok:
  assumes inv: "uinv h L" and p: "p \<in> set L" and prev: "prevp \<in> set L" "nxt h prevp = p" and n: "0 < n" "n \<le> hsz h p"
  obtains a h' L' where "carve n prevp p h = (a + 16, h')" and "taken h L n a h' L'"
proof -
  have pb: "p \<noteq> ubase h" using inv n by (auto simp: uinv_def)
  obtain pre suf where L: "L = pre @ prevp # p # suf" by (rule uinv_pred [OF inv p pb prev])
  show ?thesis
  proof (cases "hsz h p = n")
    case True
    then show ?thesis using that carve_exact [OF inv L True] by (simp add: carve_def)
  next
    case False
    then show ?thesis using that carve_split [OF inv L n(1) _ refl] n(2) by (simp add: carve_def Let_def)
  qed
qed

section \<open>Allocation\<close>

lemma malloc_walk:
  "links_to (nxt h) (prev # xs) (freep h) \<Longrightarrow> freep h \<notin> set xs \<Longrightarrow>
   (\<exists>ys p zs. xs @ [freep h] = ys @ p # zs \<and> n \<le> hsz h p \<and> nxt h (last (prev # ys)) = p \<and>
      malloc_loop n prev (nxt h prev) h = Some (carve n (last (prev # ys)) p h)) \<or>
   (\<forall>x\<in>set (xs @ [freep h]). hsz h x < n) \<and>
   malloc_loop n prev (nxt h prev) h =
     (case morecore n h of
        None \<Rightarrow> None
      | Some (ok, h) \<Rightarrow> if \<not> ok then Some (0, h) else malloc_loop n (freep h) (nxt h (freep h)) h)"
proof (induction xs arbitrary: prev)
  case Nil
  then show ?case by (subst (1 2) malloc_loop.simps) (cases "n \<le> hsz h (freep h)"; simp add: exI [of _ "[]"])
next
  case (Cons x xs)
  have x: "nxt h prev = x" and l: "links_to (nxt h) (x # xs) (freep h)" and f: "x \<noteq> freep h" "freep h \<notin> set xs"
    using Cons.prems by auto
  show ?case
  proof (cases "n \<le> hsz h x")
    case True
    then show ?thesis using x by (intro disjI1 exI [of _ "[]"]) (subst malloc_loop.simps, simp)
  next
    case False
    then have step: "malloc_loop n prev (nxt h prev) h = malloc_loop n x (nxt h x) h"
      using x f by (subst malloc_loop.simps) simp
    from Cons.IH [OF l f(2)] show ?thesis
    proof (elim disjE exE conjE)
      fix ys p zs
      assume "xs @ [freep h] = ys @ p # zs" "n \<le> hsz h p" "nxt h (last (x # ys)) = p"
        "malloc_loop n x (nxt h x) h = Some (carve n (last (x # ys)) p h)"
      then show ?thesis using step by (intro disjI1 exI [of _ "x # ys"]) simp
    qed (use step False in auto)
  qed
qed

lemma malloc_search:
  assumes inv: "uinv h L" and n: "0 < n"
  obtains (found) a h' L' where "malloc_loop n (freep h) (nxt h (freep h)) h = Some (a + 16, h')" "taken h L n a h' L'"
  | (none) "\<forall>x\<in>set L. hsz h x < n"
      "malloc_loop n (freep h) (nxt h (freep h)) h =
        (case morecore n h of
           None \<Rightarrow> None
         | Some (ok, h) \<Rightarrow> if \<not> ok then Some (0, h) else malloc_loop n (freep h) (nxt h (freep h)) h)"
proof -
  obtain R where R: "links_to (nxt h) (freep h # R) (freep h)" "set (freep h # R) = set L" "freep h \<notin> set R"
    by (rule uinv_rotate [OF inv])
  from malloc_walk [OF R(1,3), of n] show ?thesis
  proof (elim disjE exE conjE)
    fix ys p zs
    assume s: "R @ [freep h] = ys @ p # zs" and p: "n \<le> hsz h p" "nxt h (last (freep h # ys)) = p"
      and m: "malloc_loop n (freep h) (nxt h (freep h)) h = Some (carve n (last (freep h # ys)) p h)"
    have sub: "set (R @ [freep h]) = set L" using R(2) by auto
    have "p \<in> set L" "set ys \<subseteq> set L" unfolding sub [symmetric] s by auto
    moreover have "last (freep h # ys) \<in> set L" using calculation(2) R(2) by (cases ys rule: rev_cases) auto
    ultimately obtain a h' L' where "carve n (last (freep h # ys)) p h = (a + 16, h')" "taken h L n a h' L'"
      using carve_ok [OF inv _ _ p(2) n p(1)] by metis
    then show ?thesis using found m by simp
  next
    assume a: "\<forall>x\<in>set (R @ [freep h]). hsz h x < n"
      and m: "malloc_loop n (freep h) (nxt h (freep h)) h =
        (case morecore n h of
           None \<Rightarrow> None
         | Some (ok, h) \<Rightarrow> if \<not> ok then Some (0, h) else malloc_loop n (freep h) (nxt h (freep h)) h)"
    have "set (R @ [freep h]) = set L" using R(2) by auto
    then have "\<forall>x\<in>set L. hsz h x < n" using a by simp
    then show ?thesis using m by (rule none)
  qed
qed

lemma uinv_below: "uinv h L \<Longrightarrow> a \<in> set L \<Longrightarrow> a < brk h"
proof -
  assume inv: "uinv h L" and a: "a \<in> set L"
  have "a + 16 * hsz h a \<le> brk h" using gaps_fin [of h L a] inv a by (auto simp: uinv_def fin_def)
  then show ?thesis using uinv_pos [OF inv a] inv by (cases "a = ubase h") (auto simp: uinv_def)
qed

lemma blocks_below: "uinv h L \<Longrightarrow> x \<in> blocks h L \<Longrightarrow> x < brk h"
proof -
  assume inv: "uinv h L" and "x \<in> blocks h L"
  then obtain a where a: "a \<in> set L" "x < a + 16 * hsz h a" by (auto simp: blocks_def)
  then show ?thesis using gaps_fin [of h L a] inv by (auto simp: uinv_def fin_def)
qed

text \<open>A run of free bytes lies in one block.\<close>

lemma run_in_block:
  assumes inv: "uinv h L" and run: "{x..<y} \<subseteq> blocks h L" and xy: "x < y"
  shows "\<exists>a\<in>set L. y - x \<le> 16 * hsz h a"
proof -
  have "x \<in> blocks h L" using run xy by force
  then obtain a where a: "a \<in> set L" "a \<le> x" "x < a + 16 * hsz h a" by (auto simp: blocks_def)
  have "y \<le> a + 16 * hsz h a"
  proof (rule ccontr)
    assume "\<not> y \<le> a + 16 * hsz h a"
    then have "a + 16 * hsz h a \<in> blocks h L" using run a by force
    then obtain b where b: "b \<in> set L" "b \<le> a + 16 * hsz h a" "a + 16 * hsz h a < b + 16 * hsz h b"
      by (auto simp: blocks_def)
    have g: "gaps (hsz h) L" using inv by (simp add: uinv_def)
    show False
    proof (cases "a < b")
      case True
      then show False using gaps_pair [OF g a(1) b(1)] b(2) by simp
    next
      case False
      then show False using gaps_pair [OF g b(1) a(1)] b(3) by (cases "b = a") auto
    qed
  qed
  then show ?thesis using a by (intro bexI [of _ a]) auto
qed

lemma sint_small: "k < 2 ^ 31 \<Longrightarrow> sint (of_nat k :: u32) = int k"
  by (simp add: signed_of_nat signed_take_bit_int_eq_self)

text \<open>The number of units \<^verbatim>\<open>morecore\<close> asks for.\<close>

definition core_units :: "nat \<Rightarrow> nat" where
  "core_units n = (if n < 4096 then 4096 else n)"

lemma morecore_sbrk:
  assumes "16 * core_units n < 2 ^ 31"
  shows "usbrk (sint (of_nat (core_units n * 16) :: u32)) h =
    (if brk h + 16 * core_units n \<le> lim h then Some (brk h, h\<lparr>brk := brk h + 16 * core_units n\<rparr>) else None)"
proof -
  have "0 < core_units n" by (simp add: core_units_def)
  then show ?thesis using sint_small [of "core_units n * 16"] assms
    by (simp add: usbrk_def nat_mult_distrib mult.commute)
qed

lemma morecore_ok:
  assumes inv: "uinv h L" and n: "16 * core_units n < 2 ^ 31" and room: "brk h + 16 * core_units n \<le> lim h"
  obtains h' L' where "morecore n h = Some (True, h')" and "uinv h' L'"
    and "blocks h' L' = blocks h L \<union> {brk h..<brk h'}" and "brk h' = brk h + 16 * core_units n"
    and "\<And>a. a \<notin> set L \<Longrightarrow> a \<noteq> brk h \<Longrightarrow> hsz h' a = hsz h a" and "lim h' = lim h" "ubase h' = ubase h"
    and "set L' \<subseteq> insert (brk h) (set L)"
proof -
  let ?nu = "core_units n" and ?h = "h\<lparr>brk := brk h + 16 * core_units n, hsz := (hsz h)(brk h := core_units n)\<rparr>"
  have pos: "0 < ?nu" by (simp add: core_units_def)
  have new: "brk h \<notin> set L" using uinv_below [OF inv] by blast
  have bl: "blocks ?h L = blocks h L" by (rule blocks_cong) (use new in auto)
  have same: "hsz ?h a = hsz h a" if "a \<in> set L" for a using that new by auto
  have "last L \<in> set L" "ubase h \<in> set L" "set (tl L) \<subseteq> set L"
    using inv by (cases L; force simp: uinv_def)+
  then have "hsz ?h (last L) = hsz h (last L)" "hsz ?h (ubase h) = 0" "\<forall>a\<in>set (tl L). 0 < hsz ?h a"
    using same inv unfolding uinv_def by (metis subsetD)+
  then have inv': "uinv ?h L"
    using inv new room by (simp add: uinv_def)
  have own: "owned ?h L (brk h)"
    using inv pos blocks_below [OF inv] unfolding owned_def bl by (force simp: uinv_def)
  obtain h' L' where f: "free_u (brk h + 16) ?h = Some h'" "uinv h' L'" "blocks h' L' = blocks ?h L \<union> {brk h..<brk h + 16 * hsz ?h (brk h)}"
    "\<And>a. a \<notin> set L \<Longrightarrow> a \<noteq> brk h \<Longrightarrow> hsz h' a = hsz ?h a" "brk h' = brk ?h" "lim h' = lim ?h" "ubase h' = ubase ?h"
    "set L' \<subseteq> insert (brk h) (set L)"
    by (rule free_ok [OF inv' own]) blast
  have "morecore n h = Some (True, h')"
    using f(1) morecore_sbrk [OF n, of h] room unfolding morecore_def core_units_def [symmetric] Let_def by simp
  then show ?thesis using that [of h' L'] f bl by simp
qed

text \<open>What an allocation does when it may also have moved the end of memory.\<close>

definition got :: "uheap \<Rightarrow> nat list \<Rightarrow> nat \<Rightarrow> nat \<Rightarrow> uheap \<Rightarrow> nat list \<Rightarrow> bool" where
  "got h L n a h' L' \<longleftrightarrow> uinv h' L' \<and> hsz h' a = n \<and> {a..<a + 16 * n} \<subseteq> blocks h L \<union> {brk h..<brk h'} \<and>
     blocks h' L' = blocks h L \<union> {brk h..<brk h'} - {a..<a + 16 * n} \<and>
     (\<forall>x. x \<notin> set L \<and> x \<notin> blocks h L \<and> x < brk h \<longrightarrow> hsz h' x = hsz h x) \<and>
     ubase h' = ubase h \<and> brk h \<le> brk h' \<and> lim h' = lim h"

lemma taken_got:
  assumes "taken h L n a h' L'" and "0 < n"
  shows "got h L n a h' L'"
proof -
  have "a \<in> blocks h L" using assms by (force simp: taken_def)
  then show ?thesis using assms(1) by (auto simp: taken_def got_def)
qed

lemma malloc_loop_ok:
  assumes inv: "uinv h L" and n: "0 < n" "16 * core_units n < 2 ^ 31"
  obtains (block) a h' L' where "malloc_loop n (freep h) (nxt h (freep h)) h = Some (a + 16, h')" "got h L n a h' L'"
  | (full) "malloc_loop n (freep h) (nxt h (freep h)) h = Some (0, h)" "lim h < brk h + 16 * core_units n"
proof (rule malloc_search [OF inv n(1)])
  fix a h' L'
  assume "malloc_loop n (freep h) (nxt h (freep h)) h = Some (a + 16, h')" "taken h L n a h' L'"
  then show thesis using block taken_got [OF _ n(1)] by blast
next
  assume m: "malloc_loop n (freep h) (nxt h (freep h)) h =
        (case morecore n h of
           None \<Rightarrow> None
         | Some (ok, h) \<Rightarrow> if \<not> ok then Some (0, h) else malloc_loop n (freep h) (nxt h (freep h)) h)"
  show thesis
  proof (cases "brk h + 16 * core_units n \<le> lim h")
    case False
    then have "morecore n h = Some (False, h)"
      using morecore_sbrk [OF n(2), of h] unfolding morecore_def core_units_def [symmetric] Let_def by simp
    then show thesis using full m False by simp
  next
    case True
    obtain h1 L1 where c: "morecore n h = Some (True, h1)" "uinv h1 L1" "blocks h1 L1 = blocks h L \<union> {brk h..<brk h1}"
      "brk h1 = brk h + 16 * core_units n" "\<And>a. a \<notin> set L \<Longrightarrow> a \<noteq> brk h \<Longrightarrow> hsz h1 a = hsz h a" "lim h1 = lim h"
      "ubase h1 = ubase h" "set L1 \<subseteq> insert (brk h) (set L)"
      by (rule morecore_ok [OF inv n(2) True]) blast
    have cu: "0 < core_units n" "n \<le> core_units n" by (simp_all add: core_units_def)
    then have "\<exists>a\<in>set L1. brk h1 - brk h \<le> 16 * hsz h1 a" using run_in_block [OF c(2), of "brk h" "brk h1"] c(3,4) by simp
    then have fit: "\<not> (\<forall>x\<in>set L1. hsz h1 x < n)" using c(4) cu(2) by force
    obtain a h' L' where f: "malloc_loop n (freep h1) (nxt h1 (freep h1)) h1 = Some (a + 16, h')" "taken h1 L1 n a h' L'"
      by (rule malloc_search [OF c(2) n(1)]) (use fit in auto)
    have "a \<in> blocks h1 L1" using f(2) n(1) by (force simp: taken_def)
    then have a: "a \<in> blocks h L \<or> brk h \<le> a" using c(3) by auto
    have "hsz h' x = hsz h x" if x: "x \<notin> set L" "x \<notin> blocks h L" "x < brk h" for x
    proof -
      have "x \<notin> set L1" "x \<noteq> a" using c(8) a x by auto
      then have "hsz h' x = hsz h1 x" using f(2) by (simp add: taken_def)
      then show ?thesis using c(5) [of x] x by simp
    qed
    then have "got h L n a h' L'" using f(2) c by (simp add: taken_def got_def)
    then show thesis using block m c(1) f(1) by simp
  qed
qed

lemma owned_in_use:
  assumes inv: "uinv h L" and o: "owned h L b"
  shows "b \<notin> set L" and "b \<notin> blocks h L" and "b < brk h"
proof -
  have "b \<in> {b..<b + 16 * hsz h b}" using o by (simp add: owned_def)
  then show nb: "b \<notin> blocks h L" using o unfolding owned_def by blast
  show "b < brk h" using o by (simp add: owned_def)
  show "b \<notin> set L"
  proof
    assume b: "b \<in> set L"
    then have "b \<in> blocks h L" using o by (force simp: blocks_def owned_def)
    then show False using nb by simp
  qed
qed

lemma got_owned:
  assumes inv: "uinv h L" and g: "got h L n a h' L'" and o: "owned h L b"
  shows "owned h' L' b" and "hsz h' b = hsz h b" and "{b..<b + 16 * hsz h b} \<inter> {a..<a + 16 * n} = {}"
proof -
  let ?B = "{b..<b + 16 * hsz h b}"
  show s: "hsz h' b = hsz h b" using owned_in_use [OF inv o] g by (simp add: got_def)
  have d: "?B \<inter> (blocks h L \<union> {brk h..<brk h'}) = {}" using o by (auto simp: owned_def)
  have sub: "{a..<a + 16 * n} \<subseteq> blocks h L \<union> {brk h..<brk h'}" "blocks h' L' \<subseteq> blocks h L \<union> {brk h..<brk h'}"
    using g unfolding got_def by auto
  show "?B \<inter> {a..<a + 16 * n} = {}" using d sub(1) by blast
  have "?B \<inter> blocks h' L' = {}" using d sub(2) by blast
  then show "owned h' L' b" using o g s unfolding owned_def got_def by simp
qed

lemma got_new:
  assumes inv: "uinv h L" and g: "got h L n a h' L'" and n: "0 < n"
  shows "owned h' L' a"
proof -
  have sub: "{a..<a + 16 * n} \<subseteq> blocks h L \<union> {brk h..<brk h'}" and e: "hsz h' a = n" "ubase h' = ubase h" "brk h \<le> brk h'"
    and bl: "blocks h' L' = blocks h L \<union> {brk h..<brk h'} - {a..<a + 16 * n}" using g by (auto simp: got_def)
  have "a \<in> {a..<a + 16 * n}" "a + 16 * n - 1 \<in> {a..<a + 16 * n}" using n by auto
  then have "a \<in> blocks h L \<union> {brk h..<brk h'}" "a + 16 * n - 1 \<in> blocks h L \<union> {brk h..<brk h'}" using sub by blast+
  moreover have "ubase h < brk h" using inv by (simp add: uinv_def)
  ultimately have "ubase h < a" "a + 16 * n - 1 < brk h'"
    using blocks_above [OF inv] blocks_below [OF inv] e(3) by force+
  then show ?thesis using n e bl by (auto simp: owned_def)
qed

section \<open>The contract of the allocator\<close>

text \<open>The heap of a program before the first call and after it.\<close>

definition heap_ok :: "uheap \<Rightarrow> nat list \<Rightarrow> bool" where
  "heap_ok h L =
     (if freep h = 0 then L = [] \<and> 0 < ubase h \<and> ubase h < brk h \<and> brk h \<le> lim h \<and> lim h < 2 ^ 36
      else uinv h L)"

lemma uinv_ready: "uinv h L \<Longrightarrow> freep h \<noteq> 0"
  using uinv_ge [of h L "freep h"] by (auto simp: uinv_def)

lemma uinv_heap: "uinv h L \<Longrightarrow> heap_ok h L"
  using uinv_ready [of h L] by (simp add: heap_ok_def)

lemma units_pos: "0 < units nbytes"
  by (simp add: units_def)

lemma units_enough: "unat nbytes + 16 \<le> 16 * units nbytes"
  by (simp add: units_def)

lemma units_small: "unat nbytes < 2 ^ 31 - 32 \<Longrightarrow> 16 * core_units (units nbytes) < 2 ^ 31"
  by (auto simp: units_def core_units_def)

lemma malloc_init:
  assumes "heap_ok h L"
  obtains h0 L0 where "malloc_u nbytes h = malloc_loop (units nbytes) (freep h0) (nxt h0 (freep h0)) h0"
    and "uinv h0 L0" and "blocks h0 L0 = blocks h L" and "\<And>b. owned h L b \<Longrightarrow> owned h0 L0 b \<and> hsz h0 b = hsz h b"
    and "brk h0 = brk h" "lim h0 = lim h" "ubase h0 = ubase h"
proof (cases "freep h = 0")
  case True
  let ?h = "h\<lparr>nxt := (nxt h)(ubase h := ubase h), hsz := (hsz h)(ubase h := 0), freep := ubase h\<rparr>"
  have L: "L = []" and u: "uinv ?h [ubase h]" using assms True by (auto simp: heap_ok_def uinv_def)
  show ?thesis
    by (rule that [of ?h "[ubase h]"]) (use True L u in \<open>auto simp: malloc_u_def blocks_def owned_def\<close>)
next
  case False
  then show ?thesis using that [of h L] assms by (simp add: malloc_u_def heap_ok_def)
qed

text \<open>C37. \<^verbatim>\<open>malloc\<close> returns memory that is nobody else's: for every request below two gigabytes, from
  a fresh heap or any later one, the call ends; it fails only when the system has no memory for
  \<^verbatim>\<open>morecore\<close>, and otherwise returns a block with room for the request. Every block in use
  before keeps its header and stays in use, and none overlaps the new one.
\<close>

theorem malloc_returns_fresh_block:
  assumes "heap_ok h L" and "unat nbytes < 2 ^ 31 - 32"
  shows "\<exists>ap h' L'. malloc_u nbytes h = Some (ap, h') \<and> heap_ok h' L' \<and>
    (\<forall>b. owned h L b \<longrightarrow> owned h' L' b \<and> hsz h' b = hsz h b) \<and>
    (if ap = 0 then lim h < brk h + 16 * max 4096 (units nbytes)
     else 16 \<le> ap \<and> owned h' L' (ap - 16) \<and> unat nbytes + 16 \<le> 16 * hsz h' (ap - 16) \<and>
       (\<forall>b. owned h L b \<longrightarrow> {b..<b + 16 * hsz h b} \<inter> {ap - 16..<ap - 16 + 16 * hsz h' (ap - 16)} = {}))"
proof -
  obtain h0 L0 where i: "malloc_u nbytes h = malloc_loop (units nbytes) (freep h0) (nxt h0 (freep h0)) h0"
    "uinv h0 L0" "blocks h0 L0 = blocks h L" "\<And>b. owned h L b \<Longrightarrow> owned h0 L0 b \<and> hsz h0 b = hsz h b"
    "brk h0 = brk h" "lim h0 = lim h" "ubase h0 = ubase h"
    by (rule malloc_init [OF assms(1)]) blast
  show ?thesis
  proof (rule malloc_loop_ok [OF i(2) units_pos units_small [OF assms(2)]])
    fix a h' L'
    assume m: "malloc_loop (units nbytes) (freep h0) (nxt h0 (freep h0)) h0 = Some (a + 16, h')"
      and g: "got h0 L0 (units nbytes) a h' L'"
    have z: "hsz h' a = units nbytes" and u: "uinv h' L'" using g by (auto simp: got_def)
    have keep: "owned h' L' b \<and> hsz h' b = hsz h b \<and> {b..<b + 16 * hsz h b} \<inter> {a..<a + 16 * units nbytes} = {}"
      if "owned h L b" for b using i(4) [OF that] got_owned [OF i(2) g, of b] by simp
    show ?thesis
      using m i(1) z keep got_new [OF i(2) g units_pos] uinv_heap [OF u] units_enough [of nbytes]
      by (intro exI [of _ "a + 16"] exI [of _ h'] exI [of _ L']) simp
  next
    assume "malloc_loop (units nbytes) (freep h0) (nxt h0 (freep h0)) h0 = Some (0, h0)"
      "lim h0 < brk h0 + 16 * core_units (units nbytes)"
    then show ?thesis
      using i uinv_heap [OF i(2)] by (intro exI [of _ 0] exI [of _ h0] exI [of _ L0]) (auto simp: core_units_def max_def split: if_splits)
  qed
qed

text \<open>C38. \<^verbatim>\<open>free\<close> gives back exactly its block: for a block in use the call ends, the free memory
  grows by the bytes of the block, neighbouring free blocks are joined so that no two touch, and every
  other block in use stays as it is.
\<close>

theorem free_returns_block:
  assumes "uinv h L" and "owned h L (ap - 16)" and "16 \<le> ap"
  shows "\<exists>h' L'. free_u ap h = Some h' \<and> uinv h' L' \<and>
    blocks h' L' = blocks h L \<union> {ap - 16..<ap - 16 + 16 * hsz h (ap - 16)} \<and>
    (\<forall>b. owned h L b \<and> {b..<b + 16 * hsz h b} \<inter> {ap - 16..<ap - 16 + 16 * hsz h (ap - 16)} = {} \<longrightarrow>
       owned h' L' b \<and> hsz h' b = hsz h b)"
proof -
  let ?bp = "ap - 16"
  obtain h' L' where f: "free_u (?bp + 16) h = Some h'" "uinv h' L'" "blocks h' L' = blocks h L \<union> {?bp..<?bp + 16 * hsz h ?bp}"
    "\<And>a. a \<notin> set L \<Longrightarrow> a \<noteq> ?bp \<Longrightarrow> hsz h' a = hsz h a" "brk h' = brk h" "lim h' = lim h" "ubase h' = ubase h"
    by (rule free_ok [OF assms(1,2)]) blast
  have "owned h' L' b \<and> hsz h' b = hsz h b"
    if b: "owned h L b" "{b..<b + 16 * hsz h b} \<inter> {?bp..<?bp + 16 * hsz h ?bp} = {}" for b
  proof -
    have "b \<noteq> ?bp" using b assms(2) by (auto simp: owned_def)
    then have "hsz h' b = hsz h b" using f(4) owned_in_use(1) [OF assms(1) b(1)] by simp
    then show ?thesis using b f(3,5,7) unfolding owned_def by auto
  qed
  then show ?thesis using f(1-3) assms(3) by (intro exI [of _ h'] exI [of _ L']) simp
qed

text \<open>C39. The largest requests are granted without memory: \<^verbatim>\<open>morecore\<close> hands the size in bytes to
  \<^verbatim>\<open>sbrk\<close> as an \<^verbatim>\<open>int\<close>. In a fresh heap \<^verbatim>\<open>malloc(0xFFFFFFFF)\<close> asks it for
  16 bytes, records a block of four gigabytes and returns it.
\<close>

theorem malloc_truncates_size:
  assumes "freep h = 0" and "heap_ok h L" and "brk h + 16 \<le> lim h"
  shows "\<exists>h'. malloc_u 0xFFFFFFFF h = Some (brk h + 16, h') \<and> hsz h' (brk h) = 2 ^ 28 + 1 \<and> brk h' = brk h + 16"
proof -
  have b: "0 < ubase h" "ubase h < brk h" using assms(1,2) by (auto simp: heap_ok_def)
  let ?n = "2 ^ 28 + 1 :: nat" and ?b = "ubase h"
  define h0 where "h0 = h\<lparr>nxt := (nxt h)(?b := ?b), hsz := (hsz h)(?b := 0), freep := ?b\<rparr>"
  define h1 where "h1 = h0\<lparr>brk := brk h + 16, hsz := (hsz h0)(brk h := ?n)\<rparr>"
  define h2 where "h2 = h1\<lparr>nxt := (nxt h1)(brk h := ?b, ?b := brk h), freep := ?b\<rparr>"
  have "usbrk 16 h0 = Some (brk h, h0\<lparr>brk := brk h + 16\<rparr>)" using assms(3) by (simp add: usbrk_def h0_def)
  moreover have "free_loop h1 (brk h) ?b = Some ?b" by (rule free_loop_stops) (use b in \<open>simp add: stops_def h1_def h0_def\<close>)
  then have "free_u (brk h + 16) h1 = Some h2"
    using b by (simp add: free_u_def Let_def join_up_def join_down_def h2_def h1_def h0_def)
  ultimately have m: "morecore ?n h0 = Some (True, h2)" by (simp add: morecore_def h1_def)
  have "malloc_loop ?n ?b (brk h) h2 = Some (carve ?n ?b (brk h) h2)"
    by (subst malloc_loop.simps) (use b in \<open>simp add: h2_def h1_def\<close>)
  then have "malloc_loop ?n ?b ?b h0 = Some (carve ?n ?b (brk h) h2)"
    by (subst malloc_loop.simps) (use m b in \<open>simp add: h0_def h2_def\<close>)
  moreover have "malloc_u 0xFFFFFFFF h = malloc_loop ?n ?b ?b h0"
    using assms(1) b by (simp add: malloc_u_def h0_def units_def)
  ultimately show ?thesis using b by (simp add: carve_def h2_def h1_def)
qed

text \<open>A fresh heap, and one with a free block and a block in use.\<close>

definition fresh_heap :: uheap where
  "fresh_heap = \<lparr>nxt = (\<lambda>_. 0), hsz = (\<lambda>_. 0), freep = 0, ubase = 8192, brk = 12288, lim = 1048576\<rparr>"

definition demo_heap :: uheap where
  "demo_heap = \<lparr>nxt = (\<lambda>_. 0)(8192 := 12288, 12288 := 8192), hsz = (\<lambda>_. 0)(12288 := 4090, 77728 := 6),
     freep = 8192, ubase = 8192, brk = 77824, lim = 1048576\<rparr>"

theorem malloc_returns_fresh_block_witness:
  "\<exists>ap h' L'. malloc_u 100 fresh_heap = Some (ap, h') \<and> heap_ok h' L' \<and>
    (\<forall>b. owned fresh_heap [] b \<longrightarrow> owned h' L' b \<and> hsz h' b = hsz fresh_heap b) \<and>
    (if ap = 0 then lim fresh_heap < brk fresh_heap + 16 * max 4096 (units 100)
     else 16 \<le> ap \<and> owned h' L' (ap - 16) \<and> unat (100 :: u32) + 16 \<le> 16 * hsz h' (ap - 16) \<and>
       (\<forall>b. owned fresh_heap [] b \<longrightarrow>
          {b..<b + 16 * hsz fresh_heap b} \<inter> {ap - 16..<ap - 16 + 16 * hsz h' (ap - 16)} = {}))"
  by (rule malloc_returns_fresh_block) (simp_all add: heap_ok_def fresh_heap_def)

theorem free_returns_block_witness:
  "\<exists>h' L'. free_u 77744 demo_heap = Some h' \<and> uinv h' L' \<and>
    blocks h' L' = blocks demo_heap [8192, 12288] \<union> {77744 - 16..<77744 - 16 + 16 * hsz demo_heap (77744 - 16)} \<and>
    (\<forall>b. owned demo_heap [8192, 12288] b \<and>
       {b..<b + 16 * hsz demo_heap b} \<inter> {77744 - 16..<77744 - 16 + 16 * hsz demo_heap (77744 - 16)} = {} \<longrightarrow>
       owned h' L' b \<and> hsz h' b = hsz demo_heap b)"
  by (rule free_returns_block) (simp_all add: uinv_def owned_def blocks_def demo_heap_def)

theorem malloc_truncates_size_witness:
  "\<exists>h'. malloc_u 0xFFFFFFFF fresh_heap = Some (brk fresh_heap + 16, h') \<and> hsz h' (brk fresh_heap) = 2 ^ 28 + 1 \<and>
     brk h' = brk fresh_heap + 16"
  by (rule malloc_truncates_size [of _ "[]"]) (simp_all add: heap_ok_def fresh_heap_def)

end
