(* ===== verification/Spec2Isabelle.thy ===== *)
theory Spec2Isabelle
  imports Growth Log_Recovery Mkfs Sched Shrun Trap Umalloc
begin

text \<open>
  A verification library for the xv6 operating system for RISC-V under \<^verbatim>\<open>src/\<close>: the kernel in
  \<^verbatim>\<open>src/kernel\<close>, the user library, allocator, shell and pattern search in \<^verbatim>\<open>src/user\<close>,
  and the tool \<^verbatim>\<open>src/mkfs/mkfs.c\<close> that builds the disk.

  \<^bold>\<open>How the code is modelled.\<close> A kernel routine is a function from the kernel's state to an
  \<open>outcome\<close>: \<open>Ok\<close> with a value and a new state, \<open>Panic\<close>, \<open>Sleeps\<close> on a channel,
  \<open>Exits\<close>, \<open>Diverges\<close>, or \<open>Undef\<close> for what C gives no meaning to. The state is a chain of
  records, one extension per component in the order the code builds on them: \<open>kmem\<close>, \<open>kproc\<close>,
  \<open>kuart\<close>, \<open>kcons\<close>, \<open>kbio\<close>, \<open>klog\<close>, \<open>kfs\<close>, \<open>kfile\<close>, \<open>ksys\<close>, \<open>ktrap\<close>. Integers are
  words of the width the C types have. A pointer into a static table is an index, a pointer into memory is
  an address. Routines run by one process are sequential functions; \<open>Spinlock\<close> and \<open>Sched\<close> interleave
  the steps of several CPUs by inductive relations.

  \<^bold>\<open>Memory.\<close>
  \<^item> \<open>Prelude\<close>: words, outcomes, their sequencing, shared lemmas.
  \<^item> \<open>Memory\<close>, \<open>Bytes\<close>: byte memory and byte buffers, \<^verbatim>\<open>kernel/string.c\<close>, little-endian
    fields.
  \<^item> \<open>Kalloc\<close>: \<^verbatim>\<open>kernel/kalloc.c\<close>, the free list through the free pages. The locale
    \<open>page_allocator\<close> is its contract. Booting frees every page.
  \<^item> \<open>Vm\<close>: \<^verbatim>\<open>kernel/vm.c\<close>. \<open>Pagetable\<close>, \<open>Addrspace\<close>: the tree of table pages in memory
    and what walking and mapping do to it. \<open>Uaccess\<close>, \<open>Usermem\<close>: user memory as a map from addresses
    to bytes; \<^verbatim>\<open>copyin\<close>, \<^verbatim>\<open>copyinstr\<close> and \<^verbatim>\<open>copyout\<close> read and
    update it exactly. \<open>Growth\<close>: \<^verbatim>\<open>uvmalloc\<close> adds zeroed pages or changes nothing,
    \<^verbatim>\<open>uvmdealloc\<close> removes exactly its range.

  \<^bold>\<open>Processes.\<close>
  \<^item> \<open>Spinlock\<close>: \<^verbatim>\<open>kernel/spinlock.c\<close> on any number of CPUs: mutual exclusion, interrupts off
    while locked, no check of the code fires.
  \<^item> \<open>Sched\<close>: \<^verbatim>\<open>scheduler\<close>, \<^verbatim>\<open>sched\<close>, \<^verbatim>\<open>sleep\<close> and
    \<^verbatim>\<open>wakeup\<close> of \<^verbatim>\<open>kernel/proc.c\<close>: one CPU per process, no lost wakeup, no panic.
  \<^item> \<open>Proc\<close>, \<open>Proc_Life\<close>, \<open>Sleeplock\<close>: the rest of \<^verbatim>\<open>kernel/proc.c\<close> and
    \<^verbatim>\<open>kernel/sleeplock.c\<close>.

  \<^bold>\<open>Devices.\<close>
  \<^item> \<open>Ring\<close>: the locale \<open>ring_buffer\<close> for buffers with wrapping counters, interpreted in
    \<open>Pipe\<close>, \<open>Console\<close> and \<open>Uart\<close>: each is a first-in first-out queue.
  \<^item> \<open>Uart\<close>, \<open>Console\<close>: \<^verbatim>\<open>kernel/uart.c\<close>, \<^verbatim>\<open>kernel/console.c\<close>,
    \<^verbatim>\<open>kernel/printf.c\<close>: bytes are sent in order, line editing, reading lines.
  \<^item> \<open>Virtio\<close>: \<^verbatim>\<open>kernel/virtio_disk.c\<close>, the descriptor ring and the two halves of a request.

  \<^bold>\<open>File system.\<close>
  \<^item> \<open>Bio\<close>, \<open>Cache\<close>: \<^verbatim>\<open>kernel/bio.c\<close> and its contract, the locale \<open>block_cache\<close>: the
    cache is a map from blocks to contents.
  \<^item> \<open>Log\<close>, \<open>Log_Recovery\<close>: \<^verbatim>\<open>kernel/log.c\<close>. A commit interrupted after any disk write
    leaves, after recovery, none or all of the transaction.
  \<^item> \<open>Fs\<close>, \<open>Dir\<close>: \<^verbatim>\<open>kernel/fs.c\<close>. \<open>Pipe\<close>, \<open>File\<close>: \<^verbatim>\<open>kernel/pipe.c\<close>,
    \<^verbatim>\<open>kernel/file.c\<close>.
  \<^item> \<open>Mkfs\<close>: \<^verbatim>\<open>mkfs/mkfs.c\<close>. The theorem below relates the image it builds to the kernel's
    block allocator.

  \<^bold>\<open>System calls and traps.\<close> \<open>Exec\<close>, \<open>Sysfile\<close>, \<open>Syscall\<close>, \<open>Trap\<close>:
  \<^verbatim>\<open>kernel/exec.c\<close>, \<^verbatim>\<open>kernel/sysfile.c\<close>, \<^verbatim>\<open>kernel/sysproc.c\<close>,
  \<^verbatim>\<open>kernel/syscall.c\<close>, \<^verbatim>\<open>kernel/trap.c\<close>, \<^verbatim>\<open>kernel/plic.c\<close>,
  \<^verbatim>\<open>kernel/start.c\<close>, \<^verbatim>\<open>kernel/main.c\<close>.

  \<^bold>\<open>User level.\<close>
  \<^item> \<open>Ulib\<close>, \<open>Uprintf\<close>: \<^verbatim>\<open>user/ulib.c\<close> and \<^verbatim>\<open>user/printf.c\<close>: the order of
    \<^verbatim>\<open>strcmp\<close>, numbers read back, the digit buffer is never overrun.
  \<^item> \<open>Umalloc\<close>: \<^verbatim>\<open>user/umalloc.c\<close>: blocks in use never overlap, free memory is exactly what was
    given back, and the truncation of requests of two gigabytes and more.
  \<^item> \<open>Grep\<close>: \<^verbatim>\<open>user/grep.c\<close>: the matcher decides the language of its patterns, the search
    prints the matching lines, and it stops at a line longer than its buffer.
  \<^item> \<open>Sh\<close>, \<open>Shrun\<close>: \<^verbatim>\<open>user/sh.c\<close>: the parser ends, stays in bounds and yields the words of
    the line; the programs of a command start with the descriptors the operators ask for.

  \<^bold>\<open>Bounds and fuel.\<close> A traversal of the buffer list takes \<open>NBUF + 1\<close> steps, one more than the list
  has buffers. A directory scan takes one step more than its size has entries, and one for the end. The
  depth of the shell's parser is \<open>4 * length s + 4\<close>; \<open>parse_not_Out\<close> shows it is never reached. Loops
  that C may run forever are partial functions into \<open>option\<close>, and the theorems about them show that they
  return.

  \<^bold>\<open>Assumptions of the model.\<close> Outside \<open>Spinlock\<close> and \<open>Sched\<close> a critical section is one step. The
  buffer cache and everything above it take the transfer of a block as one operation on the disk; that the
  driver of \<open>Virtio\<close> and a device have this effect is not proved. A block write reaches the disk whole. The
  theories \<open>Fs\<close>, \<open>File\<close>, \<open>Sleeplock\<close>, \<open>Proc_Life\<close>, \<open>Exec\<close>, \<open>Sysfile\<close>, \<open>Syscall\<close>, \<open>Trap\<close> and
  \<open>Virtio\<close> define their components without theorems of their own, and \<open>Dir\<close> and \<open>Proc\<close> have only
  auxiliary facts.

  \<^bold>\<open>Not modelled.\<close> The assembly routines (\<^verbatim>\<open>entry.S\<close>, \<^verbatim>\<open>kernelvec.S\<close>,
  \<^verbatim>\<open>swtch.S\<close>, \<^verbatim>\<open>trampoline.S\<close>, \<^verbatim>\<open>initcode.S\<close>), which are machine code;
  \<^verbatim>\<open>ramdisk.c\<close>, which the build does not use; the small user programs that only pass their arguments
  to system calls; the prompt of the shell and the \<^verbatim>\<open>main\<close> of \<^verbatim>\<open>grep\<close>; and the test
  programs \<^verbatim>\<open>usertests\<close>, \<^verbatim>\<open>grind\<close>, \<^verbatim>\<open>forktest\<close> and
  \<^verbatim>\<open>stressfs\<close>.
\<close>

text \<open>C40. The kernel finds exactly the blocks \<^verbatim>\<open>mkfs\<close> left free: in every image the tool builds,
  the bitmap sector the kernel looks at for a block has that block's bit clear if and only if
  \<^verbatim>\<open>mkfs\<close> did not allocate it, and the scan of the kernel's \<^verbatim>\<open>balloc\<close> over that sector
  stops at the first block after those of the tool, or finds none when the disk is full.\<close>

theorem mkfs_bitmap_for_kernel:
  assumes "mk_main files = Some s" and "b < FSSIZE"
  shows "\<exists>d. img s (BBLOCK (of_nat b) mk_sb) = Some d \<and> bit_clear d (b mod BPB) = (unat (freeblock s) \<le> b) \<and>
    balloc_scan 0 FSSIZE d = (if unat (freeblock s) < FSSIZE then Some (unat (freeblock s)) else None)"
proof -
  let ?d = "mk_bits 0 (unat (freeblock s)) (replicate BSIZE 0)"
  note m = mk_main_bitmap [OF assms(1)]
  have "(of_nat b :: u32) div of_nat BPB = 0"
    using assms(2) by (simp add: FSSIZE_def BPB_def BSIZE_def word_unat_eq_iff unat_div_distrib unat_of_nat)
  then have "BBLOCK (of_nat b) mk_sb = sb_bmapstart mk_sb" by (simp add: BBLOCK_def)
  moreover have clear: "bit_clear ?d x \<longleftrightarrow> unat (freeblock s) \<le> x" if "x < FSSIZE" for x
    using mk_bits_clear [of 0 "unat (freeblock s)" "replicate BSIZE 0" x] m(1) that
    by (auto simp: bit_clear_iff FSSIZE_def BSIZE_def)
  moreover have "b mod BPB = b" using assms(2) by (simp add: FSSIZE_def BPB_def BSIZE_def)
  ultimately show ?thesis using m(2) balloc_scan_first [of 0 FSSIZE ?d "unat (freeblock s)"] assms(2) by simp
qed

theorem mkfs_bitmap_for_kernel_witness:
  "\<exists>s d. mk_main [] = Some s \<and> img s (BBLOCK (of_nat 46) mk_sb) = Some d \<and>
    bit_clear d (46 mod BPB) = (unat (freeblock s) \<le> 46) \<and>
    balloc_scan 0 FSSIZE d = (if unat (freeblock s) < FSSIZE then Some (unat (freeblock s)) else None)"
proof -
  obtain s where "mk_main [] = Some s" using demo_image by blast
  then show ?thesis using mkfs_bitmap_for_kernel [of "[]" s 46] by (auto simp: FSSIZE_def)
qed

end
